(* ===== verification/Thp_Prelude.thy ===== *)
theory Thp_Prelude
  imports Main "HOL-Library.Word"
begin

text \<open>
  Shared vocabulary of the development: machine integers and byte strings, Rust's
  \<open>Result\<close> with panics as a third outcome, checked slice operations, big-endian
  integer encodings, and the list and word lemmas that the component theories use.

  \<^item> \<open>u8\<close>, \<open>u16\<close>, \<open>u32\<close> are words of that width. A \<open>usize\<close> is a \<open>nat\<close>: the
    sources only add lengths of slices and small constants to it.
  \<^item> A Rust \<open>Result<T, E>\<close> is \<open>('a, 'e) result\<close>. \<open>Panic\<close> stands for every way in which
    the source can abort (an index or slice out of range, \<open>unwrap\<close> of an error,
    \<open>assert!\<close>); a method that mutates its receiver returns the result paired with the
    receiver's new value, so that the state left behind by an error is visible.
  \<^item> \<open>&xs[..n]\<close>, \<open>&xs[n..]\<close> and \<open>xs[i..j].copy_from_slice(ys)\<close> are \<open>slice_to\<close>,
    \<open>slice_from\<close> and \<open>copy_at\<close>, which panic out of range.
\<close>

unbundle bit_operations_syntax

section \<open>Types\<close>

type_synonym u8 = "8 word"
type_synonym u16 = "16 word"
type_synonym u32 = "32 word"
type_synonym bytes = "8 word list"

datatype ('a, 'e) result = Ok 'a | Err 'e | Panic

named_theorems no_panic_intros \<open>absence of panics, component by component\<close>

section \<open>Results\<close>

text \<open>The \<open>?\<close> operator.\<close>

fun and_then :: "('a, 'e) result \<Rightarrow> ('a \<Rightarrow> ('b, 'e) result) \<Rightarrow> ('b, 'e) result" where
  "and_then (Ok x) f = f x"
| "and_then (Err e) f = Err e"
| "and_then Panic f = Panic"

definition map_ok :: "('a \<Rightarrow> 'b) \<Rightarrow> ('a, 'e) result \<Rightarrow> ('b, 'e) result" where
  "map_ok g r = and_then r (\<lambda>x. Ok (g x))"

definition ok_or :: "'e \<Rightarrow> 'a option \<Rightarrow> ('a, 'e) result" where
  "ok_or e x = (case x of None \<Rightarrow> Err e | Some y \<Rightarrow> Ok y)"

fun is_ok :: "('a, 'e) result \<Rightarrow> bool" where
  "is_ok (Ok _) = True"
| "is_ok (Err _) = False"
| "is_ok Panic = False"

lemma and_then_eq_Ok [simp]:
  "and_then m f = Ok y \<longleftrightarrow> (\<exists>x. m = Ok x \<and> f x = Ok y)"
  by (cases m) auto

lemma and_then_eq_Err:
  "and_then m f = Err e \<longleftrightarrow> m = Err e \<or> (\<exists>x. m = Ok x \<and> f x = Err e)"
  by (cases m) auto

lemma and_then_eq_Panic:
  "and_then m f = Panic \<longleftrightarrow> m = Panic \<or> (\<exists>x. m = Ok x \<and> f x = Panic)"
  by (cases m) auto

lemma and_then_no_panic [no_panic_intros]:
  "m \<noteq> Panic \<Longrightarrow> (\<And>x. m = Ok x \<Longrightarrow> f x \<noteq> Panic) \<Longrightarrow> and_then m f \<noteq> Panic"
  by (auto simp: and_then_eq_Panic)

lemma ok_or_simps [simp]:
  "ok_or e None = Err e"
  "ok_or e (Some x) = Ok x"
  "ok_or e m \<noteq> Panic"
  "(ok_or e m = Ok x) = (m = Some x)"
  "(ok_or e m = Err d) = (m = None \<and> d = e)"
  by (auto simp: ok_or_def split: option.splits)

lemma map_ok_simps [simp]:
  "map_ok g (Ok x) = Ok (g x)"
  "map_ok g (Err e) = Err e"
  "map_ok g Panic = Panic"
  by (simp_all add: map_ok_def)

lemma is_ok_iff: "is_ok r \<longleftrightarrow> (\<exists>x. r = Ok x)"
  by (cases r) auto

text \<open>
  The same operator for methods that mutate their receiver: an early return hands back the
  state as it was left.
\<close>

fun and_then_st ::
  "('a, 'e) result \<times> 's \<Rightarrow> ('a \<Rightarrow> 's \<Rightarrow> ('b, 'e) result \<times> 's) \<Rightarrow> ('b, 'e) result \<times> 's" where
  "and_then_st (Ok x, s) f = f x s"
| "and_then_st (Err e, s) f = (Err e, s)"
| "and_then_st (Panic, s) f = (Panic, s)"

lemma and_then_st_eq_Ok:
  "and_then_st m f = (Ok y, s') \<longleftrightarrow> (\<exists>x s. m = (Ok x, s) \<and> f x s = (Ok y, s'))"
  by (cases m; cases "fst m") auto

text \<open>
  \<open>safely P m\<close>: the call \<open>m\<close> did not panic and left a state that satisfies \<open>P\<close>, whatever it
  returned. This is the shape of the components' invariants; it composes along \<open>?\<close>.
\<close>

definition safely :: "('s \<Rightarrow> bool) \<Rightarrow> ('a, 'e) result \<times> 's \<Rightarrow> bool" where
  "safely P m \<longleftrightarrow> fst m \<noteq> Panic \<and> P (snd m)"

lemma safely_simps [simp]:
  "safely P (Ok x, s) = P s" "safely P (Err e, s) = P s" "\<not> safely P (Panic, s)"
  by (simp_all add: safely_def)

lemma safely_pair: "r \<noteq> Panic \<Longrightarrow> P s \<Longrightarrow> safely P (r, s)"
  by (simp add: safely_def)

lemma safely_bind:
  assumes "safely P m" and "\<And>s. P s \<Longrightarrow> Q s" and "\<And>x s. m = (Ok x, s) \<Longrightarrow> P s \<Longrightarrow> safely Q (f x s)"
  shows "safely Q (and_then_st m f)"
  using assms by (cases m; cases "fst m") (auto simp: safely_def)

lemma safely_and_then [no_panic_intros]:
  assumes "safely P m" and "\<And>x s. m = (Ok x, s) \<Longrightarrow> P s \<Longrightarrow> safely P (f x s)"
  shows "safely P (and_then_st m f)"
  by (rule safely_bind [OF assms(1) _ assms(2)])

lemma safely_mono: "safely P m \<Longrightarrow> (\<And>s. P s \<Longrightarrow> Q s) \<Longrightarrow> safely Q m"
  by (auto simp: safely_def)

lemma safelyD:
  "safely P m \<Longrightarrow> fst m \<noteq> Panic" "safely P m \<Longrightarrow> P (snd m)" "safely P m \<Longrightarrow> m = (r, s) \<Longrightarrow> P s"
  by (auto simp: safely_def)

section \<open>Slices\<close>

definition slice_to :: "nat \<Rightarrow> 'a list \<Rightarrow> ('a list, 'e) result" where
  "slice_to n xs = (if n \<le> length xs then Ok (take n xs) else Panic)"

definition slice_from :: "nat \<Rightarrow> 'a list \<Rightarrow> ('a list, 'e) result" where
  "slice_from n xs = (if n \<le> length xs then Ok (drop n xs) else Panic)"

definition copy_at :: "nat \<Rightarrow> 'a list \<Rightarrow> 'a list \<Rightarrow> ('a list, 'e) result" where
  "copy_at i src dest =
     (if i + length src \<le> length dest
      then Ok (take i dest @ src @ drop (i + length src) dest) else Panic)"

text \<open>\<open>copy_within\<close> of the range from \<open>i\<close> to \<open>j\<close>, with the panic when it does not fit.\<close>

definition copy_within :: "nat \<Rightarrow> nat \<Rightarrow> nat \<Rightarrow> 'a list \<Rightarrow> ('a list, 'e) result" where
  "copy_within i j dest xs =
     (if i \<le> j \<and> j \<le> length xs \<and> dest + (j - i) \<le> length xs
      then Ok (take dest xs @ take (j - i) (drop i xs) @ drop (dest + (j - i)) xs)
      else Panic)"

text \<open>
  \<open>heapless::Vec\<close>: a list of bounded capacity. \<open>from_slice\<close> and \<open>extend_from_slice\<close> fail when
  the capacity does not suffice, \<open>push_back\<close> of a \<open>heapless::Deque\<close> likewise.
\<close>

definition vec_extend :: "nat \<Rightarrow> 'a list \<Rightarrow> 'a list \<Rightarrow> 'a list option" where
  "vec_extend capacity v xs = (if length v + length xs \<le> capacity then Some (v @ xs) else None)"

definition vec_from_slice :: "nat \<Rightarrow> 'a list \<Rightarrow> 'a list option" where
  "vec_from_slice capacity xs = vec_extend capacity [] xs"

definition deque_push_back :: "nat \<Rightarrow> 'a list \<Rightarrow> 'a \<Rightarrow> 'a list option" where
  "deque_push_back capacity q x = (if length q < capacity then Some (q @ [x]) else None)"

lemma vec_extend_Some: "vec_extend n v xs = Some w \<longleftrightarrow> length v + length xs \<le> n \<and> w = v @ xs"
  by (auto simp: vec_extend_def)

lemma vec_from_slice_Some: "vec_from_slice n xs = Some w \<longleftrightarrow> length xs \<le> n \<and> w = xs"
  by (auto simp: vec_from_slice_def vec_extend_Some)

lemma deque_push_back_Some: "deque_push_back n q x = Some q' \<longleftrightarrow> length q < n \<and> q' = q @ [x]"
  by (auto simp: deque_push_back_def)

text \<open>\<open>split_first_chunk\<close> and \<open>split_at_checked\<close>: the failing branch is a value.\<close>

definition split_first_chunk :: "nat \<Rightarrow> 'a list \<Rightarrow> ('a list \<times> 'a list) option" where
  "split_first_chunk n xs = (if n \<le> length xs then Some (take n xs, drop n xs) else None)"

definition last_chunk :: "nat \<Rightarrow> 'a list \<Rightarrow> 'a list option" where
  "last_chunk n xs = (if n \<le> length xs then Some (drop (length xs - n) xs) else None)"

lemma slice_to_eq [simp]:
  "n \<le> length xs \<Longrightarrow> slice_to n xs = Ok (take n xs)"
  "slice_to n xs = Panic \<longleftrightarrow> length xs < n"
  "slice_to n xs = Ok ys \<longleftrightarrow> n \<le> length xs \<and> ys = take n xs"
  "slice_to n xs \<noteq> Err e"
  by (auto simp: slice_to_def)

lemma slice_from_eq [simp]:
  "n \<le> length xs \<Longrightarrow> slice_from n xs = Ok (drop n xs)"
  "slice_from n xs = Panic \<longleftrightarrow> length xs < n"
  "slice_from n xs = Ok ys \<longleftrightarrow> n \<le> length xs \<and> ys = drop n xs"
  "slice_from n xs \<noteq> Err e"
  by (auto simp: slice_from_def)

lemma copy_at_eq [simp]:
  "i + length src \<le> length dest \<Longrightarrow>
     copy_at i src dest = Ok (take i dest @ src @ drop (i + length src) dest)"
  "copy_at i src dest = Panic \<longleftrightarrow> length dest < i + length src"
  "copy_at i src dest \<noteq> Err e"
  by (auto simp: copy_at_def)

lemma copy_at_length: "copy_at i src dest = Ok d \<Longrightarrow> length d = length dest"
  by (auto simp: copy_at_def split: if_splits)

lemma split_first_chunk_simps [simp]:
  "split_first_chunk n xs = None \<longleftrightarrow> length xs < n"
  "split_first_chunk n xs = Some (a, b) \<longleftrightarrow> n \<le> length xs \<and> a = take n xs \<and> b = drop n xs"
  "length a = n \<Longrightarrow> split_first_chunk n (a @ b) = Some (a, b)"
  by (auto simp: split_first_chunk_def)

lemma last_chunk_simps [simp]:
  "last_chunk n xs = None \<longleftrightarrow> length xs < n"
  "last_chunk n xs = Some a \<longleftrightarrow> n \<le> length xs \<and> a = drop (length xs - n) xs"
  "length b = n \<Longrightarrow> last_chunk n (a @ b) = Some b"
  by (auto simp: last_chunk_def)

text \<open>Consecutive windows of a list, the shape in which packets are cut and glued.\<close>

lemma take_drop_append: "take i xs @ take j (drop i xs) = take (i + j) xs"
  by (simp add: take_add)

lemma take_min_length [simp]: "take (min n (length xs)) xs = take n xs"
  by (auto simp: min_def)

section \<open>Words\<close>

lemma xor_eq_zero_iff: "a XOR b = 0 \<longleftrightarrow> a = (b :: 'a::len word)"
proof
  assume "a XOR b = 0"
  then have "(a XOR b) XOR b = 0 XOR b" by simp
  then show "a = b" by (simp add: xor.assoc)
qed simp

lemma xor_left_inject [simp]: "a XOR b = a XOR c \<longleftrightarrow> b = (c :: 'a::len word)"
  by (metis xor.left_commute xor_self_eq xor.right_neutral)

text \<open>A property of a byte can be checked on all 256 of them.\<close>

lemma u8_all: "list_all P (map of_nat [0..<256]) \<Longrightarrow> P (b :: u8)"
proof -
  assume all: "list_all P (map of_nat [0..<256])"
  have "P (of_nat n)" if "n < 256" for n
    using all that by (simp add: list_all_iff)
  moreover have "unat b < 256"
    using unsigned_less [of b, where ?'a = nat] by simp
  ultimately have "P (of_nat (unat b))" by blast
  then show ?thesis by simp
qed

section \<open>Big-endian integers\<close>

definition u16_to_be :: "u16 \<Rightarrow> bytes" where
  "u16_to_be w = [ucast (drop_bit 8 w), ucast w]"

fun u16_from_be :: "bytes \<Rightarrow> u16" where
  "u16_from_be [a, b] = push_bit 8 (ucast a) OR ucast b"
| "u16_from_be _ = 0"

definition u32_to_be :: "u32 \<Rightarrow> bytes" where
  "u32_to_be w = [ucast (drop_bit 24 w), ucast (drop_bit 16 w), ucast (drop_bit 8 w), ucast w]"

lemma length_u16_to_be [simp]: "length (u16_to_be w) = 2"
  by (simp add: u16_to_be_def)

lemma length_u32_to_be [simp]: "length (u32_to_be w) = 4"
  by (simp add: u32_to_be_def)

lemma u16_from_to_be [simp]: "u16_from_be (u16_to_be w) = w"
  unfolding u16_to_be_def u16_from_be.simps
  by (rule bit_word_eqI) (auto simp: bit_simps)

lemma u16_to_from_be: "length bs = 2 \<Longrightarrow> u16_to_be (u16_from_be bs) = bs"
proof -
  assume "length bs = 2"
  then obtain a b where bs: "bs = [a, b]"
    by (auto simp: numeral_2_eq_2 length_Suc_conv)
  have "ucast (drop_bit 8 (push_bit 8 (ucast a) OR (ucast b :: u16))) = a"
    by (rule bit_word_eqI) (auto simp: bit_simps dest: bit_imp_le_length)
  moreover have "ucast (push_bit 8 (ucast a) OR (ucast b :: u16)) = b"
    by (rule bit_word_eqI) (auto simp: bit_simps)
  ultimately show ?thesis by (simp add: bs u16_to_be_def)
qed

lemma u16_to_be_inject [simp]: "u16_to_be a = u16_to_be b \<longleftrightarrow> a = b"
  by (metis u16_from_to_be)

lemma u32_to_be_inject [simp]: "u32_to_be a = u32_to_be b \<longleftrightarrow> a = b"
proof
  assume eq: "u32_to_be a = u32_to_be b"
  show "a = b"
  proof (rule bit_word_eqI)
    fix n assume n: "n < LENGTH(32)"
    have pick: "bit (x :: u32) n = bit (u32_to_be x ! (3 - n div 8)) (n mod 8)" for x
    proof -
      consider "n < 8" | "8 \<le> n" "n < 16" | "16 \<le> n" "n < 24" | "24 \<le> n" "n < 32"
        using n by fastforce
      then show ?thesis
        by cases (use n in \<open>auto simp: u32_to_be_def bit_simps div_nat_eqI
          le_mod_geq nth_Cons' le_div_geq\<close>)
    qed
    show "bit a n = bit b n" by (simp only: pick eq)
  qed
qed simp

section \<open>Lists that change once from one kind of element to another\<close>

fun two_phase :: "('a \<Rightarrow> bool) \<Rightarrow> ('a \<Rightarrow> bool) \<Rightarrow> 'a list \<Rightarrow> bool" where
  "two_phase P Q [] = True"
| "two_phase P Q (x # xs) = (P x \<and> two_phase P Q xs \<or> list_all Q (x # xs))"

lemma two_phase_second: "list_all Q xs \<Longrightarrow> two_phase P Q xs"
  by (cases xs) auto

lemma two_phase_append_first: "list_all P xs \<Longrightarrow> two_phase P Q ys \<Longrightarrow> two_phase P Q (xs @ ys)"
  by (induction xs) auto

lemma two_phase_first: "list_all P xs \<Longrightarrow> two_phase P Q xs"
  using two_phase_append_first [of P xs Q "[]"] by simp

lemma two_phase_snoc: "two_phase P Q xs \<Longrightarrow> Q y \<Longrightarrow> two_phase P Q (xs @ [y])"
  by (induction xs) auto

lemma two_phase_remove: "two_phase P Q (xs @ x # ys) \<Longrightarrow> two_phase P Q (xs @ ys)"
  by (induction xs) (auto intro: two_phase_second)

lemma two_phase_duplicate: "two_phase P Q (xs @ x # ys) \<Longrightarrow> two_phase P Q (xs @ x # x # ys)"
  by (induction xs) auto

lemma two_phase_tl: "two_phase P Q (x # xs) \<Longrightarrow> two_phase P Q xs"
  using two_phase_remove [of P Q "[]"] by simp

section \<open>Invariants of transition systems\<close>

locale transition_system =
  fixes init :: "'s \<Rightarrow> bool"
    and step :: "'s \<Rightarrow> 's \<Rightarrow> bool"
    and inv :: "'s \<Rightarrow> bool"
  assumes init_inv: "init s \<Longrightarrow> inv s"
    and step_inv: "inv s \<Longrightarrow> step s t \<Longrightarrow> inv t"
begin

lemma steps_inv: "step\<^sup>*\<^sup>* s t \<Longrightarrow> inv s \<Longrightarrow> inv t"
  by (induction rule: rtranclp_induct) (auto intro: step_inv)

lemma reachable_inv: "init s \<Longrightarrow> step\<^sup>*\<^sup>* s t \<Longrightarrow> inv t"
  by (auto intro: steps_inv init_inv)

end

end
