(* ===== verification/Thp_Error.thy ===== *)
theory Thp_Error
  imports Thp_Prelude
begin

text \<open>
  The error types of the protocol library, \<open>rust/trezor-thp/src/error.rs\<close>: the
  payload of \<open>transport_error\<close> messages with its wire encoding, and the library's own
  \<open>Error\<close> enumeration. Library results are \<open>'a thp_result\<close>.
\<close>

datatype transport_error =
  TransportBusy | UnallocatedChannel | DecryptionFailed | DeviceLocked

datatype thp_error =
  UnexpectedInput | NotReady | MalformedData | InvalidChecksum | InsufficientBuffer | CryptoError

type_synonym 'a thp_result = "('a, thp_error) result"

definition is_recoverable :: "transport_error \<Rightarrow> bool" where
  "is_recoverable e = (case e of TransportBusy \<Rightarrow> True | _ \<Rightarrow> False)"

fun transport_error_as_str :: "transport_error \<Rightarrow> string" where
  "transport_error_as_str TransportBusy = ''TRANSPORT_BUSY''"
| "transport_error_as_str UnallocatedChannel = ''UNALLOCATED_CHANNEL''"
| "transport_error_as_str DecryptionFailed = ''DECRYPTION_FAILED''"
| "transport_error_as_str DeviceLocked = ''DEVICE_LOCKED''"

fun transport_error_to_u8 :: "transport_error \<Rightarrow> u8" where
  "transport_error_to_u8 TransportBusy = 1"
| "transport_error_to_u8 UnallocatedChannel = 2"
| "transport_error_to_u8 DecryptionFailed = 3"
| "transport_error_to_u8 DeviceLocked = 5"

definition transport_error_from_u8 :: "u8 \<Rightarrow> transport_error thp_result" where
  "transport_error_from_u8 val =
     (if val = 1 then Ok TransportBusy
      else if val = 2 then Ok UnallocatedChannel
      else if val = 3 then Ok DecryptionFailed
      else if val = 5 then Ok DeviceLocked
      else Err MalformedData)"

definition transport_error_from_bytes :: "bytes \<Rightarrow> transport_error thp_result" where
  "transport_error_from_bytes val =
     (case val of [] \<Rightarrow> Err MalformedData | b # _ \<Rightarrow> transport_error_from_u8 b)"

text \<open>
  The kinds of error of the Noise library, as far as \<open>error.rs\<close> tells them apart, and
  their translation.
\<close>

datatype noise_error_kind = NoiseDH | NoiseDecryption | NoiseTooShort

fun from_noise_error :: "noise_error_kind \<Rightarrow> thp_error" where
  "from_noise_error NoiseDH = CryptoError"
| "from_noise_error NoiseDecryption = CryptoError"
| "from_noise_error NoiseTooShort = MalformedData"

lemma transport_error_from_u8_no_panic [simp]: "transport_error_from_u8 b \<noteq> Panic"
  by (simp add: transport_error_from_u8_def)

lemma transport_error_from_bytes_no_panic [simp]: "transport_error_from_bytes bs \<noteq> Panic"
  by (simp add: transport_error_from_bytes_def split: list.splits)

lemma transport_error_roundtrip [simp]:
  "transport_error_from_u8 (transport_error_to_u8 e) = Ok e"
  by (cases e) (simp_all add: transport_error_from_u8_def)

lemma transport_error_from_u8_Ok:
  "transport_error_from_u8 b = Ok e \<longleftrightarrow> b = transport_error_to_u8 e"
  by (cases e) (auto simp: transport_error_from_u8_def)

lemma transport_error_to_u8_inject [simp]:
  "transport_error_to_u8 a = transport_error_to_u8 b \<longleftrightarrow> a = b"
  by (cases a; cases b) simp_all

end
