(* ===== verification/Thp_Control_Byte.thy ===== *)
theory Thp_Control_Byte
  imports Thp_Error
begin

text \<open>
  The first byte of every packet, \<open>rust/trezor-thp/src/control_byte.rs\<close>, and the two
  synchronization bits it carries (\<open>SyncBits\<close> of \<open>alternating_bit.rs\<close>). The lemmas show
  that the classes of control bytes never overlap, that the sync bits and the packet type
  are independent of each other, and that the two bits are stored and read back intact.
\<close>

section \<open>Constants and types\<close>

definition CODEC_V1 :: u8 where "CODEC_V1 = 0x3F"
definition CONTINUATION_PACKET :: u8 where "CONTINUATION_PACKET = 0x80"
definition CONTINUATION_PACKET_MASK :: u8 where "CONTINUATION_PACKET_MASK = 0x80"
definition ACK_MASK :: u8 where "ACK_MASK = 0xF7"
definition ACK_MESSAGE :: u8 where "ACK_MESSAGE = 0x20"
definition DATA_MASK :: u8 where "DATA_MASK = 0xE7"
definition HANDSHAKE_INIT_REQ :: u8 where "HANDSHAKE_INIT_REQ = 0x00"
definition HANDSHAKE_INIT_RES :: u8 where "HANDSHAKE_INIT_RES = 0x01"
definition HANDSHAKE_COMP_REQ :: u8 where "HANDSHAKE_COMP_REQ = 0x02"
definition HANDSHAKE_COMP_RES :: u8 where "HANDSHAKE_COMP_RES = 0x03"
definition ENCRYPTED_TRANSPORT :: u8 where "ENCRYPTED_TRANSPORT = 0x04"
definition CHANNEL_ALLOCATION_REQ :: u8 where "CHANNEL_ALLOCATION_REQ = 0x40"
definition CHANNEL_ALLOCATION_RES :: u8 where "CHANNEL_ALLOCATION_RES = 0x41"
definition ERROR_CB :: u8 where "ERROR_CB = 0x42"
definition PING_CB :: u8 where "PING_CB = 0x43"
definition PONG_CB :: u8 where "PONG_CB = 0x44"
definition ACK_BIT :: u8 where "ACK_BIT = 0x08"
definition SEQ_BIT :: u8 where "SEQ_BIT = 0x10"
definition SYNC_MASK :: u8 where "SYNC_MASK = ACK_BIT OR SEQ_BIT"

lemmas cb_consts [simp] =
  CODEC_V1_def CONTINUATION_PACKET_def CONTINUATION_PACKET_MASK_def ACK_MASK_def
  ACK_MESSAGE_def DATA_MASK_def HANDSHAKE_INIT_REQ_def HANDSHAKE_INIT_RES_def
  HANDSHAKE_COMP_REQ_def HANDSHAKE_COMP_RES_def ENCRYPTED_TRANSPORT_def
  CHANNEL_ALLOCATION_REQ_def CHANNEL_ALLOCATION_RES_def ERROR_CB_def PING_CB_def PONG_CB_def
  ACK_BIT_def SEQ_BIT_def SYNC_MASK_def

datatype control_byte = ControlByte (cb_byte: u8)

datatype sync_bits = SyncBits (sb_byte: u8)

datatype handshake_message =
  InitiationRequest | InitiationResponse | CompletionRequest | CompletionResponse

section \<open>Sync bits\<close>

definition sync_bits_new :: sync_bits where
  "sync_bits_new = SyncBits 0"

definition seq_bit :: "sync_bits \<Rightarrow> bool" where
  "seq_bit sb \<longleftrightarrow> sb_byte sb AND SEQ_BIT \<noteq> 0"

definition ack_bit :: "sync_bits \<Rightarrow> bool" where
  "ack_bit sb \<longleftrightarrow> sb_byte sb AND ACK_BIT \<noteq> 0"

definition with_seq_bit :: "sync_bits \<Rightarrow> bool \<Rightarrow> sync_bits" where
  "with_seq_bit sb b =
     SyncBits (if b then sb_byte sb OR SEQ_BIT else sb_byte sb AND NOT SEQ_BIT)"

definition with_ack_bit :: "sync_bits \<Rightarrow> bool \<Rightarrow> sync_bits" where
  "with_ack_bit sb b =
     SyncBits (if b then sb_byte sb OR ACK_BIT else sb_byte sb AND NOT ACK_BIT)"

definition sync_bits_from_u8 :: "u8 \<Rightarrow> sync_bits" where
  "sync_bits_from_u8 byte = SyncBits (byte AND SYNC_MASK)"

definition sync_bits_from_bytes :: "bytes \<Rightarrow> sync_bits thp_result" where
  "sync_bits_from_bytes bs =
     (case bs of [] \<Rightarrow> Err MalformedData | b # _ \<Rightarrow> Ok (sync_bits_from_u8 b))"

definition sync_bits_to_u8 :: "sync_bits \<Rightarrow> u8" where
  "sync_bits_to_u8 sb = sb_byte sb"

section \<open>Control bytes\<close>

definition cb_codec_v1 :: control_byte where
  "cb_codec_v1 = ControlByte CODEC_V1"

definition cb_continuation :: control_byte where
  "cb_continuation = ControlByte CONTINUATION_PACKET"

definition cb_ack :: control_byte where
  "cb_ack = ControlByte ACK_MESSAGE"

definition cb_encrypted_transport :: control_byte where
  "cb_encrypted_transport = ControlByte ENCRYPTED_TRANSPORT"

definition cb_ping :: control_byte where
  "cb_ping = ControlByte PING_CB"

definition cb_pong :: control_byte where
  "cb_pong = ControlByte PONG_CB"

definition cb_error :: control_byte where
  "cb_error = ControlByte ERROR_CB"

definition cb_channel_allocation_request :: control_byte where
  "cb_channel_allocation_request = ControlByte CHANNEL_ALLOCATION_REQ"

definition cb_channel_allocation_response :: control_byte where
  "cb_channel_allocation_response = ControlByte CHANNEL_ALLOCATION_RES"

fun cb_handshake :: "handshake_message \<Rightarrow> control_byte" where
  "cb_handshake InitiationRequest = ControlByte HANDSHAKE_INIT_REQ"
| "cb_handshake InitiationResponse = ControlByte HANDSHAKE_INIT_RES"
| "cb_handshake CompletionRequest = ControlByte HANDSHAKE_COMP_REQ"
| "cb_handshake CompletionResponse = ControlByte HANDSHAKE_COMP_RES"

definition cb_is_ack :: "control_byte \<Rightarrow> bool" where
  "cb_is_ack cb \<longleftrightarrow> cb_byte cb AND ACK_MASK = ACK_MESSAGE"

definition cb_is_continuation :: "control_byte \<Rightarrow> bool" where
  "cb_is_continuation cb \<longleftrightarrow> cb_byte cb AND CONTINUATION_PACKET_MASK = CONTINUATION_PACKET"

definition cb_is_encrypted_transport :: "control_byte \<Rightarrow> bool" where
  "cb_is_encrypted_transport cb \<longleftrightarrow> cb_byte cb AND DATA_MASK = ENCRYPTED_TRANSPORT"

definition cb_is_codec_v1 :: "control_byte \<Rightarrow> bool" where
  "cb_is_codec_v1 cb \<longleftrightarrow> cb_byte cb = CODEC_V1"

definition cb_is_ping :: "control_byte \<Rightarrow> bool" where
  "cb_is_ping cb \<longleftrightarrow> cb_byte cb = PING_CB"

definition cb_is_pong :: "control_byte \<Rightarrow> bool" where
  "cb_is_pong cb \<longleftrightarrow> cb_byte cb = PONG_CB"

definition cb_is_error :: "control_byte \<Rightarrow> bool" where
  "cb_is_error cb \<longleftrightarrow> cb_byte cb = ERROR_CB"

definition cb_is_channel_allocation_request :: "control_byte \<Rightarrow> bool" where
  "cb_is_channel_allocation_request cb \<longleftrightarrow> cb_byte cb = CHANNEL_ALLOCATION_REQ"

definition cb_is_channel_allocation_response :: "control_byte \<Rightarrow> bool" where
  "cb_is_channel_allocation_response cb \<longleftrightarrow> cb_byte cb = CHANNEL_ALLOCATION_RES"

definition cb_handshake_phase :: "control_byte \<Rightarrow> handshake_message option" where
  "cb_handshake_phase cb =
     (let d = cb_byte cb AND DATA_MASK in
      if d = HANDSHAKE_INIT_REQ then Some InitiationRequest
      else if d = HANDSHAKE_INIT_RES then Some InitiationResponse
      else if d = HANDSHAKE_COMP_REQ then Some CompletionRequest
      else if d = HANDSHAKE_COMP_RES then Some CompletionResponse
      else None)"

definition cb_is_handshake :: "control_byte \<Rightarrow> bool" where
  "cb_is_handshake cb \<longleftrightarrow> cb_handshake_phase cb \<noteq> None"

definition cb_sync_bits :: "control_byte \<Rightarrow> sync_bits" where
  "cb_sync_bits cb = sync_bits_from_u8 (cb_byte cb)"

definition with_sync_bits :: "control_byte \<Rightarrow> sync_bits \<Rightarrow> control_byte" where
  "with_sync_bits cb sb = ControlByte (cb_byte cb AND NOT SYNC_MASK OR sync_bits_to_u8 sb)"

definition control_byte_try_from :: "u8 \<Rightarrow> control_byte thp_result" where
  "control_byte_try_from byte =
     (let cb = ControlByte byte in
      if cb_is_continuation cb \<or> cb_is_ack cb \<or> cb_is_encrypted_transport cb \<or> cb_is_error cb
        \<or> cb_is_ping cb \<or> cb_is_pong cb \<or> cb_is_channel_allocation_request cb
        \<or> cb_is_channel_allocation_response cb \<or> cb_is_handshake cb \<or> cb_is_codec_v1 cb
      then Ok cb else Err MalformedData)"

definition control_byte_parse :: "bytes \<Rightarrow> (control_byte \<times> bytes) thp_result" where
  "control_byte_parse packet_buffer =
     (case packet_buffer of
        [] \<Rightarrow> Err MalformedData
      | first_byte # rest \<Rightarrow>
          and_then (control_byte_try_from first_byte) (\<lambda>cb. Ok (cb, rest)))"

definition control_byte_to_u8 :: "control_byte \<Rightarrow> u8" where
  "control_byte_to_u8 cb = cb_byte cb"

lemmas cb_tests =
  cb_is_ack_def cb_is_continuation_def cb_is_encrypted_transport_def cb_is_codec_v1_def
  cb_is_ping_def cb_is_pong_def cb_is_error_def cb_is_channel_allocation_request_def
  cb_is_channel_allocation_response_def cb_is_handshake_def cb_handshake_phase_def

lemmas cb_makers =
  cb_codec_v1_def cb_continuation_def cb_ack_def cb_encrypted_transport_def cb_ping_def
  cb_pong_def cb_error_def cb_channel_allocation_request_def cb_channel_allocation_response_def

section \<open>Facts about sync bits\<close>

text \<open>Well-formed sync bits use the two bits of the mask only; there are four of them.\<close>

definition sync_bits_wf :: "sync_bits \<Rightarrow> bool" where
  "sync_bits_wf sb \<longleftrightarrow> sb_byte sb AND SYNC_MASK = sb_byte sb"

lemma u8_mask_sync_cases: "(b::u8) AND 0x18 \<in> {0x00, 0x08, 0x10, 0x18}"
proof -
  have "b AND 0x18 = ((if bit b 3 then 0x08 else 0) OR (if bit b 4 then 0x10 else 0) :: u8)"
    (is "_ = ?r")
  proof (rule bit_word_eqI)
    fix n assume "n < LENGTH(8)"
    then have "n = 0 \<or> n = 1 \<or> n = 2 \<or> n = 3 \<or> n = 4 \<or> n = 5 \<or> n = 6 \<or> n = 7" by auto
    then show "bit (b AND 0x18) n = bit ?r n"
      by (elim disjE) (simp_all add: bit_simps)
  qed
  then show ?thesis by simp
qed

lemma sync_bits_wf_cases:
  assumes "sync_bits_wf sb"
  obtains "sb = SyncBits 0x00" | "sb = SyncBits 0x08" | "sb = SyncBits 0x10" | "sb = SyncBits 0x18"
  using assms u8_mask_sync_cases [of "sb_byte sb"]
  by (cases sb) (auto simp: sync_bits_wf_def)

lemma sync_bits_wf_intros [simp, intro]:
  "sync_bits_wf sync_bits_new"
  "sync_bits_wf (sync_bits_from_u8 b)"
  by (simp_all add: sync_bits_wf_def sync_bits_new_def sync_bits_from_u8_def and.assoc)

lemma sync_bits_wf_with [simp, intro]:
  "sync_bits_wf sb \<Longrightarrow> sync_bits_wf (with_seq_bit sb b)"
  "sync_bits_wf sb \<Longrightarrow> sync_bits_wf (with_ack_bit sb b)"
  by (erule sync_bits_wf_cases; simp add: sync_bits_wf_def with_seq_bit_def with_ack_bit_def)+

lemma with_bits_read [simp]:
  assumes "sync_bits_wf sb"
  shows "seq_bit (with_seq_bit sb b) = b" "ack_bit (with_ack_bit sb b) = b"
    "seq_bit (with_ack_bit sb b) = seq_bit sb" "ack_bit (with_seq_bit sb b) = ack_bit sb"
  using assms
  by (auto elim!: sync_bits_wf_cases simp: seq_bit_def ack_bit_def with_seq_bit_def with_ack_bit_def)

lemma new_bits [simp]: "\<not> seq_bit sync_bits_new" "\<not> ack_bit sync_bits_new"
  by (simp_all add: sync_bits_new_def seq_bit_def ack_bit_def)

lemma sync_bits_eqI:
  "sync_bits_wf a \<Longrightarrow> sync_bits_wf b \<Longrightarrow> seq_bit a = seq_bit b \<Longrightarrow> ack_bit a = ack_bit b \<Longrightarrow> a = b"
  by (erule sync_bits_wf_cases; erule sync_bits_wf_cases; simp add: seq_bit_def ack_bit_def)

lemma sync_bits_from_bytes_simps [simp]:
  "sync_bits_from_bytes (b # bs) = Ok (sync_bits_from_u8 b)"
  "sync_bits_from_bytes [] = Err MalformedData"
  by (simp_all add: sync_bits_from_bytes_def)

lemma sync_bits_from_bytes_no_panic [simp]: "sync_bits_from_bytes bs \<noteq> Panic"
  by (cases bs) simp_all

section \<open>Facts about control bytes\<close>

lemma control_byte_try_from_no_panic [simp]: "control_byte_try_from b \<noteq> Panic"
  by (simp add: control_byte_try_from_def Let_def)

lemma control_byte_try_from_Ok: "control_byte_try_from b = Ok cb \<Longrightarrow> cb_byte cb = b"
  by (auto simp: control_byte_try_from_def Let_def split: if_splits)

lemma control_byte_parse_no_panic [simp]: "control_byte_parse bs \<noteq> Panic"
  by (auto simp: control_byte_parse_def and_then_eq_Panic split: list.splits)

lemma control_byte_parse_Ok:
  "control_byte_parse bs = Ok (cb, rest) \<longleftrightarrow>
     bs = cb_byte cb # rest \<and> control_byte_try_from (cb_byte cb) = Ok cb"
  by (cases bs) (auto simp: control_byte_parse_def dest: control_byte_try_from_Ok)

text \<open>
  Storing sync bits in a control byte whose own bits 3 and 4 are clear: the class and the
  handshake phase stay what they were and the bits can be read back.
\<close>

lemma with_sync_bits_handshake [simp]:
  assumes "sync_bits_wf sb"
  shows "cb_handshake_phase (with_sync_bits (cb_handshake p) sb) = Some p"
    "cb_sync_bits (with_sync_bits (cb_handshake p) sb) = sb"
  using assms
  by (cases p; auto elim!: sync_bits_wf_cases simp: cb_tests with_sync_bits_def
      sync_bits_to_u8_def cb_sync_bits_def sync_bits_from_u8_def Let_def)+

lemma with_sync_bits_encrypted [simp]:
  assumes "sync_bits_wf sb"
  shows "cb_is_encrypted_transport (with_sync_bits cb_encrypted_transport sb)"
    "cb_handshake_phase (with_sync_bits cb_encrypted_transport sb) = None"
    "cb_sync_bits (with_sync_bits cb_encrypted_transport sb) = sb"
  using assms
  by (auto elim!: sync_bits_wf_cases simp: cb_tests cb_makers with_sync_bits_def
      sync_bits_to_u8_def cb_sync_bits_def sync_bits_from_u8_def Let_def)

lemma with_sync_bits_ack [simp]:
  assumes "sync_bits_wf sb" and "\<not> seq_bit sb"
  shows "cb_is_ack (with_sync_bits cb_ack sb)" "cb_sync_bits (with_sync_bits cb_ack sb) = sb"
  using assms
  by (auto elim!: sync_bits_wf_cases simp: cb_tests cb_makers with_sync_bits_def seq_bit_def
      sync_bits_to_u8_def cb_sync_bits_def sync_bits_from_u8_def)

section \<open>Properties\<close>

text \<open>The ten tests a control byte can pass, in the order of \<open>TryFrom<u8>\<close>.\<close>

definition cb_classes :: "control_byte \<Rightarrow> bool list" where
  "cb_classes cb =
     [cb_is_continuation cb, cb_is_ack cb, cb_is_encrypted_transport cb, cb_is_error cb,
      cb_is_ping cb, cb_is_pong cb, cb_is_channel_allocation_request cb,
      cb_is_channel_allocation_response cb, cb_is_handshake cb, cb_is_codec_v1 cb]"

text \<open>
  Control bytes are unambiguous: a byte that \<open>TryFrom<u8>\<close> accepts passes exactly one
  of the ten class tests, and a byte it rejects passes none.
\<close>

theorem control_byte_unambiguous:
  "length (filter (\<lambda>t. t) (cb_classes (ControlByte b)))
     = (if control_byte_try_from b = Ok (ControlByte b) then 1 else 0)"
  by (rule u8_all [of "\<lambda>b. length (filter (\<lambda>t. t) (cb_classes (ControlByte b)))
     = (if control_byte_try_from b = Ok (ControlByte b) then 1 else 0)"]) code_simp

end
