(* ===== verification/Thp_Alternating_Bit.thy ===== *)
theory Thp_Alternating_Bit
  imports Thp_Control_Byte
begin

text \<open>
  The alternating bit protocol of a channel, \<open>ChannelSync\<close> of
  \<open>rust/trezor-thp/src/alternating_bit.rs\<close>. Besides the operations, the theory models two
  endpoints joined by links that may lose and duplicate what they carry, and proves that
  the receiver accepts exactly the messages that were sent, once each and in order.
\<close>

section \<open>Definitions\<close>

definition bool_increment :: "bool \<Rightarrow> bool" where
  "bool_increment b = (\<not> b)"

definition bool_previous :: "bool \<Rightarrow> bool" where
  "bool_previous b = (\<not> b)"

record channel_sync =
  can_send :: bool
  sync_receive :: bool
  sync_send :: bool
  ack_piggybacking :: bool

definition channel_sync_new :: channel_sync where
  "channel_sync_new =
     \<lparr>can_send = True, sync_receive = False, sync_send = False, ack_piggybacking = False\<rparr>"

definition get_ack_bit :: "channel_sync \<Rightarrow> bool" where
  "get_ack_bit cs = bool_previous (sync_receive cs)"

definition send_start :: "channel_sync \<Rightarrow> sync_bits option" where
  "send_start cs =
     (if \<not> can_send cs then None
      else let sb = with_seq_bit sync_bits_new (sync_send cs)
           in Some (if ack_piggybacking cs then with_ack_bit sb (get_ack_bit cs) else sb))"

definition send_finish :: "channel_sync \<Rightarrow> channel_sync" where
  "send_finish cs = cs\<lparr>can_send := False\<rparr>"

definition send_mark_delivered :: "channel_sync \<Rightarrow> sync_bits \<Rightarrow> bool \<times> channel_sync" where
  "send_mark_delivered cs sb =
     (if sync_send cs = ack_bit sb
      then (True, cs\<lparr>sync_send := bool_increment (sync_send cs), can_send := True\<rparr>)
      else (False, cs))"

definition receive_start :: "channel_sync \<Rightarrow> sync_bits \<Rightarrow> bool" where
  "receive_start cs sb = (if seq_bit sb \<noteq> sync_receive cs then False else True)"

definition receive_acknowledge :: "channel_sync \<Rightarrow> sync_bits \<times> channel_sync" where
  "receive_acknowledge cs =
     (let cs' = cs\<lparr>sync_receive := bool_increment (sync_receive cs)\<rparr>
      in (with_ack_bit sync_bits_new (get_ack_bit cs'), cs'))"

definition allow_ack_piggybacking :: "channel_sync \<Rightarrow> channel_sync" where
  "allow_ack_piggybacking cs = cs\<lparr>ack_piggybacking := True\<rparr>"

definition is_ack_piggybacking_allowed :: "channel_sync \<Rightarrow> bool" where
  "is_ack_piggybacking_allowed cs = ack_piggybacking cs"

definition channel_sync_to_u8 :: "channel_sync \<Rightarrow> u8" where
  "channel_sync_to_u8 cs =
     (let res = 0;
          res = (if can_send cs then res OR 0x80 else res);
          res = (if sync_receive cs then res OR 0x40 else res);
          res = (if sync_send cs then res OR 0x20 else res);
          res = (if ack_piggybacking cs then res OR 0x10 else res)
      in res)"

definition channel_sync_from_u8 :: "u8 \<Rightarrow> channel_sync" where
  "channel_sync_from_u8 val =
     \<lparr>can_send = (val AND 0x80 \<noteq> 0), sync_receive = (val AND 0x40 \<noteq> 0),
      sync_send = (val AND 0x20 \<noteq> 0), ack_piggybacking = (val AND 0x10 \<noteq> 0)\<rparr>"

section \<open>Facts about single operations\<close>

lemma send_start_Some:
  "send_start cs = Some sb \<Longrightarrow> can_send cs \<and> sync_bits_wf sb \<and> seq_bit sb = sync_send cs"
  by (auto simp: send_start_def Let_def split: if_splits)

lemma send_start_eq_None: "send_start cs = None \<longleftrightarrow> \<not> can_send cs"
  by (simp add: send_start_def Let_def)

lemma send_start_piggyback:
  "send_start cs = Some sb \<Longrightarrow> ack_bit sb = (ack_piggybacking cs \<and> get_ack_bit cs)"
  by (auto simp: send_start_def Let_def split: if_splits)

lemma receive_start_iff: "receive_start cs sb \<longleftrightarrow> seq_bit sb = sync_receive cs"
  by (simp add: receive_start_def)

lemma send_finish_simps [simp]:
  "can_send (send_finish cs) = False"
  "sync_send (send_finish cs) = sync_send cs"
  "sync_receive (send_finish cs) = sync_receive cs"
  "ack_piggybacking (send_finish cs) = ack_piggybacking cs"
  by (simp_all add: send_finish_def)

lemma receive_acknowledge_bits [simp]:
  "sync_bits_wf (fst (receive_acknowledge cs))"
  "ack_bit (fst (receive_acknowledge cs)) = sync_receive cs"
  "seq_bit (fst (receive_acknowledge cs)) = False"
  "sync_receive (snd (receive_acknowledge cs)) = (\<not> sync_receive cs)"
  "sync_send (snd (receive_acknowledge cs)) = sync_send cs"
  "can_send (snd (receive_acknowledge cs)) = can_send cs"
  by (simp_all add: receive_acknowledge_def Let_def get_ack_bit_def bool_previous_def
      bool_increment_def)

lemma send_mark_delivered_iff:
  "fst (send_mark_delivered cs sb) \<longleftrightarrow> ack_bit sb = sync_send cs"
  by (auto simp: send_mark_delivered_def)

lemma send_mark_delivered_state:
  "sync_send (snd (send_mark_delivered cs sb)) =
     (if ack_bit sb = sync_send cs then \<not> sync_send cs else sync_send cs)"
  "sync_receive (snd (send_mark_delivered cs sb)) = sync_receive cs"
  "can_send (snd (send_mark_delivered cs sb)) = (ack_bit sb = sync_send cs \<or> can_send cs)"
  by (auto simp: send_mark_delivered_def bool_increment_def)

text \<open>
  The acknowledgement a receiver repeats for a message with the wrong sequence bit (see
  \<open>handle_invalid_seq\<close> in \<open>channel/mod.rs\<close>) carries the same bit as its last genuine one.
\<close>

lemma repeated_ack_bit:
  "\<not> receive_start cs sb \<Longrightarrow> ack_bit (with_ack_bit sync_bits_new (seq_bit sb)) = get_ack_bit cs"
  by (auto simp: receive_start_iff get_ack_bit_def bool_previous_def)

lemma channel_sync_u8_roundtrip: "channel_sync_from_u8 (channel_sync_to_u8 cs) = cs"
proof (cases cs)
  case (fields a b c d)
  then show ?thesis
    by (cases a; cases b; cases c; cases d)
      (simp_all add: channel_sync_from_u8_def channel_sync_to_u8_def)
qed

section \<open>Two endpoints over unreliable links\<close>

text \<open>
  One direction of a channel: a sender and a receiver, the message being sent with its sync
  bits, the packets under way in both directions (oldest first), and two histories.
\<close>

record 'm link =
  sender :: channel_sync
  receiver :: channel_sync
  current :: "(sync_bits \<times> 'm) option"
  data :: "(sync_bits \<times> 'm) list"
  acks :: "sync_bits list"
  submitted :: "'m list"
  accepted :: "'m list"

definition link_init :: "'m link \<Rightarrow> bool" where
  "link_init l \<longleftrightarrow>
     sender l = channel_sync_new \<and> receiver l = channel_sync_new \<and> current l = None \<and>
     data l = [] \<and> acks l = [] \<and> submitted l = [] \<and> accepted l = []"

text \<open>
  The steps: the application submits a message when the sender is ready, the sender
  transmits or retransmits it, the receiver accepts a message with the expected bit or
  repeats its acknowledgement, the sender handles an acknowledgement (ignored when nothing
  is being sent), and either link loses or duplicates a packet.
\<close>

inductive link_step :: "'m link \<Rightarrow> 'm link \<Rightarrow> bool" where
  submit: "current l = None \<Longrightarrow> send_start (sender l) = Some sb \<Longrightarrow>
    link_step l (l\<lparr>current := Some (sb, m), submitted := submitted l @ [m]\<rparr>)"
| transmit: "current l = Some p \<Longrightarrow>
    link_step l (l\<lparr>data := data l @ [p], sender := send_finish (sender l)\<rparr>)"
| accept: "data l = (sb, m) # ps \<Longrightarrow> receive_start (receiver l) sb \<Longrightarrow>
    link_step l (l\<lparr>data := ps, accepted := accepted l @ [m],
      acks := acks l @ [fst (receive_acknowledge (receiver l))],
      receiver := snd (receive_acknowledge (receiver l))\<rparr>)"
| repeat_ack: "data l = (sb, m) # ps \<Longrightarrow> \<not> receive_start (receiver l) sb \<Longrightarrow>
    link_step l (l\<lparr>data := ps, acks := acks l @ [with_ack_bit sync_bits_new (seq_bit sb)]\<rparr>)"
| ack_good: "acks l = sb # as \<Longrightarrow> current l = Some p \<Longrightarrow> fst (send_mark_delivered (sender l) sb) \<Longrightarrow>
    link_step l (l\<lparr>acks := as, current := None, sender := snd (send_mark_delivered (sender l) sb)\<rparr>)"
| ack_bad: "acks l = sb # as \<Longrightarrow> current l = Some p \<Longrightarrow> \<not> fst (send_mark_delivered (sender l) sb) \<Longrightarrow>
    link_step l (l\<lparr>acks := as\<rparr>)"
| ack_idle: "acks l = sb # as \<Longrightarrow> current l = None \<Longrightarrow> link_step l (l\<lparr>acks := as\<rparr>)"
| lose_data: "data l = xs @ x # ys \<Longrightarrow> link_step l (l\<lparr>data := xs @ ys\<rparr>)"
| lose_ack: "acks l = as @ a # bs \<Longrightarrow> link_step l (l\<lparr>acks := as @ bs\<rparr>)"
| duplicate_data: "data l = xs @ x # ys \<Longrightarrow> link_step l (l\<lparr>data := xs @ x # x # ys\<rparr>)"
| duplicate_ack: "acks l = as @ a # bs \<Longrightarrow> link_step l (l\<lparr>acks := as @ a # a # bs\<rparr>)"

text \<open>
  The invariant. With nothing under way both ends agree on the next bit and everything in
  the links is stale. With a message under way that the receiver has not seen, stale
  packets come before copies of that message and no acknowledgement matches; once the
  receiver has accepted it, every packet is a copy and stale acknowledgements come before
  fresh ones.
\<close>

definition link_inv :: "'m link \<Rightarrow> bool" where
  "link_inv l \<longleftrightarrow>
     (let s = sync_send (sender l); r = sync_receive (receiver l) in
      case current l of
        None \<Rightarrow>
          s = r \<and> can_send (sender l) \<and> accepted l = submitted l \<and>
          list_all (\<lambda>x. seq_bit (fst x) \<noteq> s) (data l) \<and> list_all (\<lambda>a. ack_bit a \<noteq> s) (acks l)
      | Some (sb, m) \<Rightarrow>
          seq_bit sb = s \<and>
          (if s = r
           then submitted l = accepted l @ [m] \<and> list_all (\<lambda>a. ack_bit a \<noteq> s) (acks l) \<and>
                two_phase (\<lambda>x. seq_bit (fst x) \<noteq> s) (\<lambda>x. x = (sb, m)) (data l)
           else accepted l = submitted l \<and> list_all (\<lambda>x. seq_bit (fst x) = s) (data l) \<and>
                two_phase (\<lambda>a. ack_bit a \<noteq> s) (\<lambda>a. ack_bit a = s) (acks l)))"

lemmas link_simps =
  link_inv_def Let_def receive_start_iff send_mark_delivered_iff send_mark_delivered_state

lemma link_inv_init: "link_init l \<Longrightarrow> link_inv l"
  by (simp add: link_init_def link_inv_def channel_sync_new_def)

lemma link_inv_None:
  "current l = None \<Longrightarrow> link_inv l \<longleftrightarrow>
     sync_receive (receiver l) = sync_send (sender l) \<and> can_send (sender l) \<and>
     accepted l = submitted l \<and>
     list_all (\<lambda>x. seq_bit (fst x) = (\<not> sync_send (sender l))) (data l) \<and>
     list_all (\<lambda>a. ack_bit a = (\<not> sync_send (sender l))) (acks l)"
  by (auto simp: link_inv_def Let_def list_all_iff)

lemma link_inv_pending:
  "current l = Some (sb, m) \<Longrightarrow> sync_receive (receiver l) = sync_send (sender l) \<Longrightarrow>
   link_inv l \<longleftrightarrow>
     seq_bit sb = sync_send (sender l) \<and> submitted l = accepted l @ [m] \<and>
     list_all (\<lambda>a. ack_bit a = (\<not> sync_send (sender l))) (acks l) \<and>
     two_phase (\<lambda>x. seq_bit (fst x) = (\<not> sync_send (sender l))) (\<lambda>x. x = (sb, m)) (data l)"
  by (simp add: link_inv_def Let_def)

lemma link_inv_received:
  "current l = Some (sb, m) \<Longrightarrow> sync_receive (receiver l) = (\<not> sync_send (sender l)) \<Longrightarrow>
   link_inv l \<longleftrightarrow>
     seq_bit sb = sync_send (sender l) \<and> accepted l = submitted l \<and>
     list_all (\<lambda>x. seq_bit (fst x) = sync_send (sender l)) (data l) \<and>
     two_phase (\<lambda>a. ack_bit a = (\<not> sync_send (sender l))) (\<lambda>a. ack_bit a = sync_send (sender l)) (acks l)"
  by (simp add: link_inv_def Let_def)

lemma link_cases:
  obtains (idle) "current l = None"
  | (pending) sb m where "current l = Some (sb, m)" "sync_receive (receiver l) = sync_send (sender l)"
  | (received) sb m where "current l = Some (sb, m)" "sync_receive (receiver l) = (\<not> sync_send (sender l))"
  by (cases "current l") auto

lemmas link_inv_cases = link_inv_None link_inv_pending link_inv_received



lemma submit_inv:
  assumes "link_inv l" "current l = None" "send_start (sender l) = Some sb"
  shows "link_inv (l\<lparr>current := Some (sb, m), submitted := submitted l @ [m]\<rparr>)"
  using assms
  by (subst link_inv_pending [of _ sb m])
    (auto simp: link_inv_None dest: send_start_Some intro: two_phase_first)

lemma transmit_inv:
  assumes "link_inv l" "current l = Some p"
  shows "link_inv (l\<lparr>data := data l @ [p], sender := send_finish (sender l)\<rparr>)"
  using assms
  by (cases rule: link_cases [of l]) (auto simp: link_inv_cases intro: two_phase_snoc)

lemma accept_inv:
  assumes "link_inv l" "data l = (sb, m) # ps" "receive_start (receiver l) sb"
  shows "link_inv (l\<lparr>data := ps, accepted := accepted l @ [m],
      acks := acks l @ [fst (receive_acknowledge (receiver l))],
      receiver := snd (receive_acknowledge (receiver l))\<rparr>)"
proof (cases rule: link_cases [of l])
  case idle
  then show ?thesis using assms by (simp add: link_inv_None receive_start_iff)
next
  case (pending sb0 m0)
  then have eq: "list_all (\<lambda>x. x = (sb0, m0)) ((sb, m) # ps)" and "seq_bit sb0 = sync_send (sender l)"
    using assms by (auto simp: link_inv_pending receive_start_iff)
  moreover have "two_phase (\<lambda>a. ack_bit a = (\<not> sync_send (sender l))) (\<lambda>a. ack_bit a = sync_send (sender l))
      (acks l @ [fst (receive_acknowledge (receiver l))])"
    using assms pending by (intro two_phase_snoc two_phase_first) (simp_all add: link_inv_pending)
  ultimately show ?thesis
    using assms pending
    by (subst link_inv_received [of _ sb0 m0]) (auto simp: link_inv_pending list_all_iff)
next
  case (received sb0 m0)
  then show ?thesis using assms by (simp add: link_inv_received receive_start_iff)
qed

lemma repeat_ack_inv:
  assumes "link_inv l" "data l = (sb, m) # ps" "\<not> receive_start (receiver l) sb"
  shows "link_inv (l\<lparr>data := ps, acks := acks l @ [with_ack_bit sync_bits_new (seq_bit sb)]\<rparr>)"
  using assms
  by (cases rule: link_cases [of l])
    (auto simp: link_inv_cases receive_start_iff intro: two_phase_snoc)

lemma ack_good_inv:
  assumes "link_inv l" "acks l = sb # as" "current l = Some p"
    "fst (send_mark_delivered (sender l) sb)"
  shows "link_inv (l\<lparr>acks := as, current := None, sender := snd (send_mark_delivered (sender l) sb)\<rparr>)"
proof (cases rule: link_cases [of l])
  case (received sb0 m0)
  then show ?thesis
    using assms
    by (subst link_inv_None)
      (auto simp: link_inv_received send_mark_delivered_iff send_mark_delivered_state)
qed (use assms in \<open>auto simp: link_inv_pending send_mark_delivered_iff\<close>)

lemma ack_other_inv:
  assumes "link_inv l" "acks l = sb # as"
    "current l = None \<or> \<not> fst (send_mark_delivered (sender l) sb)"
  shows "link_inv (l\<lparr>acks := as\<rparr>)"
  using assms
  by (cases rule: link_cases [of l])
    (auto simp: link_inv_cases simp del: two_phase.simps dest: two_phase_tl)

lemma link_faults_inv:
  assumes "link_inv l"
  shows "data l = xs @ x # ys \<Longrightarrow> link_inv (l\<lparr>data := xs @ ys\<rparr>)"
    and "acks l = as @ a # bs \<Longrightarrow> link_inv (l\<lparr>acks := as @ bs\<rparr>)"
    and "data l = xs @ x # ys \<Longrightarrow> link_inv (l\<lparr>data := xs @ x # x # ys\<rparr>)"
    and "acks l = as @ a # bs \<Longrightarrow> link_inv (l\<lparr>acks := as @ a # a # bs\<rparr>)"
  using assms
  by (cases rule: link_cases [of l];
      auto simp: link_inv_cases dest: two_phase_remove two_phase_duplicate)+

lemma link_step_inv: "link_step l l' \<Longrightarrow> link_inv l \<Longrightarrow> link_inv l'"
  by (induction rule: link_step.induct)
    (auto intro: submit_inv transmit_inv accept_inv repeat_ack_inv ack_good_inv ack_other_inv
      link_faults_inv)

interpretation abp: transition_system link_init link_step link_inv
  by unfold_locales (auto intro: link_inv_init link_step_inv)

section \<open>Properties\<close>

text \<open>Both links can be emptied by losing what they carry.\<close>

lemma drain_data: "link_step\<^sup>*\<^sup>* l (l\<lparr>data := []\<rparr>)"
proof (induction "data l" arbitrary: l)
  case Nil
  then have "l\<lparr>data := []\<rparr> = l" by simp
  then show ?case by simp
next
  case (Cons x xs)
  have "link_step l (l\<lparr>data := [] @ xs\<rparr>)"
    using Cons.hyps(2) by (intro lose_data [where x = x]) simp
  moreover have "link_step\<^sup>*\<^sup>* (l\<lparr>data := xs\<rparr>) (l\<lparr>data := xs\<rparr>\<lparr>data := []\<rparr>)"
    by (rule Cons.hyps(1)) simp
  ultimately show ?case
    by (simp add: converse_rtranclp_into_rtranclp)
qed

lemma drain_acks: "link_step\<^sup>*\<^sup>* l (l\<lparr>acks := []\<rparr>)"
proof (induction "acks l" arbitrary: l)
  case Nil
  then have "l\<lparr>acks := []\<rparr> = l" by simp
  then show ?case by simp
next
  case (Cons x xs)
  have "link_step l (l\<lparr>acks := [] @ xs\<rparr>)"
    using Cons.hyps(2) by (intro lose_ack [where a = x]) simp
  moreover have "link_step\<^sup>*\<^sup>* (l\<lparr>acks := xs\<rparr>) (l\<lparr>acks := xs\<rparr>\<lparr>acks := []\<rparr>)"
    by (rule Cons.hyps(1)) simp
  ultimately show ?case
    by (simp add: converse_rtranclp_into_rtranclp)
qed

lemma finish_from_drained:
  assumes inv: "link_inv l" and cur: "current l = Some (sb, m)" and empty: "data l = []" "acks l = []"
  shows "\<exists>l'. link_step\<^sup>*\<^sup>* l l' \<and> current l' = None \<and> submitted l' = submitted l"
proof -
  let ?l1 = "l\<lparr>data := data l @ [(sb, m)], sender := send_finish (sender l)\<rparr>"
  have s1: "link_step l ?l1"
    using cur by (rule transmit)
  have seq: "seq_bit sb = sync_send (sender l)"
    using inv cur by (cases rule: link_cases [of l]) (auto simp: link_inv_cases)
  obtain l2 a where s2: "link_step ?l1 l2" and l2: "acks l2 = [a]" "current l2 = Some (sb, m)"
      "submitted l2 = submitted l" "sender l2 = send_finish (sender l)"
      and a: "ack_bit a = sync_send (sender l)"
  proof (cases "receive_start (receiver l) sb")
    case True
    with that [OF accept [of ?l1 sb m "[]"], of "fst (receive_acknowledge (receiver l))"]
    show thesis using cur empty seq by (simp add: receive_start_iff)
  next
    case False
    with that [OF repeat_ack [of ?l1 sb m "[]"], of "with_ack_bit sync_bits_new (seq_bit sb)"]
    show thesis using cur empty seq by simp
  qed
  have "link_step l2 (l2\<lparr>acks := [], current := None, sender := snd (send_mark_delivered (sender l2) a)\<rparr>)"
    using l2 a by (intro ack_good [of l2 a "[]" "(sb, m)"]) (simp_all add: send_mark_delivered_iff)
  with s1 s2 have "link_step\<^sup>*\<^sup>* l
      (l2\<lparr>acks := [], current := None, sender := snd (send_mark_delivered (sender l2) a)\<rparr>)"
    by (meson converse_rtranclp_into_rtranclp rtranclp.rtrancl_refl)
  then show ?thesis using l2 by fastforce
qed

text \<open>
  C5. Exactly-once, in-order delivery: whatever the links lose or duplicate, the messages
  the receiver has accepted are the messages the sender submitted, in order and without
  repetition, except possibly for the last one while it is still under way.
\<close>

theorem abp_exactly_once:
  assumes "link_init l0" and "link_step\<^sup>*\<^sup>* l0 l"
  shows "submitted l = accepted l \<or> (\<exists>sb m. current l = Some (sb, m) \<and> submitted l = accepted l @ [m])"
proof -
  have "link_inv l" using assms by (rule abp.reachable_inv)
  then show ?thesis
    by (cases rule: link_cases [of l]) (auto simp: link_inv_cases)
qed

text \<open>A run of four steps that the witnesses share.\<close>

definition link_start :: "nat link" where
  "link_start = \<lparr>sender = channel_sync_new, receiver = channel_sync_new, current = None,
     data = [], acks = [], submitted = [], accepted = []\<rparr>"

definition link_sending :: "nat link" where
  "link_sending = link_start\<lparr>current := Some (sync_bits_new, 7), submitted := [7]\<rparr>"

lemma link_start_init: "link_init link_start"
  by (simp add: link_init_def link_start_def)

lemma link_start_sending: "link_step\<^sup>*\<^sup>* link_start link_sending"
proof -
  have "send_start channel_sync_new = Some sync_bits_new"
    by (simp add: send_start_def channel_sync_new_def with_seq_bit_def sync_bits_new_def)
  then have "link_step link_start (link_start\<lparr>current := Some (sync_bits_new, 7),
      submitted := submitted link_start @ [7]\<rparr>)"
    by (intro submit) (simp_all add: link_start_def)
  then show ?thesis by (simp add: link_sending_def link_start_def)
qed

theorem abp_exactly_once_witness:
  "link_step\<^sup>*\<^sup>* link_start link_sending \<and>
   (submitted link_sending = accepted link_sending \<or>
    (\<exists>sb m. current link_sending = Some (sb, m) \<and> submitted link_sending = accepted link_sending @ [m]))"
  using link_start_sending abp_exactly_once [OF link_start_init link_start_sending] by blast

text \<open>
  C30. The protocol never gets stuck: from every reachable state in which a message is
  under way there is a continuation that completes it, after which the receiver has
  accepted everything that was submitted.
\<close>

theorem abp_can_always_finish:
  assumes "link_init l0" and "link_step\<^sup>*\<^sup>* l0 l" and "current l = Some p"
  shows "\<exists>l'. link_step\<^sup>*\<^sup>* l l' \<and> current l' = None \<and> accepted l' = submitted l"
proof -
  obtain sb m where p: "p = (sb, m)" by (cases p)
  let ?d = "l\<lparr>data := [], acks := []\<rparr>"
  have d: "link_step\<^sup>*\<^sup>* l ?d"
    using drain_data [of l] drain_acks [of "l\<lparr>data := []\<rparr>"] by simp
  have inv: "link_inv l" using assms(1,2) by (rule abp.reachable_inv)
  obtain l' where l': "link_step\<^sup>*\<^sup>* ?d l'" "current l' = None" "submitted l' = submitted l"
    using finish_from_drained [of ?d sb m] abp.steps_inv [OF d inv] assms(3) p by auto
  moreover have "link_inv l'" using abp.steps_inv [OF l'(1) abp.steps_inv [OF d inv]] .
  ultimately show ?thesis
    using d by (auto simp: link_inv_None intro: rtranclp_trans)
qed

theorem abp_can_always_finish_witness:
  "\<exists>l'. link_step\<^sup>*\<^sup>* link_sending l' \<and> current l' = None \<and> accepted l' = [7]"
  using abp_can_always_finish [OF link_start_init link_start_sending, of "(sync_bits_new, 7)"]
  by (simp add: link_sending_def link_start_def)

section \<open>The protocol as a one-place buffer\<close>








end
