(* ===== verification/Thp_Crc32.thy ===== *)
theory Thp_Crc32
  imports Thp_Prelude
begin

text \<open>
  The checksum of the transport layer, \<open>rust/trezor-thp/src/crc32.rs\<close>: a CRC-32
  computed a nibble at a time from a table of sixteen words. The theory shows that the
  table-driven update is the bit-at-a-time division by the reflected polynomial
  \<open>0xEDB88320\<close>, and that a change confined to four consecutive bytes of a message always
  changes the checksum. The interface the fragmentation layer relies on is the locale
  \<open>running_checksum\<close>, extended by \<open>burst_checksum\<close>.
\<close>

section \<open>Definitions\<close>

record crc32 =
  crc_value :: u32

definition CRC32TAB :: "u32 list" where
  "CRC32TAB =
    [0x00000000, 0x1db71064, 0x3b6e20c8, 0x26d930ac, 0x76dc4190, 0x6b6b51f4, 0x4db26158, 0x5005713c,
     0xedb88320, 0xf00f9344, 0xd6d6a3e8, 0xcb61b38c, 0x9b64c2b0, 0x86d3d2d4, 0xa00ae278, 0xbdbdf21c]"

definition CHECKSUM_LEN :: nat where
  "CHECKSUM_LEN = 4"

definition crc32_new :: crc32 where
  "crc32_new = \<lparr>crc_value = 0xFFFFFFFF\<rparr>"

text \<open>One table step; \<open>crc32_update\<close> takes two of them for every byte.\<close>

definition crc32_nibble :: "u32 \<Rightarrow> u32" where
  "crc32_nibble v = CRC32TAB ! unat (v AND 0x0f) XOR drop_bit 4 v"

definition crc32_byte :: "u8 \<Rightarrow> u32 \<Rightarrow> u32" where
  "crc32_byte b v = crc32_nibble (crc32_nibble (v XOR ucast b))"

definition crc32_update :: "bytes \<Rightarrow> crc32 \<Rightarrow> crc32" where
  "crc32_update data c = c\<lparr>crc_value := fold crc32_byte data (crc_value c)\<rparr>"

definition crc32_finalize :: "crc32 \<Rightarrow> bytes" where
  "crc32_finalize c = u32_to_be (crc_value c XOR 0xFFFFFFFF)"

definition crc32_digest :: "bytes \<Rightarrow> bytes" where
  "crc32_digest data = crc32_finalize (crc32_update data crc32_new)"

text \<open>The textbook definition: one bit at a time.\<close>

definition crc32_bit :: "u32 \<Rightarrow> u32" where
  "crc32_bit v = (if bit v 0 then drop_bit 1 v XOR 0xEDB88320 else drop_bit 1 v)"

definition crc32_reference :: "bytes \<Rightarrow> bytes" where
  "crc32_reference data =
     u32_to_be (fold (\<lambda>b v. (crc32_bit ^^ 8) (v XOR ucast b)) data 0xFFFFFFFF XOR 0xFFFFFFFF)"


section \<open>The table step is four bit steps\<close>

lemma low_nibble_unat:
  "unat ((v::u32) AND 15) =
     of_bool (bit v 0) + 2 * of_bool (bit v 1) + 4 * of_bool (bit v 2) + 8 * of_bool (bit v 3)"
proof -
  have "v AND 15 =
    (of_bool (bit v 0) OR push_bit 1 (of_bool (bit v 1)) OR push_bit 2 (of_bool (bit v 2))
      OR push_bit 3 (of_bool (bit v 3)) :: u32)" (is "_ = ?r")
  proof (rule bit_word_eqI)
    fix n assume "n < LENGTH(32)"
    then have "n = 0 \<or> n = 1 \<or> n = 2 \<or> n = 3 \<or> 4 \<le> n" by linarith
    moreover have "bit (15::u32) n \<longleftrightarrow> n < 4"
      using bit_mask_iff [of 4 n, where ?'a = "32 word"] \<open>n < LENGTH(32)\<close>
      by (simp add: mask_eq_exp_minus_1)
    ultimately show "bit (v AND 15) n = bit ?r n"
      by (elim disjE) (auto simp: bit_simps)
  qed
  then show ?thesis
    by (cases "bit v 0"; cases "bit v 1"; cases "bit v 2"; cases "bit v 3") simp_all
qed

lemma crc32_bit_xor: "crc32_bit (a XOR b) = crc32_bit a XOR crc32_bit b"
  by (simp add: crc32_bit_def bit_xor_iff drop_bit_xor xor.left_commute xor.commute xor.assoc)


lemma crc32_bit_4: "(crc32_bit ^^ 4) v = crc32_bit (crc32_bit (crc32_bit (crc32_bit v)))"
  by (simp add: numeral_eq_Suc)

lemma crc32_nibble_bits: "crc32_nibble v = (crc32_bit ^^ 4) v"
  unfolding crc32_bit_4
  by (cases "bit v 0"; cases "bit v 1"; cases "bit v 2"; cases "bit v 3")
    (simp_all add: crc32_nibble_def crc32_bit_def low_nibble_unat CRC32TAB_def
      drop_bit_xor bit_xor_iff bit_drop_bit_eq numeral_2_eq_2 [symmetric] xor.assoc xor.commute xor.left_commute)

lemma crc32_nibble_xor: "crc32_nibble (a XOR b) = crc32_nibble a XOR crc32_nibble b"
  by (simp add: crc32_nibble_bits crc32_bit_4 crc32_bit_xor)

section \<open>The register update is linear and injective\<close>

lemma crc32_bit_eq_0: "crc32_bit v = 0 \<longleftrightarrow> v = 0"
proof
  assume eq: "crc32_bit v = 0"
  have top: "\<not> bit (drop_bit 1 v) 31"
    by (auto simp: bit_drop_bit_eq dest: bit_imp_le_length)
  have b0: "\<not> bit v 0"
  proof
    assume "bit v 0"
    then have "drop_bit 1 v = 0xEDB88320"
      using eq by (simp add: crc32_bit_def xor_eq_zero_iff)
    then show False using top by simp
  qed
  show "v = 0"
  proof (rule bit_word_eqI)
    fix n assume "n < LENGTH(32)"
    show "bit v n = bit 0 n"
    proof (cases n)
      case (Suc m)
      have "bit (drop_bit 1 v) m = bit 0 m" using eq b0 by (simp add: crc32_bit_def)
      then show ?thesis by (simp add: bit_drop_bit_eq Suc)
    qed (use b0 in simp)
  qed
qed (simp add: crc32_bit_def)

lemma crc32_nibble_eq_0: "crc32_nibble v = 0 \<longleftrightarrow> v = 0"
  by (simp add: crc32_nibble_bits crc32_bit_4 crc32_bit_eq_0)

lemma crc32_nibble_inject: "crc32_nibble a = crc32_nibble b \<longleftrightarrow> a = b"
  by (metis crc32_nibble_xor crc32_nibble_eq_0 xor_eq_zero_iff)

text \<open>Two steps: the effect of one byte, and its linearity.\<close>

definition crc32_shift :: "u32 \<Rightarrow> u32" where
  "crc32_shift v = crc32_nibble (crc32_nibble v)"

lemma crc32_shift_xor: "crc32_shift (a XOR b) = crc32_shift a XOR crc32_shift b"
  by (simp add: crc32_shift_def crc32_nibble_xor)

lemma crc32_shift_inject: "crc32_shift a = crc32_shift b \<longleftrightarrow> a = b"
  by (simp add: crc32_shift_def crc32_nibble_inject)

lemma crc32_nibble_high: "take_bit 4 v = 0 \<Longrightarrow> crc32_nibble v = drop_bit 4 v"
  by (simp add: crc32_nibble_def CRC32TAB_def take_bit_eq_mask mask_eq_exp_minus_1)

lemma crc32_shift_high: "take_bit 8 v = 0 \<Longrightarrow> crc32_shift v = drop_bit 8 v"
proof -
  assume v: "take_bit 8 v = 0"
  have lo: "take_bit 4 v = 0" 
    using arg_cong [OF v, of "take_bit 4"] by simp
  have hi: "take_bit 4 (drop_bit 4 v) = 0"
    using arg_cong [OF v, of "drop_bit 4"] by (simp add: drop_bit_take_bit)
  show ?thesis
    using lo hi by (simp add: crc32_shift_def crc32_nibble_high)
qed

text \<open>The first four bytes of a message act as one word added to the register.\<close>

fun word_of_le :: "bytes \<Rightarrow> u32" where
  "word_of_le [] = 0"
| "word_of_le (b # bs) = ucast b OR push_bit 8 (word_of_le bs)"

lemma word_of_le_xor: "word_of_le (b # bs) = ucast b XOR push_bit 8 (word_of_le bs)"
proof -
  have "(ucast b :: u32) AND push_bit 8 (word_of_le bs) = 0"
    by (rule bit_word_eqI) (auto simp: bit_simps dest: bit_imp_le_length)
  then show ?thesis
    by (simp add: disjunctive_xor_eq_or)
qed

lemma bit_word_of_le: "bit (word_of_le bs) n \<Longrightarrow> n < 8 * length bs"
proof (induction bs arbitrary: n)
  case (Cons b bs)
  then have "bit b n \<or> 8 \<le> n \<and> bit (word_of_le bs) (n - 8)"
    by (auto simp: bit_simps)
  then show ?case
    using Cons.IH [of "n - 8"] by (auto dest: bit_imp_le_length)
qed simp

lemma drop_push_word_of_le:
  "length bs \<le> 3 \<Longrightarrow> drop_bit 8 (push_bit 8 (word_of_le bs)) = word_of_le bs"
  by (rule bit_word_eqI) (auto simp: bit_simps dest: bit_word_of_le)

lemma word_of_le_Cons_parts:
  "length bs \<le> 3 \<Longrightarrow> drop_bit 8 (word_of_le (b # bs)) = word_of_le bs"
  "ucast (word_of_le (b # bs)) = b"
proof -
  assume "length bs \<le> 3"
  moreover have "drop_bit 8 (ucast b :: u32) = 0"
    by (rule bit_word_eqI) (auto simp: bit_simps dest: bit_imp_le_length)
  ultimately show "drop_bit 8 (word_of_le (b # bs)) = word_of_le bs"
    by (simp add: drop_bit_or drop_push_word_of_le)
next
  show "ucast (word_of_le (b # bs)) = b"
    by (rule bit_word_eqI) (auto simp: bit_simps)
qed

lemma word_of_le_inject:
  "length bs = length cs \<Longrightarrow> length cs \<le> 4 \<Longrightarrow> word_of_le bs = word_of_le cs \<Longrightarrow> bs = cs"
proof (induction bs cs rule: list_induct2)
  case (Cons b bs c cs)
  have "b = c"
    using arg_cong [OF Cons.prems(2), of "ucast :: u32 \<Rightarrow> u8"] by (simp only: word_of_le_Cons_parts)
  moreover have "word_of_le bs = word_of_le cs"
    using arg_cong [OF Cons.prems(2), of "drop_bit 8"] Cons.prems(1) Cons.hyps
    by (simp only: word_of_le_Cons_parts list.size)
  ultimately show ?case using Cons by simp
qed simp

lemma fold_crc32_byte_word:
  "length bs \<le> 4 \<Longrightarrow> fold crc32_byte bs v = (crc32_shift ^^ length bs) (v XOR word_of_le bs)"
proof (induction bs arbitrary: v)
  case (Cons b bs)
  let ?w = "word_of_le bs"
  have drp: "drop_bit 8 (push_bit 8 ?w) = ?w"
    using Cons.prems by (simp add: drop_push_word_of_le)
  have "crc32_shift (v XOR word_of_le (b # bs))
      = crc32_shift (v XOR ucast b) XOR crc32_shift (push_bit 8 ?w)"
    by (simp only: word_of_le_xor crc32_shift_xor [symmetric] xor.assoc)
  also have "crc32_shift (push_bit 8 ?w) = ?w"
    by (subst crc32_shift_high) (simp_all add: drp take_bit_push_bit)
  finally have "crc32_shift (v XOR word_of_le (b # bs)) = crc32_byte b v XOR ?w"
    by (simp add: crc32_byte_def crc32_shift_def)
  with Cons show ?case
    by (simp add: funpow_swap1)
qed simp

lemma crc32_shift_pow_inject: "(crc32_shift ^^ n) a = (crc32_shift ^^ n) b \<longleftrightarrow> a = b"
  by (induction n) (simp_all add: crc32_shift_inject)

lemma crc32_burst:
  assumes "length bs = length cs" and "length cs \<le> 4"
    and "fold crc32_byte bs v = fold crc32_byte cs v"
  shows "bs = cs"
  using assms by (intro word_of_le_inject) (simp_all add: fold_crc32_byte_word crc32_shift_pow_inject)

lemma crc32_byte_inject: "crc32_byte b v = crc32_byte b w \<longleftrightarrow> v = w"
  by (simp add: crc32_byte_def crc32_nibble_inject xor.commute [of _ "ucast b"])

lemma fold_crc32_byte_inject:
  "fold crc32_byte bs v = fold crc32_byte bs w \<longleftrightarrow> v = w"
  by (induction bs arbitrary: v w) (simp_all add: crc32_byte_inject)

section \<open>The interface of a running checksum\<close>

text \<open>
  What the fragmentation layer relies on: feeding a message piece by piece is feeding it
  at once, and the digest has a fixed width. The extension adds what makes the checksum
  worth its four bytes.
\<close>

locale running_checksum =
  fixes fresh :: 's
    and feed :: "bytes \<Rightarrow> 's \<Rightarrow> 's"
    and digest :: "'s \<Rightarrow> bytes"
    and width :: nat
  assumes feed_nil: "feed [] s = s"
    and feed_append: "feed (xs @ ys) s = feed ys (feed xs s)"
    and digest_length: "length (digest s) = width"
begin

lemma feed_chunks: "fold feed chunks s = feed (concat chunks) s"
  by (induction chunks arbitrary: s) (simp_all add: feed_nil feed_append)

lemma feed_window: "feed (take j (drop i xs)) (feed (take i xs) s) = feed (take (i + j) xs) s"
  by (simp add: take_add feed_append)

lemma digest_chunks: "digest (fold feed chunks fresh) = digest (feed (concat chunks) fresh)"
  by (simp add: feed_chunks)

end

locale burst_checksum = running_checksum +
  fixes burst :: nat
  assumes feed_inject: "feed xs s = feed xs t \<Longrightarrow> s = t"
    and feed_burst: "length bs = length cs \<Longrightarrow> length cs \<le> burst \<Longrightarrow> feed bs s = feed cs s \<Longrightarrow> bs = cs"
    and digest_inject: "digest s = digest t \<Longrightarrow> s = t"
begin

lemma burst_changes_digest:
  assumes "length bs = length cs" and "length cs \<le> burst"
    and "digest (feed (xs @ bs @ ys) s) = digest (feed (xs @ cs @ ys) s)"
  shows "bs = cs"
proof -
  from assms(3) have "feed ys (feed bs (feed xs s)) = feed ys (feed cs (feed xs s))"
    by (auto simp: feed_append dest: digest_inject)
  then have "feed bs (feed xs s) = feed cs (feed xs s)"
    by (rule feed_inject)
  with assms(1,2) show ?thesis by (rule feed_burst)
qed

end

interpretation crc: burst_checksum crc32_new crc32_update crc32_finalize CHECKSUM_LEN 4
proof unfold_locales
  fix xs ys :: bytes and s t :: crc32
  show "crc32_update [] s = s"
    by (simp add: crc32_update_def)
  show "crc32_update (xs @ ys) s = crc32_update ys (crc32_update xs s)"
    by (simp add: crc32_update_def)
  show "length (crc32_finalize s) = CHECKSUM_LEN"
    by (simp add: crc32_finalize_def CHECKSUM_LEN_def)
  show "crc32_update xs s = crc32_update xs t \<Longrightarrow> s = t"
    by (cases s; cases t) (auto simp: crc32_update_def fold_crc32_byte_inject)
  show "crc32_finalize s = crc32_finalize t \<Longrightarrow> s = t"
    by (cases s; cases t) (auto simp: crc32_finalize_def xor.commute [of _ "0xFFFFFFFF"])
next
  fix bs cs :: bytes and s :: crc32
  assume "length bs = length cs" "length cs \<le> 4" "crc32_update bs s = crc32_update cs s"
  then show "bs = cs"
    by (cases s) (auto simp: crc32_update_def intro: crc32_burst)
qed

lemmas crc32_laws [simp] = crc.feed_nil crc.digest_length

section \<open>Properties\<close>

text \<open>
  C15. The nibble-table CRC of \<open>crc32.rs\<close> computes, for every message, the CRC-32 that the
  bit-by-bit division by the reflected polynomial \<open>0xEDB88320\<close> defines.
\<close>

theorem crc32_table_is_polynomial_division: "crc32_digest data = crc32_reference data"
proof -
  have pow8: "(crc32_bit ^^ 8) v = crc32_shift v" for v
  proof -
    have "(crc32_bit ^^ (4 + 4)) v = crc32_shift v"
      by (simp only: funpow_add comp_apply crc32_nibble_bits [symmetric] crc32_shift_def)
    then show ?thesis by simp
  qed
  have "crc32_byte = (\<lambda>b v. (crc32_bit ^^ 8) (v XOR ucast b))"
    by (intro ext) (simp only: pow8 crc32_byte_def crc32_shift_def)
  then show ?thesis
    by (simp add: crc32_digest_def crc32_reference_def crc32_finalize_def crc32_update_def
        crc32_new_def)
qed

text \<open>
  C25. Two messages that differ only inside a window of at most four consecutive bytes have
  different checksums: every error burst of up to 32 aligned bits is detected.
\<close>

theorem crc32_detects_bursts:
  assumes "length bs = length cs" and "length cs \<le> 4" and "bs \<noteq> cs"
  shows "crc32_digest (xs @ bs @ ys) \<noteq> crc32_digest (xs @ cs @ ys)"
  using assms crc.burst_changes_digest [of bs cs xs ys crc32_new]
  by (auto simp: crc32_digest_def)

theorem crc32_detects_bursts_witness:
  "crc32_digest ([1] @ [2, 3] @ [4]) \<noteq> crc32_digest ([1] @ [2, 7] @ [4])"
  by (rule crc32_detects_bursts) simp_all

end
