(* ===== verification/Thp_Header.thy ===== *)
theory Thp_Header
  imports Thp_Control_Byte
begin

text \<open>
  Packet headers, \<open>rust/trezor-thp/src/header.rs\<close>. The Rust type \<open>Header<R>\<close> is indexed by
  the role of the endpoint that handles it; here the role is an argument of the operations
  that consult it. The lemmas show that parsing never panics, that every parsed header is
  well formed and legal for the role that parsed it, and that what one role serializes the
  other one parses back.
\<close>

section \<open>Definitions\<close>

datatype role = Host | Device

fun is_host :: "role \<Rightarrow> bool" where
  "is_host Host = True"
| "is_host Device = False"

definition CHECKSUM_LEN_u16 :: u16 where "CHECKSUM_LEN_u16 = 4"
definition NONCE_LEN :: u16 where "NONCE_LEN = 8"
definition MAX_PAYLOAD_LEN :: u16 where "MAX_PAYLOAD_LEN = 60000"
definition MIN_CHANNEL_ID :: u16 where "MIN_CHANNEL_ID = 0x0001"
definition MAX_CHANNEL_ID :: u16 where "MAX_CHANNEL_ID = 0xFFEF"
definition BROADCAST_CHANNEL_ID :: u16 where "BROADCAST_CHANNEL_ID = 0xFFFF"
definition INIT_LEN :: nat where "INIT_LEN = 5"
definition CONT_LEN :: nat where "CONT_LEN = 3"

lemmas header_consts =
  CHECKSUM_LEN_u16_def NONCE_LEN_def MAX_PAYLOAD_LEN_def MIN_CHANNEL_ID_def MAX_CHANNEL_ID_def
  BROADCAST_CHANNEL_ID_def INIT_LEN_def CONT_LEN_def

datatype header =
    Continuation u16
  | Ack u16
  | CodecV1Request bool
  | CodecV1Response
  | ChannelAllocationRequest
  | ChannelAllocationResponse u16
  | TransportError u16
  | Ping
  | Pong
  | Handshake handshake_message u16 u16
  | Encrypted u16 u16

definition channel_id_valid :: "u16 \<Rightarrow> bool" where
  "channel_id_valid channel_id \<longleftrightarrow>
     (MIN_CHANNEL_ID \<le> channel_id \<and> channel_id \<le> MAX_CHANNEL_ID)
     \<or> channel_id = BROADCAST_CHANNEL_ID"

definition parse_u16 :: "bytes \<Rightarrow> (u16 \<times> bytes) thp_result" where
  "parse_u16 buffer =
     (case split_first_chunk 2 buffer of
        None \<Rightarrow> Err MalformedData
      | Some (bs, rest) \<Rightarrow> Ok (u16_from_be bs, rest))"

definition parse_cb_channel :: "bytes \<Rightarrow> (control_byte \<times> u16 \<times> bytes) thp_result" where
  "parse_cb_channel packet_buffer =
     and_then (control_byte_parse packet_buffer) (\<lambda>(cb, rest).
     and_then (parse_u16 rest) (\<lambda>(channel_id, rest).
     Ok (cb, channel_id, rest)))"

definition parse_length :: "bytes \<Rightarrow> (u16 \<times> bytes) thp_result" where
  "parse_length packet_buffer =
     and_then (parse_u16 packet_buffer) (\<lambda>(payload_len, rest).
     if payload_len > MAX_PAYLOAD_LEN then Err MalformedData
     else if payload_len < CHECKSUM_LEN_u16 then Err MalformedData
     else Ok (payload_len, rest))"

definition parse_channel_length :: "control_byte \<Rightarrow> bytes \<Rightarrow> (u16 \<times> u16 option) thp_result" where
  "parse_channel_length cb packet_buffer =
     (case packet_buffer of
        [] \<Rightarrow> Err MalformedData
      | _ # rest \<Rightarrow>
          and_then (parse_u16 rest) (\<lambda>(channel_id, rest).
          if \<not> channel_id_valid channel_id then Err MalformedData
          else if channel_id \<noteq> BROADCAST_CHANNEL_ID \<and> (cb_is_encrypted_transport cb \<or> cb_is_handshake cb)
          then and_then (parse_length rest) (\<lambda>(payload_len, _). Ok (channel_id, Some payload_len))
          else Ok (channel_id, None)))"

fun valid_outgoing :: "role \<Rightarrow> handshake_message \<Rightarrow> bool" where
  "valid_outgoing r InitiationRequest = is_host r"
| "valid_outgoing r InitiationResponse = (\<not> is_host r)"
| "valid_outgoing r CompletionRequest = is_host r"
| "valid_outgoing r CompletionResponse = (\<not> is_host r)"

definition valid_incoming :: "role \<Rightarrow> handshake_message \<Rightarrow> bool" where
  "valid_incoming r m = (\<not> valid_outgoing r m)"

fun header_channel_id :: "header \<Rightarrow> u16" where
  "header_channel_id (Continuation c) = c"
| "header_channel_id (Ack c) = c"
| "header_channel_id (TransportError c) = c"
| "header_channel_id (Handshake _ c _) = c"
| "header_channel_id (Encrypted c _) = c"
| "header_channel_id _ = BROADCAST_CHANNEL_ID"

fun header_payload_len :: "header \<Rightarrow> u16" where
  "header_payload_len (Continuation _) = 0"
| "header_payload_len (Ack _) = CHECKSUM_LEN_u16"
| "header_payload_len (CodecV1Request _) = 0"
| "header_payload_len CodecV1Response = 0"
| "header_payload_len ChannelAllocationRequest = NONCE_LEN + CHECKSUM_LEN_u16"
| "header_payload_len (ChannelAllocationResponse l) = l"
| "header_payload_len (TransportError _) = 1 + CHECKSUM_LEN_u16"
| "header_payload_len Ping = NONCE_LEN + CHECKSUM_LEN_u16"
| "header_payload_len Pong = NONCE_LEN + CHECKSUM_LEN_u16"
| "header_payload_len (Handshake _ _ l) = l"
| "header_payload_len (Encrypted _ l) = l"

fun header_len :: "header \<Rightarrow> nat" where
  "header_len (Continuation _) = CONT_LEN"
| "header_len _ = INIT_LEN"

fun header_is_continuation :: "header \<Rightarrow> bool" where
  "header_is_continuation (Continuation _) = True"
| "header_is_continuation _ = False"

fun header_is_handshake :: "header \<Rightarrow> bool" where
  "header_is_handshake (Handshake _ _ _) = True"
| "header_is_handshake _ = False"

fun header_is_encrypted :: "header \<Rightarrow> bool" where
  "header_is_encrypted (Encrypted _ _) = True"
| "header_is_encrypted _ = False"

fun header_is_ack :: "header \<Rightarrow> bool" where
  "header_is_ack (Ack _) = True"
| "header_is_ack _ = False"

fun header_is_error :: "header \<Rightarrow> bool" where
  "header_is_error (TransportError _) = True"
| "header_is_error _ = False"

fun header_is_ping :: "header \<Rightarrow> bool" where
  "header_is_ping Ping = True"
| "header_is_ping _ = False"

fun header_is_pong :: "header \<Rightarrow> bool" where
  "header_is_pong Pong = True"
| "header_is_pong _ = False"

fun header_is_channel_allocation_request :: "header \<Rightarrow> bool" where
  "header_is_channel_allocation_request ChannelAllocationRequest = True"
| "header_is_channel_allocation_request _ = False"

fun header_is_channel_allocation_response :: "header \<Rightarrow> bool" where
  "header_is_channel_allocation_response (ChannelAllocationResponse _) = True"
| "header_is_channel_allocation_response _ = False"

fun header_handshake_phase :: "header \<Rightarrow> handshake_message option" where
  "header_handshake_phase (Handshake p _ _) = Some p"
| "header_handshake_phase _ = None"

subsection \<open>Parsing\<close>

definition parse_single :: "role \<Rightarrow> control_byte \<Rightarrow> u16 \<Rightarrow> u16 \<Rightarrow> header option thp_result" where
  "parse_single r cb channel_id payload_len =
     (let res =
        (if cb_is_ack cb \<and> channel_id \<noteq> BROADCAST_CHANNEL_ID then Some (Ack channel_id)
         else if cb_is_error cb then Some (TransportError channel_id)
         else if channel_id = BROADCAST_CHANNEL_ID then
           (if cb_is_channel_allocation_request cb \<and> \<not> is_host r then Some ChannelAllocationRequest
            else if cb_is_ping cb \<and> \<not> is_host r then Some Ping
            else if cb_is_pong cb \<and> is_host r then Some Pong
            else None)
         else None)
      in case res of
           None \<Rightarrow> Ok None
         | Some h \<Rightarrow>
             if header_payload_len h = payload_len then Ok (Some h) else Err MalformedData)"

definition parse_broadcast :: "role \<Rightarrow> control_byte \<Rightarrow> u16 \<Rightarrow> header option" where
  "parse_broadcast r cb payload_len =
     (if is_host r \<and> cb_is_channel_allocation_response cb
      then Some (ChannelAllocationResponse payload_len) else None)"

definition parse_unicast :: "role \<Rightarrow> control_byte \<Rightarrow> u16 \<Rightarrow> u16 \<Rightarrow> header option" where
  "parse_unicast r cb channel_id payload_len =
     (case cb_handshake_phase cb of
        Some phase \<Rightarrow>
          if \<not> valid_incoming r phase then None else Some (Handshake phase channel_id payload_len)
      | None \<Rightarrow>
          if cb_is_encrypted_transport cb then Some (Encrypted channel_id payload_len) else None)"

definition header_parse :: "role \<Rightarrow> bytes \<Rightarrow> (header \<times> bytes) thp_result" where
  "header_parse r buffer =
     and_then (parse_cb_channel buffer) (\<lambda>(cb, channel_id, rest).
     if cb_is_codec_v1 cb then
       (if is_host r then Ok (CodecV1Response, [])
        else Ok (CodecV1Request (channel_id \<noteq> 0x2323), []))
     else if \<not> channel_id_valid channel_id then Err MalformedData
     else if cb_is_continuation cb then Ok (Continuation channel_id, rest)
     else
       and_then (parse_length rest) (\<lambda>(payload_len, rest).
       let without_padding = min (length rest) (unat payload_len) in
       and_then (slice_to without_padding rest) (\<lambda>rest.
       and_then (parse_single r cb channel_id payload_len) (\<lambda>single.
       case (case single of
               Some h \<Rightarrow> Some h
             | None \<Rightarrow>
                 if channel_id = BROADCAST_CHANNEL_ID then parse_broadcast r cb payload_len
                 else parse_unicast r cb channel_id payload_len) of
         Some h \<Rightarrow> Ok (h, rest)
       | None \<Rightarrow> Err MalformedData))))"

subsection \<open>Serialization\<close>

definition header_control_byte :: "role \<Rightarrow> header \<Rightarrow> sync_bits \<Rightarrow> control_byte option" where
  "header_control_byte r h sb =
     (case (case h of
              Continuation _ \<Rightarrow> Some cb_continuation
            | Ack _ \<Rightarrow> Some cb_ack
            | ChannelAllocationRequest \<Rightarrow> if is_host r then Some cb_channel_allocation_request else None
            | ChannelAllocationResponse _ \<Rightarrow> if \<not> is_host r then Some cb_channel_allocation_response else None
            | TransportError _ \<Rightarrow> Some cb_error
            | Ping \<Rightarrow> if is_host r then Some cb_ping else None
            | Pong \<Rightarrow> if \<not> is_host r then Some cb_pong else None
            | Handshake phase _ _ \<Rightarrow> if valid_outgoing r phase then Some (cb_handshake phase) else None
            | Encrypted _ _ \<Rightarrow> Some cb_encrypted_transport
            | _ \<Rightarrow> None) of
        None \<Rightarrow> None
      | Some cb \<Rightarrow>
          if header_is_ack h \<and> seq_bit sb then None
          else if header_is_ack h \<or> header_is_encrypted h \<or> header_is_handshake h
          then Some (with_sync_bits cb sb)
          else Some cb)"

text \<open>The destination buffer is returned with the header written over its beginning.\<close>

definition header_to_bytes :: "role \<Rightarrow> header \<Rightarrow> sync_bits \<Rightarrow> bytes \<Rightarrow> nat option \<times> bytes" where
  "header_to_bytes r h sb dest =
     (case h of
        Continuation channel_id \<Rightarrow>
          if length dest < CONT_LEN then (None, dest)
          else (Some CONT_LEN,
            [control_byte_to_u8 cb_continuation] @ u16_to_be channel_id @ drop CONT_LEN dest)
      | _ \<Rightarrow>
          if length dest < INIT_LEN then (None, dest)
          else case header_control_byte r h sb of
            None \<Rightarrow> (None, dest)
          | Some cb \<Rightarrow>
              (Some INIT_LEN,
               [control_byte_to_u8 cb] @ u16_to_be (header_channel_id h)
                 @ u16_to_be (header_payload_len h) @ drop INIT_LEN dest))"

subsection \<open>Construction\<close>

definition u16_saturating_add :: "u16 \<Rightarrow> u16 \<Rightarrow> u16" where
  "u16_saturating_add a b = (if unat a + unat b < 2 ^ 16 then a + b else 0xFFFF)"

definition validate_len :: "bytes \<Rightarrow> u16 thp_result" where
  "validate_len payload =
     (if length payload < 2 ^ 16 \<and>
         u16_saturating_add (of_nat (length payload)) CHECKSUM_LEN_u16 \<le> MAX_PAYLOAD_LEN
      then Ok (u16_saturating_add (of_nat (length payload)) CHECKSUM_LEN_u16)
      else Err UnexpectedInput)"

definition validate_channel :: "u16 \<Rightarrow> u16 thp_result" where
  "validate_channel channel_id =
     (if \<not> channel_id_valid channel_id then Err UnexpectedInput else Ok channel_id)"

definition validate_channel_unicast :: "u16 \<Rightarrow> u16 thp_result" where
  "validate_channel_unicast channel_id =
     and_then (validate_channel channel_id) (\<lambda>channel_id.
     if channel_id = BROADCAST_CHANNEL_ID then Err UnexpectedInput else Ok channel_id)"

definition new_continuation :: "u16 \<Rightarrow> header thp_result" where
  "new_continuation channel_id = map_ok Continuation (validate_channel channel_id)"

definition new_channel_request :: header where
  "new_channel_request = ChannelAllocationRequest"

definition new_channel_response :: "bytes \<Rightarrow> header thp_result" where
  "new_channel_response payload = map_ok ChannelAllocationResponse (validate_len payload)"

definition new_handshake :: "u16 \<Rightarrow> handshake_message \<Rightarrow> bytes \<Rightarrow> header thp_result" where
  "new_handshake channel_id phase payload =
     and_then (validate_channel_unicast channel_id) (\<lambda>channel_id.
     and_then (validate_len payload) (\<lambda>payload_len.
     Ok (Handshake phase channel_id payload_len)))"

definition new_encrypted :: "u16 \<Rightarrow> bytes \<Rightarrow> header thp_result" where
  "new_encrypted channel_id payload =
     and_then (validate_channel_unicast channel_id) (\<lambda>channel_id.
     and_then (validate_len payload) (\<lambda>payload_len.
     Ok (Encrypted channel_id payload_len)))"

definition new_error :: "u16 \<Rightarrow> header thp_result" where
  "new_error channel_id = map_ok TransportError (validate_channel channel_id)"

definition new_ack :: "u16 \<Rightarrow> header thp_result" where
  "new_ack channel_id = map_ok Ack (validate_channel_unicast channel_id)"

definition new_ping :: header where "new_ping = Ping"

definition new_pong :: header where "new_pong = Pong"

definition new_codec1_request :: "bool \<Rightarrow> header" where
  "new_codec1_request is_continuation = CodecV1Request is_continuation"

definition new_codec1_response :: header where
  "new_codec1_response = CodecV1Response"

section \<open>Well-formed headers\<close>

definition unicast_valid :: "u16 \<Rightarrow> bool" where
  "unicast_valid c \<longleftrightarrow> channel_id_valid c \<and> c \<noteq> BROADCAST_CHANNEL_ID"

definition length_valid :: "u16 \<Rightarrow> bool" where
  "length_valid l \<longleftrightarrow> CHECKSUM_LEN_u16 \<le> l \<and> l \<le> MAX_PAYLOAD_LEN"

fun header_wf :: "header \<Rightarrow> bool" where
  "header_wf (Continuation c) = channel_id_valid c"
| "header_wf (Ack c) = unicast_valid c"
| "header_wf (TransportError c) = channel_id_valid c"
| "header_wf (ChannelAllocationResponse l) = length_valid l"
| "header_wf (Handshake p c l) = (unicast_valid c \<and> length_valid l)"
| "header_wf (Encrypted c l) = (unicast_valid c \<and> length_valid l)"
| "header_wf _ = True"

text \<open>The headers that an endpoint of role \<open>r\<close> may receive.\<close>

fun header_incoming :: "role \<Rightarrow> header \<Rightarrow> bool" where
  "header_incoming r (CodecV1Request _) = (\<not> is_host r)"
| "header_incoming r CodecV1Response = is_host r"
| "header_incoming r ChannelAllocationRequest = (\<not> is_host r)"
| "header_incoming r (ChannelAllocationResponse _) = is_host r"
| "header_incoming r Ping = (\<not> is_host r)"
| "header_incoming r Pong = is_host r"
| "header_incoming r (Handshake p _ _) = valid_incoming r p"
| "header_incoming r _ = True"

fun peer :: "role \<Rightarrow> role" where
  "peer Host = Device"
| "peer Device = Host"

text \<open>A header that travels with a payload and a checksum.\<close>

fun header_is_init :: "header \<Rightarrow> bool" where
  "header_is_init (Continuation _) = False"
| "header_is_init (CodecV1Request _) = False"
| "header_is_init CodecV1Response = False"
| "header_is_init _ = True"

lemma broadcast_valid [simp]: "channel_id_valid BROADCAST_CHANNEL_ID"
  by (simp add: channel_id_valid_def)

lemma zero_not_valid [simp]: "\<not> channel_id_valid 0"
  by (simp add: channel_id_valid_def header_consts)

lemma peer_simps [simp]:
  "is_host (peer r) = (\<not> is_host r)" "peer (peer r) = r"
  "valid_incoming (peer r) p = valid_outgoing r p"
  by (cases r; cases p; simp add: valid_incoming_def)+

lemma init_payload_len_valid:
  "header_wf h \<Longrightarrow> header_is_init h \<Longrightarrow> length_valid (header_payload_len h)"
  by (cases h) (simp_all add: length_valid_def header_consts)

lemma init_payload_len_bounds:
  assumes "header_wf h" "header_is_init h"
  shows "4 \<le> unat (header_payload_len h)" "unat (header_payload_len h) \<le> 60000"
  using init_payload_len_valid [OF assms]
  by (simp_all add: length_valid_def header_consts word_le_nat_alt)

lemma header_channel_valid: "header_wf h \<Longrightarrow> channel_id_valid (header_channel_id h)"
  by (cases h) (simp_all add: unicast_valid_def)

subsection \<open>Constructors\<close>

lemma header_consts_unat [simp]:
  "unat CHECKSUM_LEN_u16 = 4" "unat NONCE_LEN = 8" "unat MAX_PAYLOAD_LEN = 60000"
  by (simp_all add: header_consts)

lemma unat_saturating_add:
  "unat (u16_saturating_add a b) = min (unat a + unat b) 65535"
proof (cases "unat a + unat b < 2 ^ 16")
  case True
  then have "unat (a + b) = unat a + unat b" by (subst unat_add_lem [symmetric]) simp
  then show ?thesis using True by (simp add: u16_saturating_add_def)
qed (simp add: u16_saturating_add_def)

lemma validate_len_Ok:
  "validate_len payload = Ok l \<longleftrightarrow>
     length payload + 4 \<le> 60000 \<and> l = of_nat (length payload + 4)"
proof (cases "length payload < 2 ^ 16")
  case True
  let ?n = "of_nat (length payload) :: u16"
  have u: "unat ?n = length payload" using True by (simp add: unat_of_nat)
  have le: "u16_saturating_add ?n CHECKSUM_LEN_u16 \<le> MAX_PAYLOAD_LEN \<longleftrightarrow> length payload + 4 \<le> 60000"
    by (auto simp: word_le_nat_alt unat_saturating_add u min_def)
  have "u16_saturating_add ?n CHECKSUM_LEN_u16 = of_nat (length payload + 4)"
    if "length payload + 4 \<le> 60000"
    using that by (simp add: u16_saturating_add_def u) (simp add: header_consts)
  with True show ?thesis by (auto simp: validate_len_def le)
qed (auto simp: validate_len_def)

lemma validate_len_wf:
  assumes "validate_len payload = Ok l"
  shows "unat l = length payload + 4" "length_valid l"
proof -
  have *: "length payload + 4 \<le> 60000" "l = of_nat (length payload + 4)"
    using assms by (simp_all only: validate_len_Ok)
  show u: "unat l = length payload + 4"
    unfolding *(2) using *(1) by (subst unat_of_nat) simp
  show "length_valid l"
    using u *(1) by (simp add: length_valid_def header_consts word_le_nat_alt)
qed

lemma validate_no_panic [simp]:
  "validate_len p \<noteq> Panic" "validate_channel c \<noteq> Panic" "validate_channel_unicast c \<noteq> Panic"
  by (auto simp: validate_len_def validate_channel_def validate_channel_unicast_def and_then_eq_Panic)

lemma validate_channel_Ok [simp]:
  "validate_channel c = Ok d \<longleftrightarrow> channel_id_valid c \<and> d = c"
  "validate_channel_unicast c = Ok d \<longleftrightarrow> unicast_valid c \<and> d = c"
  by (auto simp: validate_channel_def validate_channel_unicast_def unicast_valid_def)

lemma new_header_Ok:
  "new_continuation c = Ok h \<longleftrightarrow> channel_id_valid c \<and> h = Continuation c"
  "new_error c = Ok h \<longleftrightarrow> channel_id_valid c \<and> h = TransportError c"
  "new_ack c = Ok h \<longleftrightarrow> unicast_valid c \<and> h = Ack c"
  "new_encrypted c payload = Ok h \<longleftrightarrow>
     unicast_valid c \<and> (\<exists>l. validate_len payload = Ok l \<and> h = Encrypted c l)"
  "new_handshake c p payload = Ok h \<longleftrightarrow>
     unicast_valid c \<and> (\<exists>l. validate_len payload = Ok l \<and> h = Handshake p c l)"
  "new_channel_response payload = Ok h \<longleftrightarrow>
     (\<exists>l. validate_len payload = Ok l \<and> h = ChannelAllocationResponse l)"
  by (auto simp: new_continuation_def new_error_def new_ack_def new_encrypted_def
      new_handshake_def new_channel_response_def map_ok_def)

lemma new_header_no_panic [simp]:
  "new_continuation c \<noteq> Panic" "new_error c \<noteq> Panic" "new_ack c \<noteq> Panic"
  "new_encrypted c payload \<noteq> Panic" "new_handshake c p payload \<noteq> Panic"
  "new_channel_response payload \<noteq> Panic"
  by (auto simp: new_continuation_def new_error_def new_ack_def new_encrypted_def
      new_handshake_def new_channel_response_def map_ok_def and_then_eq_Panic)

section \<open>Parsing\<close>

lemma parse_u16_no_panic [simp]: "parse_u16 bs \<noteq> Panic"
  by (auto simp: parse_u16_def split: option.splits)

lemma parse_u16_Ok: "parse_u16 bs = Ok (w, rest) \<longleftrightarrow> bs = u16_to_be w @ rest"
proof
  assume "parse_u16 bs = Ok (w, rest)"
  then have "2 \<le> length bs" "w = u16_from_be (take 2 bs)" "rest = drop 2 bs"
    by (auto simp: parse_u16_def split: option.splits)
  then show "bs = u16_to_be w @ rest"
    by (simp add: u16_to_from_be)
qed (simp add: parse_u16_def)

lemma parse_length_Ok:
  "parse_length bs = Ok (l, rest) \<longleftrightarrow> bs = u16_to_be l @ rest \<and> length_valid l"
  by (auto simp: parse_length_def parse_u16_Ok length_valid_def not_less)

lemma parse_cb_channel_Ok:
  "parse_cb_channel bs = Ok (cb, c, rest) \<longleftrightarrow>
     bs = cb_byte cb # u16_to_be c @ rest \<and> control_byte_try_from (cb_byte cb) = Ok cb"
  by (auto simp: parse_cb_channel_def control_byte_parse_Ok parse_u16_Ok)

lemma parse_parts_no_panic [simp]:
  "parse_length bs \<noteq> Panic" "parse_cb_channel bs \<noteq> Panic" "parse_single r cb c l \<noteq> Panic"
  by (auto simp: parse_length_def parse_cb_channel_def parse_single_def and_then_eq_Panic Let_def
      split: option.splits)

lemma parse_channel_length_no_panic [simp]: "parse_channel_length cb bs \<noteq> Panic"
  by (auto simp: parse_channel_length_def and_then_eq_Panic split: list.splits)

lemma parse_channel_length_Ok:
  "parse_channel_length cb bs = Ok (c, l) \<Longrightarrow> channel_id_valid c"
  by (auto simp: parse_channel_length_def split: list.splits if_splits)

lemma header_parse_no_panic [simp]: "header_parse r bs \<noteq> Panic"
  by (auto simp: header_parse_def and_then_eq_Panic Let_def split: option.splits)

lemma parse_single_Ok:
  "parse_single r cb c l = Ok (Some h) \<Longrightarrow>
     channel_id_valid c \<Longrightarrow> header_incoming r h \<and> header_wf h \<and> header_is_init h
       \<and> header_payload_len h = l \<and> header_channel_id h = c"
  by (auto simp: parse_single_def Let_def unicast_valid_def split: option.splits if_splits)

text \<open>Everything the parser tells about the packet it accepts.\<close>

lemma header_parse_Ok:
  assumes "header_parse r bs = Ok (h, rest)"
  shows "header_incoming r h" "header_wf h"
    "header_is_init h \<Longrightarrow>
       \<exists>cb pad. bs = cb # u16_to_be (header_channel_id h) @ u16_to_be (header_payload_len h) @ rest @ pad
         \<and> length rest \<le> unat (header_payload_len h)
         \<and> (pad \<noteq> [] \<longrightarrow> length rest = unat (header_payload_len h))"
    "header_is_continuation h \<Longrightarrow>
       \<exists>cb. bs = cb # u16_to_be (header_channel_id h) @ rest"
    "\<not> header_is_init h \<Longrightarrow> \<not> header_is_continuation h \<Longrightarrow> rest = []"
proof -
  obtain cb c tail where p: "bs = cb_byte cb # u16_to_be c @ tail"
    "parse_cb_channel bs = Ok (cb, c, tail)"
    using assms by (auto simp: header_parse_def parse_cb_channel_Ok)
  consider (codec) "h = (if is_host r then CodecV1Response else CodecV1Request (c \<noteq> 0x2323))" "rest = []"
    | (cont) "channel_id_valid c" "h = Continuation c" "rest = tail"
    | (init) l tail' where "channel_id_valid c" "tail = u16_to_be l @ tail'" "length_valid l"
        "rest = take (min (length tail') (unat l)) tail'"
        "header_incoming r h" "header_wf h" "header_is_init h" "header_payload_len h = l"
        "header_channel_id h = c"
    using assms p(2)
    by (auto simp: header_parse_def Let_def parse_length_Ok parse_broadcast_def parse_unicast_def
        unicast_valid_def split: if_splits option.splits dest!: parse_single_Ok)
  note cs = this
  show "header_incoming r h" "header_wf h" using cs by (cases; simp)+
  show "\<exists>cb pad. bs = cb # u16_to_be (header_channel_id h) @ u16_to_be (header_payload_len h) @ rest @ pad
         \<and> length rest \<le> unat (header_payload_len h)
         \<and> (pad \<noteq> [] \<longrightarrow> length rest = unat (header_payload_len h))" if "header_is_init h"
    using cs
  proof cases
    case (init l tail')
    then have "bs = cb_byte cb # u16_to_be c @ u16_to_be l @ rest @ drop (unat l) tail'"
      using p(1) by (simp add: min_def)
    then show ?thesis
      using init by (intro exI [of _ "cb_byte cb"] exI [of _ "drop (unat l) tail'"]) auto
  qed (use that in \<open>auto split: if_splits\<close>)
  show "\<exists>cb. bs = cb # u16_to_be (header_channel_id h) @ rest" if "header_is_continuation h"
    using cs p(1) that by cases (auto split: if_splits elim: header_is_init.elims)
  show "rest = []" if "\<not> header_is_init h" "\<not> header_is_continuation h"
    using cs that by cases auto
qed

section \<open>Serialization\<close>

lemma header_to_bytes_length: "header_to_bytes r h sb dest = (n, dest') \<Longrightarrow> length dest' = length dest"
  by (auto simp: header_to_bytes_def header_consts split: header.splits if_splits option.splits)

text \<open>The bytes of a header that can be sent, without a buffer around them.\<close>

definition header_bytes :: "role \<Rightarrow> header \<Rightarrow> sync_bits \<Rightarrow> bytes" where
  "header_bytes r h sb =
     (if header_is_continuation h
      then control_byte_to_u8 cb_continuation # u16_to_be (header_channel_id h)
      else control_byte_to_u8 (the (header_control_byte r h sb)) # u16_to_be (header_channel_id h)
             @ u16_to_be (header_payload_len h))"

lemma length_header_bytes: "length (header_bytes r h sb) = header_len h"
  by (cases h) (simp_all add: header_bytes_def header_consts)

lemma header_to_bytes_eq:
  "header_to_bytes r h sb dest =
     (if header_len h \<le> length dest \<and> header_control_byte r h sb \<noteq> None
      then (Some (header_len h), header_bytes r h sb @ drop (header_len h) dest)
      else (None, dest))"
  by (cases h)
    (auto simp: header_to_bytes_def header_bytes_def not_less header_control_byte_def split: if_splits)

lemma header_control_byte_None:
  "header_control_byte r h sb = None \<longleftrightarrow>
     \<not> header_incoming (peer r) h \<or> (header_is_ack h \<and> seq_bit sb)
       \<or> (\<not> header_is_init h \<and> \<not> header_is_continuation h)"
  by (cases h) (simp_all add: header_control_byte_def)

text \<open>
  The control byte that is sent for a header is accepted by \<open>TryFrom<u8>\<close>, is of the
  header's own class, and still holds the sync bits.
\<close>

lemma handshake_bytes_accepted:
  assumes "sync_bits_wf sb"
  shows "control_byte_try_from (cb_byte (with_sync_bits (cb_handshake p) sb))
           = Ok (with_sync_bits (cb_handshake p) sb)"
    "\<not> cb_is_codec_v1 (with_sync_bits (cb_handshake p) sb)"
    "\<not> cb_is_continuation (with_sync_bits (cb_handshake p) sb)"
    "\<not> cb_is_ack (with_sync_bits (cb_handshake p) sb)"
    "\<not> cb_is_error (with_sync_bits (cb_handshake p) sb)"
  using assms
  by (cases p; auto elim!: sync_bits_wf_cases simp: control_byte_try_from_def cb_tests
      with_sync_bits_def sync_bits_to_u8_def)+

lemma encrypted_bytes_accepted:
  assumes "sync_bits_wf sb"
  shows "control_byte_try_from (cb_byte (with_sync_bits cb_encrypted_transport sb))
           = Ok (with_sync_bits cb_encrypted_transport sb)"
    "\<not> cb_is_codec_v1 (with_sync_bits cb_encrypted_transport sb)"
    "\<not> cb_is_continuation (with_sync_bits cb_encrypted_transport sb)"
    "\<not> cb_is_ack (with_sync_bits cb_encrypted_transport sb)"
    "\<not> cb_is_error (with_sync_bits cb_encrypted_transport sb)"
  using assms
  by (auto elim!: sync_bits_wf_cases simp: control_byte_try_from_def cb_tests cb_makers
      with_sync_bits_def sync_bits_to_u8_def)

lemma ack_bytes_accepted:
  assumes "sync_bits_wf sb" "\<not> seq_bit sb"
  shows "control_byte_try_from (cb_byte (with_sync_bits cb_ack sb)) = Ok (with_sync_bits cb_ack sb)"
    "\<not> cb_is_codec_v1 (with_sync_bits cb_ack sb)" "\<not> cb_is_continuation (with_sync_bits cb_ack sb)"
  using assms
  by (auto elim!: sync_bits_wf_cases simp: control_byte_try_from_def cb_tests cb_makers seq_bit_def
      with_sync_bits_def sync_bits_to_u8_def)

lemmas sent_bytes_accepted =
  handshake_bytes_accepted encrypted_bytes_accepted ack_bytes_accepted

text \<open>The parser run on an initiation packet, up to the choice of the header.\<close>

lemma header_parse_init:
  assumes "control_byte_try_from (cb_byte cb) = Ok cb" "\<not> cb_is_codec_v1 cb" "\<not> cb_is_continuation cb"
    and "channel_id_valid c" "length_valid l"
  shows "header_parse r (cb_byte cb # u16_to_be c @ u16_to_be l @ tail) =
    and_then (parse_single r cb c l) (\<lambda>single.
      case (case single of
               Some h \<Rightarrow> Some h
             | None \<Rightarrow> if c = BROADCAST_CHANNEL_ID then parse_broadcast r cb l else parse_unicast r cb c l) of
         Some h \<Rightarrow> Ok (h, take (unat l) tail)
       | None \<Rightarrow> Err MalformedData)"
proof -
  have "parse_cb_channel (cb_byte cb # u16_to_be c @ u16_to_be l @ tail) = Ok (cb, c, u16_to_be l @ tail)"
    using assms(1) by (simp add: parse_cb_channel_Ok)
  moreover have "parse_length (u16_to_be l @ tail) = Ok (l, tail)"
    using assms(5) by (simp add: parse_length_Ok)
  moreover have "slice_to (min (length tail) (unat l)) tail = (Ok (take (unat l) tail) :: bytes thp_result)"
    by (simp add: min_def)
  ultimately show ?thesis
    using assms(2-4) by (simp add: header_parse_def Let_def del: slice_to_eq)
qed

text \<open>The control bytes without sync bits.\<close>

lemma plain_bytes_accepted:
  "cb \<in> {cb_error, cb_ping, cb_pong, cb_channel_allocation_request, cb_channel_allocation_response} \<Longrightarrow>
     control_byte_try_from (cb_byte cb) = Ok cb \<and> \<not> cb_is_codec_v1 cb \<and> \<not> cb_is_continuation cb
       \<and> \<not> cb_is_ack cb"
  by (auto simp: control_byte_try_from_def cb_makers cb_tests)

lemma plain_bytes_class:
  "cb_is_error cb_error" "cb_is_ping cb_ping" "cb_is_pong cb_pong"
  "cb_is_channel_allocation_request cb_channel_allocation_request"
  "cb_is_channel_allocation_response cb_channel_allocation_response"
  "\<not> cb_is_error cb_ping" "\<not> cb_is_error cb_pong" "\<not> cb_is_error cb_channel_allocation_request"
  "\<not> cb_is_error cb_channel_allocation_response"
  "\<not> cb_is_channel_allocation_request cb_ping"
  "\<not> cb_is_channel_allocation_request cb_pong" "\<not> cb_is_ping cb_pong"
  "\<not> cb_is_channel_allocation_request cb_channel_allocation_response"
  "\<not> cb_is_ping cb_channel_allocation_response" "\<not> cb_is_pong cb_channel_allocation_response"
  by (simp_all add: cb_makers cb_tests)

lemma header_control_byte_accepted:
  assumes "header_control_byte r h sb = Some cb" "header_is_init h" "sync_bits_wf sb"
  shows "control_byte_try_from (cb_byte cb) = Ok cb" "\<not> cb_is_codec_v1 cb" "\<not> cb_is_continuation cb"
  using assms
  by (cases h; simp add: header_control_byte_def sent_bytes_accepted plain_bytes_accepted split: if_splits;
      auto simp: sent_bytes_accepted plain_bytes_accepted)+

lemma header_parse_bytes_init:
  assumes wf: "header_wf h" "header_is_init h" and sb: "sync_bits_wf sb"
    and out: "header_control_byte r h sb = Some cb"
  shows "header_parse (peer r) (cb_byte cb # u16_to_be (header_channel_id h)
           @ u16_to_be (header_payload_len h) @ tail) = Ok (h, take (unat (header_payload_len h)) tail)"
proof (subst header_parse_init)
  show "channel_id_valid (header_channel_id h)" "length_valid (header_payload_len h)"
    using wf by (simp_all add: header_channel_valid init_payload_len_valid)
  show "control_byte_try_from (cb_byte cb) = Ok cb" "\<not> cb_is_codec_v1 cb" "\<not> cb_is_continuation cb"
    using header_control_byte_accepted [OF out wf(2) sb] .
  show "and_then (parse_single (peer r) cb (header_channel_id h) (header_payload_len h)) (\<lambda>single.
      case (case single of
               Some h \<Rightarrow> Some h
             | None \<Rightarrow> if header_channel_id h = BROADCAST_CHANNEL_ID
                 then parse_broadcast (peer r) cb (header_payload_len h)
                 else parse_unicast (peer r) cb (header_channel_id h) (header_payload_len h)) of
         Some h' \<Rightarrow> Ok (h', take (unat (header_payload_len h)) tail)
       | None \<Rightarrow> Err MalformedData) = Ok (h, take (unat (header_payload_len h)) tail)"
    using out sb wf
    by (cases h; simp add: header_control_byte_def sent_bytes_accepted plain_bytes_accepted
        plain_bytes_class parse_single_def parse_broadcast_def parse_unicast_def unicast_valid_def
        split: if_splits; auto simp: sent_bytes_accepted plain_bytes_accepted plain_bytes_class)
qed

text \<open>The sync bits of a packet are read from its first byte.\<close>

lemma header_control_byte_sync_bits:
  assumes "header_control_byte r h sb = Some cb" "sync_bits_wf sb"
    and "header_is_ack h \<or> header_is_encrypted h \<or> header_is_handshake h"
  shows "sync_bits_from_u8 (cb_byte cb) = sb"
  using assms
  by (cases h; simp add: header_control_byte_def cb_sync_bits_def [symmetric] split: if_splits; auto)

lemma header_bytes_Cons:
  "header_control_byte r h sb = Some cb \<Longrightarrow> header_is_init h \<Longrightarrow>
     header_bytes r h sb =
       cb_byte cb # u16_to_be (header_channel_id h) @ u16_to_be (header_payload_len h)"
  by (cases h) (simp_all add: header_bytes_def control_byte_to_u8_def)

lemma header_parse_bytes_continuation:
  "channel_id_valid c \<Longrightarrow>
     header_parse r (header_bytes r' (Continuation c) sb @ tail) = Ok (Continuation c, tail)"
  by (subst header_parse_def)
    (simp add: header_bytes_def parse_cb_channel_Ok [where cb = cb_continuation, simplified, THEN iffD2]
      control_byte_to_u8_def parse_cb_channel_def control_byte_parse_def parse_u16_def
      control_byte_try_from_def cb_makers cb_tests)

text \<open>What one role serializes, the other role parses.\<close>

lemma header_parse_bytes:
  assumes "header_wf h" "sync_bits_wf sb" "header_control_byte r h sb \<noteq> None"
  shows "header_parse (peer r) (header_bytes r h sb @ tail) =
    Ok (h, if header_is_continuation h then tail else take (unat (header_payload_len h)) tail)"
proof -
  obtain cb where cb: "header_control_byte r h sb = Some cb" using assms(3) by blast
  then consider c where "h = Continuation c" | "header_is_init h" "\<not> header_is_continuation h"
    by (cases h) (auto simp: header_control_byte_def)
  then show ?thesis
  proof cases
    case 1
    then show ?thesis using assms(1) by (simp add: header_parse_bytes_continuation)
  next
    case 2
    then show ?thesis
      using header_parse_bytes_init [OF assms(1) 2(1) assms(2) cb] by (simp add: header_bytes_Cons [OF cb])
  qed
qed

section \<open>Properties\<close>

text \<open>
  C14. Headers survive the wire: whatever \<open>to_bytes\<close> of one role writes into a packet
  buffer, \<open>parse\<close> of the other role reads back as the same header, with the bytes that
  follow it cut to the announced payload length, and an acknowledgement, handshake or
  encrypted packet still carries the sync bits it was given.
\<close>

theorem header_roundtrip:
  assumes "header_wf h" "sync_bits_wf sb" and "header_to_bytes r h sb dest = (Some n, dest')"
  shows "header_parse (peer r) dest' =
           Ok (h, if header_is_continuation h then drop n dest
                  else take (unat (header_payload_len h)) (drop n dest))
         \<and> (header_is_ack h \<or> header_is_encrypted h \<or> header_is_handshake h \<longrightarrow>
              sync_bits_from_bytes dest' = Ok sb)"
proof -
  have *: "header_control_byte r h sb \<noteq> None" "n = header_len h"
    "dest' = header_bytes r h sb @ drop n dest"
    using assms(3) by (auto simp: header_to_bytes_eq split: if_splits)
  have "sync_bits_from_bytes dest' = Ok sb"
    if "header_is_ack h \<or> header_is_encrypted h \<or> header_is_handshake h"
    using *(1,3) that assms(2) header_control_byte_sync_bits header_bytes_Cons
    by (cases h) fastforce+
  then show ?thesis
    using header_parse_bytes [OF assms(1,2) *(1), of "drop n dest"] *(3) by simp
qed

theorem header_roundtrip_witness:
  "header_parse Device [0x14, 0x12, 0x34, 0x00, 0x06, 9, 9, 9, 9, 9, 9, 0, 0] =
     Ok (Encrypted 0x1234 6, [9, 9, 9, 9, 9, 9])
   \<and> sync_bits_from_bytes [0x14, 0x12, 0x34, 0x00, 0x06, 9, 9, 9, 9, 9, 9, 0, 0] = Ok (SyncBits 0x10)"
  using header_roundtrip [of "Encrypted 0x1234 6" "SyncBits 0x10" Host "[0, 0, 0, 0, 0, 9, 9, 9, 9, 9, 9, 0, 0]" 5
      "[0x14, 0x12, 0x34, 0x00, 0x06, 9, 9, 9, 9, 9, 9, 0, 0]"]
  by (simp add: sync_bits_wf_def unicast_valid_def channel_id_valid_def length_valid_def header_consts
      header_to_bytes_def header_control_byte_def with_sync_bits_def sync_bits_to_u8_def
      cb_makers control_byte_to_u8_def u16_to_be_def)

text \<open>
  C34. Parsing is total and safe on arbitrary bytes: it never panics, and an accepted header
  is well formed (valid channel id, length between 4 and 60000, unicast where the kind
  demands it), legal for the role that parsed it, and comes with exactly the bytes that
  follow it in the packet, without those beyond the announced length.
\<close>

theorem header_parse_safe:
  "header_parse r bs \<noteq> Panic \<and>
   (\<forall>h rest. header_parse r bs = Ok (h, rest) \<longrightarrow>
      header_wf h \<and> header_incoming r h \<and>
      (header_is_init h \<longrightarrow>
         INIT_LEN \<le> length bs \<and> rest = take (unat (header_payload_len h)) (drop INIT_LEN bs)) \<and>
      (header_is_continuation h \<longrightarrow> CONT_LEN \<le> length bs \<and> rest = drop CONT_LEN bs))"
proof (intro conjI allI impI)
  fix h rest assume p: "header_parse r bs = Ok (h, rest)"
  note facts = header_parse_Ok [OF p]
  show "header_wf h" "header_incoming r h" by (fact facts)+
  show "INIT_LEN \<le> length bs" "rest = take (unat (header_payload_len h)) (drop INIT_LEN bs)"
    if "header_is_init h"
    using facts(3) [OF that] by (auto simp: header_consts)
  show "CONT_LEN \<le> length bs" "rest = drop CONT_LEN bs" if "header_is_continuation h"
    using facts(4) [OF that] by (auto simp: header_consts)
qed simp

theorem header_parse_safe_witness:
  "header_parse Host [0x41, 0xFF, 0xFF, 0x00, 0x05, 1, 2, 3, 4, 5, 0, 0]
     = Ok (ChannelAllocationResponse 5, [1, 2, 3, 4, 5])
   \<and> header_incoming Host (ChannelAllocationResponse 5)"
proof -
  have "header_parse Host [0x41, 0xFF, 0xFF, 0x00, 0x05, 1, 2, 3, 4, 5, 0, 0]
     = Ok (ChannelAllocationResponse 5, [1, 2, 3, 4, 5])"
    by code_simp
  then show ?thesis
    using header_parse_safe [of Host "[0x41, 0xFF, 0xFF, 0x00, 0x05, 1, 2, 3, 4, 5, 0, 0]"] by blast
qed

end
