(* ===== verification/Thp_Fragment.thy ===== *)
theory Thp_Fragment
  imports Thp_Crc32 Thp_Header
begin

text \<open>
  Cutting messages into packets and putting them together again,
  \<open>rust/trezor-thp/src/fragment.rs\<close>. A message travels as the stream of its payload
  followed by the checksum of header and payload; the first packet carries the message's own
  header and the others a continuation header. The lemmas describe both ends by the position
  they have reached in that stream.
\<close>

section \<open>Fragmenter\<close>

record fragmenter =
  frag_header :: header
  frag_sync_bits :: sync_bits
  frag_offset :: nat
  frag_checksum :: crc32
  frag_crc_offset :: nat

definition fragmenter_new :: "header \<Rightarrow> sync_bits \<Rightarrow> bytes \<Rightarrow> fragmenter thp_result" where
  "fragmenter_new h sb payload =
     (if length payload + CHECKSUM_LEN \<noteq> unat (header_payload_len h) then Err UnexpectedInput
      else Ok \<lparr>frag_header = h, frag_sync_bits = sb, frag_offset = 0,
               frag_checksum = crc32_new, frag_crc_offset = 0\<rparr>)"

definition fragmenter_is_done :: "fragmenter \<Rightarrow> bool" where
  "fragmenter_is_done f \<longleftrightarrow>
     (frag_offset f + CHECKSUM_LEN \<ge> unat (header_payload_len (frag_header f)))
     \<and> frag_crc_offset f \<ge> CHECKSUM_LEN"

definition MIN_PACKET_SIZE :: nat where
  "MIN_PACKET_SIZE = header_len new_ping + 1"

text \<open>
  \<open>next\<close> in its three parts. Each gets the unwritten rest of the packet buffer; the second
  and third return the bytes they put at its beginning.
\<close>

definition fragmenter_put_header ::
  "role \<Rightarrow> fragmenter \<Rightarrow> bytes \<Rightarrow> nat thp_result \<times> (fragmenter \<times> bytes)" where
  "fragmenter_put_header r f dest =
     (if frag_offset f = 0 then
        (case header_to_bytes r (frag_header f) (frag_sync_bits f) dest of
           (None, dest) \<Rightarrow> (Err UnexpectedInput, (f, dest))
         | (Some n, dest) \<Rightarrow>
             (Ok n, (f\<lparr>frag_checksum := crc32_update (take n dest) (frag_checksum f)\<rparr>, dest)))
      else
        and_then_st (new_continuation (header_channel_id (frag_header f)), (f, dest)) (\<lambda>cont_header (f, dest).
        case header_to_bytes r cont_header sync_bits_new dest of
          (None, dest) \<Rightarrow> (Err UnexpectedInput, (f, dest))
        | (Some n, dest) \<Rightarrow> (Ok n, (f, dest))))"

definition fragmenter_put_payload :: "fragmenter \<Rightarrow> bytes \<Rightarrow> bytes \<Rightarrow> bytes \<times> fragmenter" where
  "fragmenter_put_payload f payload rest =
     (if frag_offset f < length payload then
        let source = drop (frag_offset f) payload;
            nbytes = min (length source) (length rest)
        in (take nbytes source,
            f\<lparr>frag_checksum := crc32_update (take nbytes source) (frag_checksum f),
              frag_offset := frag_offset f + nbytes\<rparr>)
      else ([], f))"

definition fragmenter_put_crc :: "fragmenter \<Rightarrow> bytes \<Rightarrow> bytes \<Rightarrow> bytes \<times> fragmenter" where
  "fragmenter_put_crc f payload rest =
     (if frag_offset f \<ge> length payload \<and> frag_crc_offset f < CHECKSUM_LEN then
        let crc = drop (frag_crc_offset f) (crc32_finalize (frag_checksum f));
            nbytes = min (length crc) (length rest)
        in (take nbytes crc, f\<lparr>frag_crc_offset := frag_crc_offset f + nbytes\<rparr>)
      else ([], f))"

definition fragmenter_put_body :: "fragmenter \<Rightarrow> bytes \<Rightarrow> bytes \<Rightarrow> bytes \<times> fragmenter" where
  "fragmenter_put_body f payload rest =
     (let (written1, f) = fragmenter_put_payload f payload rest;
          (written2, f) = fragmenter_put_crc f payload (drop (length written1) rest)
      in (written1 @ written2, f))"

definition fragmenter_next ::
  "role \<Rightarrow> fragmenter \<Rightarrow> bytes \<Rightarrow> bytes \<Rightarrow> bool thp_result \<times> (fragmenter \<times> bytes)" where
  "fragmenter_next r f payload dest =
     (if length dest < MIN_PACKET_SIZE then (Err InsufficientBuffer, (f, dest))
      else if length payload + CHECKSUM_LEN \<noteq> unat (header_payload_len (frag_header f))
      then (Err UnexpectedInput, (f, dest))
      else if fragmenter_is_done f then (Ok False, (f, dest))
      else
        and_then_st (fragmenter_put_header r f dest) (\<lambda>header_len (f, dest).
        let (written, f) = fragmenter_put_body f payload (drop header_len dest)
        in (Ok True,
            (f, take header_len dest @ written
                  @ replicate (length dest - header_len - length written) 0))))"

definition fragmenter_reset :: "fragmenter \<Rightarrow> fragmenter" where
  "fragmenter_reset f = f\<lparr>frag_offset := 0, frag_checksum := crc32_new, frag_crc_offset := 0\<rparr>"

definition fragmenter_single ::
  "role \<Rightarrow> header \<Rightarrow> sync_bits \<Rightarrow> bytes \<Rightarrow> bytes \<Rightarrow> unit thp_result \<times> bytes" where
  "fragmenter_single r h sb payload dest =
     and_then_st (fragmenter_new h sb payload, dest) (\<lambda>fragmenter dest.
       let (res, (fragmenter, dest)) = fragmenter_next r fragmenter payload dest in
       and_then_st (res, dest) (\<lambda>_ dest.
       if \<not> fragmenter_is_done fragmenter then (Err InsufficientBuffer, dest) else (Ok (), dest)))"

section \<open>Reassembler\<close>

record reassembler =
  reas_header :: header
  reas_sync_bits :: sync_bits
  reas_offset :: nat
  reas_checksum :: crc32

definition reassembler_new :: "role \<Rightarrow> bytes \<Rightarrow> bytes \<Rightarrow> reassembler thp_result \<times> bytes" where
  "reassembler_new r input buffer =
     and_then_st (header_parse r input, buffer) (\<lambda>(h, after_header) buffer.
     and_then_st (sync_bits_from_bytes input, buffer) (\<lambda>sb buffer.
     if header_is_continuation h then (Err MalformedData, buffer)
     else
       let nbytes = length after_header;
           payload_len = unat (header_payload_len h)
       in if length buffer < nbytes then (Err InsufficientBuffer, buffer)
       else
         let buffer = after_header @ drop nbytes buffer in
         and_then_st (slice_to (header_len h) input, buffer) (\<lambda>header_bytes buffer.
         let checksum = crc32_update header_bytes crc32_new;
             checksum_bytes = min (payload_len - CHECKSUM_LEN) nbytes;
             checksum = crc32_update (take checksum_bytes after_header) checksum
         in (Ok \<lparr>reas_header = h, reas_sync_bits = sb, reas_offset = nbytes,
                  reas_checksum = checksum\<rparr>, buffer))))"

definition reassembler_update ::
  "role \<Rightarrow> reassembler \<Rightarrow> bytes \<Rightarrow> bytes \<Rightarrow> unit thp_result \<times> (reassembler \<times> bytes)" where
  "reassembler_update r x input buffer =
     and_then_st (header_parse r input, (x, buffer)) (\<lambda>(h, after_header) (x, buffer).
     if \<not> header_is_continuation h then (Err UnexpectedInput, (x, buffer))
     else if header_channel_id h \<noteq> header_channel_id (reas_header x) then (Err MalformedData, (x, buffer))
     else
       let payload_len = unat (header_payload_len (reas_header x)) in
       if length buffer < payload_len then (Err InsufficientBuffer, (x, buffer))
       else
         let payload_remaining = payload_len - reas_offset x;
             nbytes = min (length after_header) payload_remaining
         in and_then_st (copy_at (reas_offset x) (take nbytes after_header) buffer, (x, buffer)) (\<lambda>buffer (x, _).
            let checksum_bytes = min (payload_remaining - CHECKSUM_LEN) nbytes
            in (Ok (),
                (x\<lparr>reas_checksum := crc32_update (take checksum_bytes after_header) (reas_checksum x),
                   reas_offset := reas_offset x + nbytes\<rparr>, buffer))))"

definition reassembler_is_done :: "reassembler \<Rightarrow> bool" where
  "reassembler_is_done x \<longleftrightarrow> reas_offset x \<ge> unat (header_payload_len (reas_header x))"

definition reassembler_verify :: "reassembler \<Rightarrow> bytes \<Rightarrow> nat thp_result" where
  "reassembler_verify x buffer =
     (if \<not> reassembler_is_done x then Err UnexpectedInput
      else
        let computed_checksum = crc32_finalize (reas_checksum x);
            length_no_checksum = unat (header_payload_len (reas_header x)) - CHECKSUM_LEN
        in if length buffer < length_no_checksum then Err InvalidChecksum
        else case split_first_chunk CHECKSUM_LEN (drop length_no_checksum buffer) of
          None \<Rightarrow> Err InvalidChecksum
        | Some (received_checksum, _) \<Rightarrow>
            if computed_checksum \<noteq> received_checksum then Err InvalidChecksum
            else Ok length_no_checksum)"

definition reassembler_single :: "role \<Rightarrow> bytes \<Rightarrow> (header \<times> bytes) thp_result" where
  "reassembler_single r buffer =
     and_then (header_parse r buffer) (\<lambda>(h, after_header).
     if header_is_continuation h then Err MalformedData
     else
       let payload_len = unat (header_payload_len h) in
       if payload_len \<noteq> length after_header then Err MalformedData
       else
         and_then (slice_to (header_len h) buffer) (\<lambda>header_bytes.
         let checksum_off = payload_len - CHECKSUM_LEN in
         and_then (slice_to checksum_off after_header) (\<lambda>payload.
         let computed_checksum = crc32_finalize (crc32_update payload (crc32_update header_bytes crc32_new)) in
         and_then (ok_or MalformedData (last_chunk CHECKSUM_LEN after_header)) (\<lambda>received_checksum.
         if computed_checksum \<noteq> received_checksum then Err InvalidChecksum
         else Ok (h, payload)))))"

section \<open>The driving loops\<close>

text \<open>
  A sender calls \<open>next\<close> with a fresh packet buffer until \<open>is_done\<close>; a receiver hands the
  first packet to \<open>new\<close>, the others to \<open>update\<close> and verifies at the end.
\<close>

function fragment_loop :: "role \<Rightarrow> fragmenter \<Rightarrow> bytes \<Rightarrow> nat \<Rightarrow> bytes list thp_result" where
  "fragment_loop r f payload packet_size =
     (if fragmenter_is_done f then Ok []
      else case fragmenter_next r f payload (replicate packet_size 0) of
        (Ok _, (f', packet)) \<Rightarrow> map_ok (Cons packet) (fragment_loop r f' payload packet_size)
      | (Err e, _) \<Rightarrow> Err e
      | (Panic, _) \<Rightarrow> Panic)"
  by pat_completeness auto

definition fragmenter_todo :: "fragmenter \<Rightarrow> nat" where
  "fragmenter_todo f =
     (unat (header_payload_len (frag_header f)) - CHECKSUM_LEN - frag_offset f)
     + (CHECKSUM_LEN - frag_crc_offset f)"

lemma header_len_le: "header_len h \<le> 5"
  by (cases h) (simp_all add: header_consts)

lemma fragmenter_put_header_Ok:
  assumes "fragmenter_put_header r f dest = (Ok n, (f', dest'))"
  shows "n \<le> INIT_LEN" "length dest' = length dest" "frag_header f' = frag_header f"
    "frag_offset f' = frag_offset f" "frag_crc_offset f' = frag_crc_offset f"
  using assms
  by (auto simp: fragmenter_put_header_def header_to_bytes_eq new_header_Ok and_then_st_eq_Ok
      length_header_bytes header_len_le CONT_LEN_def INIT_LEN_def
      split: if_splits prod.splits option.splits)

lemma fragmenter_put_body_progress:
  assumes "fragmenter_put_body f payload rest = (written, f')" and "rest \<noteq> []"
    and "length payload + CHECKSUM_LEN = unat (header_payload_len (frag_header f))"
    and "\<not> fragmenter_is_done f"
  shows "fragmenter_todo f' < fragmenter_todo f"
  using assms
  by (auto simp: fragmenter_put_body_def fragmenter_put_crc_def fragmenter_put_payload_def
      fragmenter_todo_def fragmenter_is_done_def CHECKSUM_LEN_def Let_def neq_Nil_conv
      split: if_splits)

lemma fragmenter_next_progress:
  assumes "fragmenter_next r f payload dest = (Ok b, (f', dest'))" and "\<not> fragmenter_is_done f"
  shows "fragmenter_todo f' < fragmenter_todo f"
proof -
  obtain n f1 d1 where h: "fragmenter_put_header r f dest = (Ok n, (f1, d1))"
    and f': "f' = snd (fragmenter_put_body f1 payload (drop n d1))"
    and len: "MIN_PACKET_SIZE \<le> length dest"
      "length payload + CHECKSUM_LEN = unat (header_payload_len (frag_header f))"
    using assms
    by (auto simp: fragmenter_next_def and_then_st_eq_Ok Let_def case_prod_unfold split: if_split_asm)
  note h' = fragmenter_put_header_Ok [OF h]
  have "drop n d1 \<noteq> []" "\<not> fragmenter_is_done f1" "fragmenter_todo f1 = fragmenter_todo f"
    using h' len(1) assms(2)
    by (auto simp: MIN_PACKET_SIZE_def header_consts new_ping_def fragmenter_is_done_def fragmenter_todo_def)
  then show ?thesis
    using fragmenter_put_body_progress [OF surjective_pairing, of "drop n d1" payload f1] f' len(2) h'
    by auto
qed

termination fragment_loop
  by (relation "measure (\<lambda>(r, f, payload, n). fragmenter_todo f)")
    (auto dest: fragmenter_next_progress [OF sym])

declare fragment_loop.simps [simp del]

definition fragment :: "role \<Rightarrow> header \<Rightarrow> sync_bits \<Rightarrow> bytes \<Rightarrow> nat \<Rightarrow> bytes list thp_result" where
  "fragment r h sb input packet_size =
     and_then (fragmenter_new h sb input) (\<lambda>f. fragment_loop r f input packet_size)"

fun assemble_loop :: "role \<Rightarrow> reassembler \<Rightarrow> bytes list \<Rightarrow> bytes \<Rightarrow> (reassembler \<times> bytes) thp_result" where
  "assemble_loop r x [] received = Ok (x, received)"
| "assemble_loop r x (p # packets) received =
     (if reassembler_is_done x then Panic
      else case reassembler_update r x p received of
        (Ok _, (x, received)) \<Rightarrow> assemble_loop r x packets received
      | (Err e, _) \<Rightarrow> Err e
      | (Panic, _) \<Rightarrow> Panic)"

definition assemble :: "role \<Rightarrow> bytes list \<Rightarrow> nat \<Rightarrow> bytes thp_result" where
  "assemble r packets max_message =
     (case packets of
        [] \<Rightarrow> Panic
      | p # packets \<Rightarrow>
          (case reassembler_new r p (replicate max_message 0) of
             (Ok x, received) \<Rightarrow>
               and_then (assemble_loop r x packets received) (\<lambda>(x, received).
               if \<not> reassembler_is_done x then Panic
               else map_ok (\<lambda>n. take n received) (reassembler_verify x received))
           | (Err e, _) \<Rightarrow> Err e
           | (Panic, _) \<Rightarrow> Panic))"

section \<open>The sender's position in the stream\<close>

text \<open>
  The specification of both ends: the bytes that travel behind the headers, the sender's
  state once \<open>p\<close> of them have been written, and the packet that starts at \<open>p\<close>.
\<close>

definition msg_stream :: "role \<Rightarrow> header \<Rightarrow> sync_bits \<Rightarrow> bytes \<Rightarrow> bytes" where
  "msg_stream r h sb payload = payload @ crc32_digest (header_bytes r h sb @ payload)"

definition frag_state :: "role \<Rightarrow> header \<Rightarrow> sync_bits \<Rightarrow> bytes \<Rightarrow> nat \<Rightarrow> fragmenter" where
  "frag_state r h sb payload p =
     \<lparr>frag_header = h, frag_sync_bits = sb, frag_offset = min p (length payload),
      frag_checksum =
        (if p = 0 then crc32_new else crc32_update (header_bytes r h sb @ take p payload) crc32_new),
      frag_crc_offset = p - length payload\<rparr>"

definition packet_header :: "role \<Rightarrow> header \<Rightarrow> sync_bits \<Rightarrow> nat \<Rightarrow> bytes" where
  "packet_header r h sb p =
     (if p = 0 then header_bytes r h sb
      else header_bytes r (Continuation (header_channel_id h)) sync_bits_new)"

definition packet_room :: "nat \<Rightarrow> nat \<Rightarrow> nat" where
  "packet_room sz p = sz - (if p = 0 then INIT_LEN else CONT_LEN)"

definition packet_at :: "role \<Rightarrow> header \<Rightarrow> sync_bits \<Rightarrow> bytes \<Rightarrow> nat \<Rightarrow> nat \<Rightarrow> bytes" where
  "packet_at r h sb payload sz p =
     packet_header r h sb p
     @ take (packet_room sz p) (drop p (msg_stream r h sb payload))
     @ replicate (packet_room sz p - (length (msg_stream r h sb payload) - p)) 0"

text \<open>Messages that \<open>Fragmenter::new\<close> and \<open>to_bytes\<close> of the role accept.\<close>

definition sendable :: "role \<Rightarrow> header \<Rightarrow> sync_bits \<Rightarrow> bytes \<Rightarrow> bool" where
  "sendable r h sb payload \<longleftrightarrow>
     header_wf h \<and> header_is_init h \<and> sync_bits_wf sb \<and> header_control_byte r h sb \<noteq> None
     \<and> length payload + CHECKSUM_LEN = unat (header_payload_len h)"

lemma length_crc32_digest [simp]: "length (crc32_digest xs) = CHECKSUM_LEN"
  by (simp add: crc32_digest_def)

lemma length_msg_stream [simp]: "length (msg_stream r h sb payload) = length payload + CHECKSUM_LEN"
  by (simp add: msg_stream_def)

lemma sendable_init: "sendable r h sb payload \<Longrightarrow> header_len h = INIT_LEN"
  by (cases h) (simp_all add: sendable_def)

lemma length_packet_header:
  "sendable r h sb payload \<Longrightarrow> length (packet_header r h sb p) = (if p = 0 then INIT_LEN else CONT_LEN)"
  by (simp add: packet_header_def length_header_bytes sendable_init)

lemma fragmenter_new_state:
  "sendable r h sb payload \<Longrightarrow> fragmenter_new h sb payload = Ok (frag_state r h sb payload 0)"
  by (simp add: sendable_def fragmenter_new_def frag_state_def)

lemma fragmenter_done_state:
  "sendable r h sb payload \<Longrightarrow>
     fragmenter_is_done (frag_state r h sb payload p) \<longleftrightarrow> length payload + CHECKSUM_LEN \<le> p"
  by (auto simp: sendable_def fragmenter_is_done_def frag_state_def CHECKSUM_LEN_def)

lemma fragmenter_reset_state:
  "fragmenter_reset (frag_state r h sb payload p) = frag_state r h sb payload 0"
  by (simp add: fragmenter_reset_def frag_state_def)

lemma put_header_state:
  assumes "sendable r h sb payload" "p = 0 \<or> payload \<noteq> []" "INIT_LEN \<le> length dest"
  shows "fragmenter_put_header r (frag_state r h sb payload p) dest =
    (Ok (length (packet_header r h sb p)),
     ((frag_state r h sb payload p)
        \<lparr>frag_checksum := crc32_update (header_bytes r h sb @ take p payload) crc32_new\<rparr>,
      packet_header r h sb p @ drop (length (packet_header r h sb p)) dest))"
proof (cases "p = 0")
  case True
  then show ?thesis
    using assms sendable_init [OF assms(1)]
    by (simp add: fragmenter_put_header_def frag_state_def header_to_bytes_eq packet_header_def
        length_header_bytes sendable_def crc32_update_def)
next
  case False
  then have "new_continuation (header_channel_id h) = Ok (Continuation (header_channel_id h))"
    using assms(1) by (auto simp: new_header_Ok sendable_def header_channel_valid)
  moreover have started: "(min p (length payload) = 0) = False"
    using assms(2) False by (auto simp: min_def)
  moreover have "header_control_byte r (Continuation (header_channel_id h)) sync_bits_new \<noteq> None"
    by (simp add: header_control_byte_def)
  ultimately show ?thesis
    using assms(3) False
    by (simp add: fragmenter_put_header_def frag_state_def header_to_bytes_eq packet_header_def
        length_header_bytes header_consts started)
qed

lemma stream_payload: "p \<le> length payload \<Longrightarrow>
    take k (drop p (msg_stream r h sb payload)) =
      take k (drop p payload) @ take (k - (length payload - p)) (crc32_digest (header_bytes r h sb @ payload))"
  by (simp add: msg_stream_def)

lemma stream_crc: "length payload \<le> p \<Longrightarrow>
    take k (drop p (msg_stream r h sb payload)) =
      take k (drop (p - length payload) (crc32_digest (header_bytes r h sb @ payload)))"
  by (simp add: msg_stream_def)

text \<open>Writing the body of a packet consumes a window of the stream.\<close>

definition frag_open :: "role \<Rightarrow> header \<Rightarrow> sync_bits \<Rightarrow> bytes \<Rightarrow> nat \<Rightarrow> fragmenter" where
  "frag_open r h sb payload p = (frag_state r h sb payload p)
     \<lparr>frag_checksum := crc32_update (header_bytes r h sb @ take p payload) crc32_new\<rparr>"

lemma frag_open_started [simp]: "0 < p \<Longrightarrow> frag_open r h sb payload p = frag_state r h sb payload p"
  by (simp add: frag_open_def frag_state_def)

lemma put_crc_state:
  assumes "length payload \<le> q" "q < length payload + CHECKSUM_LEN" "0 < q + length rest"
  shows "fragmenter_put_crc (frag_open r h sb payload q) payload rest =
     (take (length rest) (drop q (msg_stream r h sb payload)),
      frag_state r h sb payload (min (q + length rest) (length payload + CHECKSUM_LEN)))"
  using assms
  by (cases rest; simp add: fragmenter_put_crc_def frag_open_def stream_crc Let_def;
      auto simp: frag_state_def crc32_digest_def min_def)

lemma put_payload_state:
  assumes "p < length payload" "rest \<noteq> []"
  shows "fragmenter_put_payload (frag_open r h sb payload p) payload rest =
     (take (length rest) (drop p payload),
      frag_state r h sb payload (min (p + length rest) (length payload)))"
  using assms
  by (simp add: fragmenter_put_payload_def frag_open_def frag_state_def crc.feed_append [symmetric] Let_def)
    (auto simp: take_add min_def)

lemma put_body_state:
  assumes todo: "p < length payload + CHECKSUM_LEN" and rest: "rest \<noteq> []"
  shows "fragmenter_put_body (frag_open r h sb payload p) payload rest =
     (take (length rest) (drop p (msg_stream r h sb payload)),
      frag_state r h sb payload (min (p + length rest) (length payload + CHECKSUM_LEN)))"
proof -
  let ?L = "length payload" and ?n = "length rest"
  have n: "0 < ?n" using rest by simp
  consider "p + ?n < ?L" | "p < ?L" "?L \<le> p + ?n" | "?L \<le> p" by linarith
  then show ?thesis
  proof cases
    case 1
    then show ?thesis
      using rest
      by (simp add: fragmenter_put_body_def put_payload_state fragmenter_put_crc_def stream_payload
          frag_state_def)
  next
    case 2
    have "0 < ?L" using 2(1) by linarith
    note frag_open_started [OF this, of r h sb payload]
    then have "fragmenter_put_payload (frag_open r h sb payload p) payload rest =
        (drop p payload, frag_open r h sb payload ?L)"
      using 2 rest by (simp add: put_payload_state)
    moreover have "take ?n (drop p (msg_stream r h sb payload)) =
        drop p payload @ take (?n - (?L - p)) (drop ?L (msg_stream r h sb payload))"
      using 2 by (simp add: stream_payload stream_crc)
    ultimately show ?thesis
      using 2 put_crc_state [of payload ?L "drop (?L - p) rest" r h sb] todo n
      by (simp add: fragmenter_put_body_def CHECKSUM_LEN_def add.commute)
  next
    case 3
    then have "fragmenter_put_payload (frag_open r h sb payload p) payload rest =
        ([], frag_open r h sb payload p)"
      by (simp add: fragmenter_put_payload_def frag_open_def frag_state_def)
    then show ?thesis
      using put_crc_state [OF 3 todo, of rest r h sb] n by (simp add: fragmenter_put_body_def)
  qed
qed

text \<open>One call of \<open>next\<close> writes the packet that starts at \<open>p\<close> and advances by what fits.\<close>

lemma fragmenter_next_state:
  assumes s: "sendable r h sb payload" and p: "p = 0 \<or> payload \<noteq> []"
    and todo: "p < length payload + CHECKSUM_LEN" and size: "MIN_PACKET_SIZE \<le> length dest"
  shows "fragmenter_next r (frag_state r h sb payload p) payload dest =
    (Ok True, (frag_state r h sb payload (min (p + packet_room (length dest) p) (length payload + CHECKSUM_LEN)),
               packet_at r h sb payload (length dest) p))"
proof -
  let ?hd = "packet_header r h sb p" and ?L = "length payload" and ?room = "packet_room (length dest) p"
  let ?f1 = "frag_open r h sb payload p"
  have len: "length ?hd \<le> INIT_LEN" "length dest - length ?hd = ?room" "INIT_LEN < length dest"
    using size length_packet_header [OF s, of p]
    by (auto simp: packet_room_def MIN_PACKET_SIZE_def new_ping_def header_consts)
  have hd: "fragmenter_put_header r (frag_state r h sb payload p) dest =
      (Ok (length ?hd), (?f1, ?hd @ drop (length ?hd) dest))"
    using put_header_state [OF s p] len by (simp add: frag_open_def)
  have chk: "\<not> length dest < MIN_PACKET_SIZE"
    "\<not> fragmenter_is_done (frag_state r h sb payload p)"
    "?L + CHECKSUM_LEN = unat (header_payload_len (frag_header (frag_state r h sb payload p)))"
    using size todo s by (simp_all add: fragmenter_done_state) (simp add: frag_state_def sendable_def)
  show ?thesis
    using hd chk put_body_state [OF todo, of "drop (length ?hd) dest" r h sb] len
    by (simp add: fragmenter_next_def packet_at_def)
qed

section \<open>The receiver's position in the stream\<close>

definition reas_state :: "role \<Rightarrow> header \<Rightarrow> sync_bits \<Rightarrow> bytes \<Rightarrow> nat \<Rightarrow> reassembler" where
  "reas_state r h sb payload p =
     \<lparr>reas_header = h, reas_sync_bits = sync_bits_from_u8 (hd (header_bytes r h sb)), reas_offset = p,
      reas_checksum = crc32_update (header_bytes r h sb @ take p payload) crc32_new\<rparr>"

lemma reassembler_done_state:
  "sendable r h sb payload \<Longrightarrow>
     reassembler_is_done (reas_state r h sb payload p) \<longleftrightarrow> length payload + CHECKSUM_LEN \<le> p"
  by (simp add: sendable_def reassembler_is_done_def reas_state_def)

text \<open>A packet holds a window of the stream, padded only where the stream ends.\<close>

definition packet_body :: "role \<Rightarrow> header \<Rightarrow> sync_bits \<Rightarrow> bytes \<Rightarrow> nat \<Rightarrow> nat \<Rightarrow> bytes" where
  "packet_body r h sb payload sz p =
     take (packet_room sz p) (drop p (msg_stream r h sb payload))
     @ replicate (packet_room sz p - (length (msg_stream r h sb payload) - p)) 0"

lemma packet_at_body:
  "packet_at r h sb payload sz p = packet_header r h sb p @ packet_body r h sb payload sz p"
  by (simp add: packet_at_def packet_body_def)

lemma length_packet_body: "length (packet_body r h sb payload sz p) = packet_room sz p"
  by (auto simp: packet_body_def min_def)

lemma packet_body_window:
  "k \<le> packet_room sz p \<Longrightarrow> k \<le> length payload + CHECKSUM_LEN - p \<Longrightarrow>
     take k (packet_body r h sb payload sz p) = take k (drop p (msg_stream r h sb payload))"
  by (simp add: packet_body_def)

lemma take_packet_body:
  "take (length payload + CHECKSUM_LEN - p) (packet_body r h sb payload sz p) =
     take (packet_room sz p) (drop p (msg_stream r h sb payload))"
  by (auto simp: packet_body_def min_def)

lemma reassembler_new_packet:
  assumes s: "sendable r h sb payload" and buf: "length payload + CHECKSUM_LEN \<le> length buffer"
    and n_def: "n = min (packet_room sz 0) (length payload + CHECKSUM_LEN)"
  shows "reassembler_new (peer r) (packet_at r h sb payload sz 0) buffer =
    (Ok (reas_state r h sb payload n), take n (msg_stream r h sb payload) @ drop n buffer)"
proof -
  let ?S = "msg_stream r h sb payload" and ?hb = "header_bytes r h sb" and ?pk = "packet_at r h sb payload sz 0"
  have ne: "?hb \<noteq> []" using length_header_bytes [of r h sb] sendable_init [OF s] by (auto simp: header_consts)
  have pk: "?pk = ?hb @ packet_body r h sb payload sz 0" "length ?hb = INIT_LEN"
    using length_packet_header [OF s, of 0] by (simp_all add: packet_at_body packet_header_def)
  have "header_parse (peer r) (?hb @ packet_body r h sb payload sz 0)
      = Ok (h, take (length payload + CHECKSUM_LEN) (packet_body r h sb payload sz 0))"
    using header_parse_bytes [of h sb r] s by (cases h) (auto simp: sendable_def)
  moreover have "take n ?S = take (packet_room sz 0) ?S"
    by (simp add: n_def min_def)
  ultimately have parse: "header_parse (peer r) ?pk = Ok (h, take n ?S)"
    using take_packet_body [of payload 0 r h sb sz] pk by simp
  moreover have "sync_bits_from_bytes ?pk = Ok (sync_bits_from_u8 (hd ?hb))"
    using ne unfolding pk(1) by (cases ?hb) simp_all
  moreover have "slice_to (header_len h) ?pk = (Ok ?hb :: bytes thp_result)"
    using pk sendable_init [OF s] by simp
  moreover have "\<not> header_is_continuation h" using s by (cases h) (auto simp: sendable_def)
  moreover have "take (min (length payload) n) (take n ?S) = take n payload"
    by (auto simp: msg_stream_def min_def)
  moreover have "unat (header_payload_len h) = length payload + CHECKSUM_LEN" "n \<le> length payload + CHECKSUM_LEN"
    using s by (simp_all add: sendable_def n_def)
  ultimately show ?thesis
    using buf
    by (simp add: reassembler_new_def reas_state_def crc.feed_append min.absorb2 Let_def del: slice_to_eq)
qed

lemma reassembler_update_packet:
  assumes s: "sendable r h sb payload" and buf: "length payload + CHECKSUM_LEN \<le> length buffer"
    and p: "0 < p" "p < length payload + CHECKSUM_LEN"
    and n_def: "n = min (p + packet_room sz p) (length payload + CHECKSUM_LEN)"
  shows "reassembler_update (peer r) (reas_state r h sb payload p) (packet_at r h sb payload sz p)
       (take p (msg_stream r h sb payload) @ drop p buffer) =
    (Ok (), (reas_state r h sb payload n, take n (msg_stream r h sb payload) @ drop n buffer))"
proof -
  let ?S = "msg_stream r h sb payload" and ?c = "header_channel_id h" and ?pk = "packet_at r h sb payload sz p"
  let ?body = "packet_body r h sb payload sz p"
  define k where "k = n - p"
  have k: "k = min (packet_room sz p) (length payload + CHECKSUM_LEN - p)" "n = p + k" "n \<le> length ?S"
    using p by (auto simp: k_def n_def)
  have pk: "?pk = header_bytes r (Continuation ?c) sync_bits_new @ ?body"
    using p by (simp add: packet_at_body packet_header_def)
  have parse: "header_parse (peer r) ?pk = Ok (Continuation ?c, ?body)"
    unfolding pk using s by (intro header_parse_bytes_continuation) (simp add: sendable_def header_channel_valid)
  have win: "take k ?body = take k (drop p ?S)"
    using k by (intro packet_body_window) simp_all
  have copy: "copy_at p (take k ?body) (take p ?S @ drop p buffer)
      = (Ok (take n ?S @ drop n buffer) :: bytes thp_result)"
    unfolding win using buf p k(2,3) by (simp add: take_drop_append min.absorb2 add.commute [of k p])
  have crc: "take p payload @ take (min (length payload - p) k) ?body = take n payload"
  proof -
    have "take (min (length payload - p) k) ?body = take (length payload - p) (take k (drop p ?S))"
      unfolding win [symmetric] by simp
    then show ?thesis by (auto simp: k(2) msg_stream_def take_add min_def)
  qed
  have "unat (header_payload_len h) = length payload + CHECKSUM_LEN" using s by (simp add: sendable_def)
  then show ?thesis
    using buf p k parse copy crc length_packet_body [of r h sb payload sz p]
    by (simp add: reassembler_update_def reas_state_def Let_def crc.feed_append [symmetric] del: copy_at_eq)
qed

section \<open>Whole messages\<close>

function packets_from :: "role \<Rightarrow> header \<Rightarrow> sync_bits \<Rightarrow> bytes \<Rightarrow> nat \<Rightarrow> nat \<Rightarrow> bytes list" where
  "packets_from r h sb payload sz p =
     (if length payload + CHECKSUM_LEN \<le> p \<or> sz < MIN_PACKET_SIZE then []
      else packet_at r h sb payload sz p
        # packets_from r h sb payload sz (min (p + packet_room sz p) (length payload + CHECKSUM_LEN)))"
  by pat_completeness auto

lemma packet_room_pos: "MIN_PACKET_SIZE \<le> sz \<Longrightarrow> 0 < packet_room sz p"
  by (auto simp: packet_room_def MIN_PACKET_SIZE_def header_consts new_ping_def)

termination packets_from
  by (relation "measure (\<lambda>(r, h, sb, payload, sz, p). length payload + CHECKSUM_LEN - p)")
    (auto intro!: diff_less_mono2 simp: packet_room_pos not_less)

declare packets_from.simps [simp del]

text \<open>
  The fragmenter takes \<open>offset == 0\<close> for the first packet, so the stream position is only
  tracked when the payload is not empty or the checksum fits beside the header.
\<close>

definition fits :: "bytes \<Rightarrow> nat \<Rightarrow> bool" where
  "fits payload sz \<longleftrightarrow>
     MIN_PACKET_SIZE \<le> sz \<and> (payload \<noteq> [] \<or> INIT_LEN + CHECKSUM_LEN \<le> sz)"

lemma fragment_loop_packets:
  assumes "sendable r h sb payload" "fits payload sz"
    and "p = 0 \<or> payload \<noteq> [] \<or> length payload + CHECKSUM_LEN \<le> p"
  shows "fragment_loop r (frag_state r h sb payload p) payload sz = Ok (packets_from r h sb payload sz p)"
  using assms
proof (induction "length payload + CHECKSUM_LEN - p" arbitrary: p rule: less_induct)
  case less
  show ?case
  proof (cases "length payload + CHECKSUM_LEN \<le> p")
    case True
    then show ?thesis
      using less.prems by (simp add: fragment_loop.simps packets_from.simps fragmenter_done_state)
  next
    case False
    let ?q = "min (p + packet_room sz p) (length payload + CHECKSUM_LEN)"
    have sz: "MIN_PACKET_SIZE \<le> sz" "0 < packet_room sz p"
      using less.prems(2) packet_room_pos by (auto simp: fits_def)
    have "?q = 0 \<or> payload \<noteq> [] \<or> length payload + CHECKSUM_LEN \<le> ?q"
      using less.prems(2,3) False by (auto simp: fits_def packet_room_def)
    moreover have "length payload + CHECKSUM_LEN - ?q < length payload + CHECKSUM_LEN - p"
      using False sz(2) by auto
    ultimately have "fragment_loop r (frag_state r h sb payload ?q) payload sz
        = Ok (packets_from r h sb payload sz ?q)"
      using less.hyps less.prems(1,2) by blast
    then show ?thesis
      using fragmenter_next_state [OF less.prems(1), of p "replicate sz 0"] less.prems False sz
      by (subst fragment_loop.simps, subst packets_from.simps) (auto simp: fragmenter_done_state)
  qed
qed

lemma fragment_packets:
  "sendable r h sb payload \<Longrightarrow> fits payload sz \<Longrightarrow>
     fragment r h sb payload sz = Ok (packets_from r h sb payload sz 0)"
  by (simp add: fragment_def fragmenter_new_state fragment_loop_packets)

lemma assemble_loop_packets:
  assumes "sendable r h sb payload" "MIN_PACKET_SIZE \<le> sz" "length payload + CHECKSUM_LEN \<le> length buffer"
    and "0 < p" "p \<le> length payload + CHECKSUM_LEN"
  shows "assemble_loop (peer r) (reas_state r h sb payload p) (packets_from r h sb payload sz p)
      (take p (msg_stream r h sb payload) @ drop p buffer) =
    Ok (reas_state r h sb payload (length payload + CHECKSUM_LEN),
        msg_stream r h sb payload @ drop (length payload + CHECKSUM_LEN) buffer)"
  using assms
proof (induction "length payload + CHECKSUM_LEN - p" arbitrary: p rule: less_induct)
  case less
  show ?case
  proof (cases "p = length payload + CHECKSUM_LEN")
    case True
    then show ?thesis by (simp add: packets_from.simps)
  next
    case False
    let ?q = "min (p + packet_room sz p) (length payload + CHECKSUM_LEN)"
    have "0 < packet_room sz p" using less.prems(2) by (rule packet_room_pos)
    then have "length payload + CHECKSUM_LEN - ?q < length payload + CHECKSUM_LEN - p" "0 < ?q"
      using False less.prems by auto
    then show ?thesis
      using less.hyps [of ?q] less.prems False
        reassembler_update_packet [OF less.prems(1,3,4) _ refl, of sz]
      by (subst packets_from.simps) (simp add: reassembler_done_state)
  qed
qed

lemma reassembler_verify_state:
  assumes "sendable r h sb payload"
  shows "reassembler_verify (reas_state r h sb payload (length payload + CHECKSUM_LEN))
      (msg_stream r h sb payload @ rest) = Ok (length payload)"
proof -
  have "unat (header_payload_len h) = length payload + CHECKSUM_LEN"
    using assms by (simp add: sendable_def)
  then show ?thesis
    by (simp add: reassembler_verify_def reassembler_is_done_def reas_state_def msg_stream_def
        crc32_digest_def)
qed

lemma assemble_packets:
  assumes s: "sendable r h sb payload" and "MIN_PACKET_SIZE \<le> sz"
    and "length payload + CHECKSUM_LEN \<le> max_message"
  shows "assemble (peer r) (packets_from r h sb payload sz 0) max_message = Ok payload"
proof -
  let ?q = "min (packet_room sz 0) (length payload + CHECKSUM_LEN)"
  have "0 < ?q" using packet_room_pos [OF assms(2), of 0] by (simp add: CHECKSUM_LEN_def)
  then show ?thesis
    using assms reassembler_new_packet [OF s _ refl, of "replicate max_message 0" sz]
      assemble_loop_packets [OF s assms(2), of "replicate max_message 0" ?q] reassembler_verify_state [OF s]
    by (subst packets_from.simps) (simp add: assemble_def reassembler_done_state, simp add: msg_stream_def)
qed

section \<open>Arbitrary input\<close>

text \<open>
  What the receiver knows about packets it did not send: \<open>stream_inv\<close> relates its state to
  the bytes that followed the headers of the packets handed to it so far.
\<close>

definition stream_inv :: "bytes \<Rightarrow> bytes \<Rightarrow> reassembler \<Rightarrow> bytes \<Rightarrow> bool" where
  "stream_inv hdr str x buffer \<longleftrightarrow>
     (let plen = unat (header_payload_len (reas_header x)) in
      reas_offset x = min plen (length str) \<and> reas_offset x \<le> length buffer
      \<and> take (reas_offset x) buffer = take plen str
      \<and> reas_checksum x = crc32_update (hdr @ take (plen - CHECKSUM_LEN) str) crc32_new)"

lemma reassembler_new_Ok:
  assumes "reassembler_new r input buffer = (Ok x, buffer')"
  obtains rest where "header_parse r input = Ok (reas_header x, rest)"
    "\<not> header_is_continuation (reas_header x)" "reas_sync_bits x = sync_bits_from_u8 (hd input)"
    "length rest \<le> length buffer" "buffer' = rest @ drop (length rest) buffer"
    "reas_offset x = length rest" "INIT_LEN \<le> length input"
    "reas_checksum x = crc32_update (take INIT_LEN input
       @ take (unat (header_payload_len (reas_header x)) - CHECKSUM_LEN) rest) crc32_new"
proof -
  have init: "header_len h = INIT_LEN" if "\<not> header_is_continuation h" for h
    using that by (cases h) simp_all
  show thesis
    using assms
    by (cases input)
      (auto simp: reassembler_new_def and_then_st_eq_Ok Let_def crc.feed_append init intro!: that
        split: if_split_asm)
qed

lemma reassembler_new_length: "length (snd (reassembler_new r input buffer)) = length buffer"
  by (cases "header_parse r input"; cases "sync_bits_from_bytes input")
    (auto simp: reassembler_new_def Let_def slice_to_def split: if_splits)

lemma reassembler_new_no_panic [no_panic_intros]:
  assumes "INIT_LEN \<le> length input"
  shows "fst (reassembler_new r input buffer) \<noteq> Panic"
proof -
  have "header_len h \<le> length input" for h using assms header_len_le [of h] by (simp add: header_consts)
  then show ?thesis
    by (cases "header_parse r input"; cases "sync_bits_from_bytes input")
      (auto simp: reassembler_new_def Let_def split: if_splits)
qed

lemma stream_inv_new:
  assumes "reassembler_new r input buffer = (Ok x, buffer')" and "header_is_init (reas_header x)"
  shows "stream_inv (take INIT_LEN input) (drop INIT_LEN input) x buffer'"
proof -
  obtain rest where *: "header_parse r input = Ok (reas_header x, rest)"
    "length rest \<le> length buffer" "buffer' = rest @ drop (length rest) buffer"
    "reas_offset x = length rest" "INIT_LEN \<le> length input"
    "reas_checksum x = crc32_update (take INIT_LEN input
       @ take (unat (header_payload_len (reas_header x)) - CHECKSUM_LEN) rest) crc32_new"
    using reassembler_new_Ok [OF assms(1)] by metis
  have "rest = take (unat (header_payload_len (reas_header x))) (drop INIT_LEN input)"
    using header_parse_Ok(3) [OF *(1) assms(2)] by (auto simp: header_consts)
  then show ?thesis
    using * by (auto simp: stream_inv_def Let_def min_def)
qed

lemma reassembler_update_Ok:
  assumes "reassembler_update r x input buffer = (Ok u, (x', buffer'))"
  obtains rest where "header_parse r input = Ok (Continuation (header_channel_id (reas_header x)), rest)"
    "unat (header_payload_len (reas_header x)) \<le> length buffer"
    "copy_at (reas_offset x) (take (unat (header_payload_len (reas_header x)) - reas_offset x) rest) buffer
       = (Ok buffer' :: bytes thp_result)"
    "x' = x\<lparr>reas_checksum := crc32_update
         (take (unat (header_payload_len (reas_header x)) - reas_offset x - CHECKSUM_LEN) rest) (reas_checksum x),
       reas_offset := reas_offset x + min (length rest) (unat (header_payload_len (reas_header x)) - reas_offset x)\<rparr>"
proof -
  have cont: "h = Continuation (header_channel_id h)" if "header_is_continuation h" for h
    using that by (cases h) simp_all
  have tk: "take (min (n - m) (min (length ys) n)) ys = take (n - m) ys" for n m and ys :: bytes
    by (auto simp: min_def)
  have tk': "take (min (length ys) n) ys = take n ys" for n and ys :: bytes
    by (auto simp: min_def)
  show thesis
    using assms
    by (auto simp: reassembler_update_def and_then_st_eq_Ok Let_def tk tk' intro!: that
        split: if_split_asm dest!: cont simp del: copy_at_eq)
qed

lemma stream_inv_update:
  assumes inv: "stream_inv hdr str x buffer"
    and up: "reassembler_update r x input buffer = (Ok u, (x', buffer'))"
  shows "stream_inv hdr (str @ drop CONT_LEN input) x' buffer'" "reas_header x' = reas_header x"
    "length buffer' = length buffer"
proof -
  obtain rest where *: "header_parse r input = Ok (Continuation (header_channel_id (reas_header x)), rest)"
    "unat (header_payload_len (reas_header x)) \<le> length buffer"
    "copy_at (reas_offset x) (take (unat (header_payload_len (reas_header x)) - reas_offset x) rest) buffer
       = (Ok buffer' :: bytes thp_result)"
    "x' = x\<lparr>reas_checksum := crc32_update
         (take (unat (header_payload_len (reas_header x)) - reas_offset x - CHECKSUM_LEN) rest) (reas_checksum x),
       reas_offset := reas_offset x + min (length rest) (unat (header_payload_len (reas_header x)) - reas_offset x)\<rparr>"
    using reassembler_update_Ok [OF up] by metis
  have rest: "drop CONT_LEN input = rest"
    using header_parse_Ok(4) [OF *(1)] by (auto simp: header_consts)
  let ?n = "unat (header_payload_len (reas_header x))"
  have pos: "reas_offset x = min ?n (length str)" "take (reas_offset x) buffer = take ?n str"
    "reas_checksum x = crc32_update (hdr @ take (?n - CHECKSUM_LEN) str) crc32_new"
    using inv unfolding stream_inv_def Let_def by blast+
  have crc: "hdr @ take (?n - CHECKSUM_LEN) (str @ rest) =
      (hdr @ take (?n - CHECKSUM_LEN) str) @ take (?n - reas_offset x - CHECKSUM_LEN) rest"
    by (auto simp: pos(1) min_def add.commute)
  have buf: "buffer' = take (reas_offset x) buffer @ take (?n - reas_offset x) rest
      @ drop (reas_offset x + length (take (?n - reas_offset x) rest)) buffer"
    using *(3) by (auto simp: copy_at_def split: if_splits)
  show "length buffer' = length buffer" using *(3) by (rule copy_at_length)
  show "reas_header x' = reas_header x" by (simp add: *(4))
  have "reas_offset x' = min ?n (length (str @ rest))" "reas_offset x' \<le> ?n"
    using pos(1) by (auto simp: *(4) min_def)
  moreover have "take (reas_offset x') buffer' = take ?n (str @ rest)"
    using pos(1,2) *(2) by (auto simp: buf *(4) min_def)
  ultimately show "stream_inv hdr (str @ drop CONT_LEN input) x' buffer'"
    using *(2) copy_at_length [OF *(3)] crc
    by (simp add: stream_inv_def Let_def rest *(4) pos(3) crc.feed_append [symmetric])
qed

text \<open>The invariant of a reassembler by itself, without the bytes it has seen.\<close>

definition reas_wf :: "reassembler \<Rightarrow> bool" where
  "reas_wf x \<longleftrightarrow> header_wf (reas_header x) \<and> header_is_init (reas_header x)
     \<and> reas_offset x \<le> unat (header_payload_len (reas_header x))"

lemma reassembler_update_safe [no_panic_intros]:
  assumes "reas_wf x"
  shows "safely (\<lambda>(x', buffer'). reas_wf x' \<and> reas_header x' = reas_header x \<and> length buffer' = length buffer)
    (reassembler_update r x input buffer)"
  using assms
  by (cases "header_parse r input")
    (auto simp: reassembler_update_def Let_def copy_at_def reas_wf_def)

lemma reassembler_new_wf:
  assumes "reassembler_new r input buffer = (Ok x, buffer')" and "header_is_init (reas_header x)"
  shows "reas_wf x"
proof -
  obtain rest where "header_parse r input = Ok (reas_header x, rest)" "reas_offset x = length rest"
    using reassembler_new_Ok [OF assms(1)] by metis
  then show ?thesis
    using header_parse_Ok(2,3) [of r input "reas_header x" rest] assms(2) by (auto simp: reas_wf_def)
qed

lemma reassembler_update_Err:
  "fst (reassembler_update r x input buffer) = Err e \<Longrightarrow> snd (reassembler_update r x input buffer) = (x, buffer)"
  by (cases "header_parse r input")
    (auto simp: reassembler_update_def Let_def copy_at_def split: if_splits)

lemma reassembler_verify_no_panic [simp]: "reassembler_verify x buffer \<noteq> Panic"
  by (auto simp: reassembler_verify_def Let_def split: option.splits if_splits)

lemma reassembler_verify_sound:
  assumes inv: "stream_inv hdr str x buffer" and h: "header_wf (reas_header x)" "header_is_init (reas_header x)"
    and "reassembler_verify x buffer = Ok n"
  shows "n + CHECKSUM_LEN = unat (header_payload_len (reas_header x))"
    "take n buffer @ crc32_digest (hdr @ take n buffer) = take (n + CHECKSUM_LEN) str"
    "length (take n buffer) = n"
proof -
  let ?p = "unat (header_payload_len (reas_header x))"
  have n: "?p \<le> reas_offset x" "n = ?p - CHECKSUM_LEN"
    "crc32_finalize (reas_checksum x) = take CHECKSUM_LEN (drop n buffer)"
    using assms(4) by (auto simp: reassembler_verify_def reassembler_is_done_def Let_def
        split: if_splits option.splits)
  show len: "n + CHECKSUM_LEN = ?p"
    using n(2) init_payload_len_bounds [OF h] by (simp add: CHECKSUM_LEN_def)
  have buf: "take ?p buffer = take ?p str" "?p \<le> length buffer" "?p \<le> length str"
    "reas_checksum x = crc32_update (hdr @ take n str) crc32_new"
    using inv n(1,2) by (auto simp: stream_inv_def Let_def)
  show "length (take n buffer) = n" using buf(2) len by simp
  have "take n buffer = take n str"
    using buf(1) len by (metis le_add1 min.absorb1 take_take)
  moreover have "take CHECKSUM_LEN (drop n buffer) = take CHECKSUM_LEN (drop n str)"
    using buf(1) len by (metis add.commute take_drop)
  ultimately show "take n buffer @ crc32_digest (hdr @ take n buffer) = take (n + CHECKSUM_LEN) str"
    using n(3) buf(4) by (simp add: crc32_digest_def take_add)
qed

lemma assemble_loop_inv:
  assumes "stream_inv hdr str x buffer" "assemble_loop r x packets buffer = Ok (x', buffer')"
  shows "stream_inv hdr (str @ concat (map (drop CONT_LEN) packets)) x' buffer'"
    "reas_header x' = reas_header x"
  using assms
proof (induction packets arbitrary: str x buffer)
  case (Cons p packets)
  case 1
  then show ?case
    using Cons.IH(1) [OF stream_inv_update(1)]
    by (force split: if_splits prod.splits result.splits)
next
  case (Cons p packets)
  case 2
  then show ?case
    using Cons.IH(2) [OF stream_inv_update(1)] stream_inv_update(2)
    by (force split: if_splits prod.splits result.splits)
qed simp_all

section \<open>Single packets\<close>


lemma reassembler_single_no_panic [no_panic_intros]:
  assumes "INIT_LEN \<le> length buf"
  shows "reassembler_single r buf \<noteq> Panic"
proof -
  have "header_len h \<le> length buf" for h using assms header_len_le [of h] by (simp add: header_consts)
  then show ?thesis
    by (cases "header_parse r buf") (auto simp: reassembler_single_def Let_def and_then_eq_Panic
      split: if_splits)
qed

lemma header_parse_not_codec:
  assumes "header_parse r buf = Ok (h, rest)" "parse_cb_channel buf = Ok (cb, c, tail)" "\<not> cb_is_codec_v1 cb"
  shows "header_is_init h \<or> header_is_continuation h" "header_len h \<le> length buf" "header_channel_id h = c"
proof -
  show *: "header_is_init h \<or> header_is_continuation h"
    using assms
    by (auto simp: header_parse_def Let_def parse_broadcast_def parse_unicast_def parse_single_def
        split: if_splits option.splits)
  have "buf = cb_byte cb # u16_to_be c @ tail"
    using assms(2) by (simp add: parse_cb_channel_Ok)
  then show "header_len h \<le> length buf" "header_channel_id h = c"
    using * header_parse_Ok(3,4) [OF assms(1)]
    by (cases h; auto simp: header_consts)+
qed

lemma reassembler_not_codec_no_panic:
  assumes "parse_cb_channel buf = Ok (cb, c, tail)" "\<not> cb_is_codec_v1 cb"
  shows "reassembler_single r buf \<noteq> Panic" "fst (reassembler_new r buf buffer) \<noteq> Panic"
proof -
  have len: "header_len h \<le> length buf" if "header_parse r buf = Ok (h, rest)" for h rest
    using header_parse_not_codec(2) [OF that assms] .
  show "reassembler_single r buf \<noteq> Panic"
    by (cases "header_parse r buf")
      (auto simp: reassembler_single_def Let_def and_then_eq_Panic dest!: len split: if_splits)
  show "fst (reassembler_new r buf buffer) \<noteq> Panic"
    by (cases "header_parse r buf"; cases "sync_bits_from_bytes buf")
      (auto simp: reassembler_new_def Let_def dest!: len split: if_splits)
qed

lemma fragmenter_next_no_panic [simp]: "fst (fragmenter_next r f payload dest) \<noteq> Panic"
proof -
  have "fst (fragmenter_put_header r f dest) \<noteq> Panic"
    by (cases "new_continuation (header_channel_id (frag_header f))")
      (auto simp: fragmenter_put_header_def header_to_bytes_eq)
  then show ?thesis
    by (cases "fragmenter_put_header r f dest"; cases "fst (fragmenter_put_header r f dest)")
      (auto simp: fragmenter_next_def case_prod_unfold Let_def)
qed

lemma fragmenter_single_no_panic [simp]: "fst (fragmenter_single r h sb payload dest) \<noteq> Panic"
proof -
  have "fst (and_then_st (res, d) (\<lambda>_ dest. if P then (Err InsufficientBuffer, dest) else (Ok (), dest))) \<noteq> Panic"
    if "res \<noteq> Panic" for res :: "bool thp_result" and d :: bytes and P
    using that by (cases res) auto
  moreover have "fragmenter_new h sb payload \<noteq> Panic" by (simp add: fragmenter_new_def)
  ultimately show ?thesis
    by (cases "fragmenter_new h sb payload") (simp_all add: fragmenter_single_def case_prod_unfold Let_def)
qed

text \<open>A single packet that was written completely is read back completely.\<close>

lemma fragmenter_single_packet:
  assumes s: "sendable r h sb payload" and "INIT_LEN + length payload + CHECKSUM_LEN \<le> length dest"
  shows "fragmenter_single r h sb payload dest = (Ok (), packet_at r h sb payload (length dest) 0)"
proof -
  have "MIN_PACKET_SIZE \<le> length dest" "min (packet_room (length dest) 0) (length payload + CHECKSUM_LEN)
      = length payload + CHECKSUM_LEN"
    using assms(2) by (auto simp: MIN_PACKET_SIZE_def new_ping_def header_consts CHECKSUM_LEN_def packet_room_def)
  then show ?thesis
    using fragmenter_next_state [OF s, of 0 dest] fragmenter_done_state [OF s]
    by (simp add: fragmenter_single_def fragmenter_new_state [OF s] CHECKSUM_LEN_def)
qed

lemma reassembler_single_packet:
  assumes s: "sendable r h sb payload" and "INIT_LEN + length payload + CHECKSUM_LEN \<le> sz"
  shows "reassembler_single (peer r) (packet_at r h sb payload sz 0) = Ok (h, payload)"
proof -
  let ?hb = "header_bytes r h sb"
  have room: "length payload + CHECKSUM_LEN \<le> packet_room sz 0"
    using assms(2) by (simp add: packet_room_def header_consts)
  have hb: "header_len h = INIT_LEN" "length ?hb = INIT_LEN"
    using sendable_init [OF s] by (simp_all add: length_header_bytes)
  have plen: "unat (header_payload_len h) = length payload + CHECKSUM_LEN" "\<not> header_is_continuation h"
    using s by (cases h; auto simp: sendable_def)+
  have "header_parse (peer r) (packet_at r h sb payload sz 0) = Ok (h, msg_stream r h sb payload)"
    using header_parse_bytes [of h sb r "packet_body r h sb payload sz 0"] s plen room
      take_packet_body [of payload 0 r h sb sz]
    by (simp add: packet_at_body packet_header_def sendable_def)
  then show ?thesis
    using plen hb
    by (simp add: reassembler_single_def packet_at_body packet_header_def)
      (simp add: msg_stream_def crc32_digest_def crc.feed_append)
qed



section \<open>Properties\<close>

text \<open>
  C7. Fragmentation and reassembly are inverse: every message that the header admits, cut by
  one role into packets of any size from six bytes on, is put together again by the other
  role, and every packet has exactly the requested size. (An empty payload needs packets in
  which the checksum fits beside the header.)
\<close>

theorem fragment_assemble_roundtrip:
  assumes "sendable r h sb payload" "fits payload packet_size"
    and "length payload + CHECKSUM_LEN \<le> max_message"
  shows "\<exists>packets. fragment r h sb payload packet_size = Ok packets
    \<and> list_all (\<lambda>p. length p = packet_size) packets
    \<and> assemble (peer r) packets max_message = Ok payload"
proof -
  have "length (packet_at r h sb payload packet_size p) = packet_size" for p
    using assms(2) length_packet_header [OF assms(1), of p]
    by (auto simp: packet_at_body length_packet_body packet_room_def fits_def MIN_PACKET_SIZE_def
        new_ping_def header_consts)
  then have "list_all (\<lambda>p. length p = packet_size) (packets_from r h sb payload packet_size p)" for p
    by (induction r h sb payload packet_size p rule: packets_from.induct)
      (subst packets_from.simps, simp)
  then show ?thesis
    using fragment_packets [OF assms(1,2)] assemble_packets [OF assms(1) _ assms(3)] assms(2)
    by (simp add: fits_def)
qed

theorem fragment_assemble_roundtrip_witness:
  "\<exists>packets. fragment Host (Encrypted 0x1234 9) (SyncBits 0x10) [1, 2, 3, 4, 5] 7 = Ok packets
    \<and> list_all (\<lambda>p. length p = 7) packets \<and> assemble Device packets 16 = Ok [1, 2, 3, 4, 5]"
  using fragment_assemble_roundtrip [of Host "Encrypted 0x1234 9" "SyncBits 0x10" "[1, 2, 3, 4, 5]" 7 16]
  by (simp add: sendable_def fits_def sync_bits_wf_def unicast_valid_def channel_id_valid_def
      length_valid_def header_consts header_control_byte_def MIN_PACKET_SIZE_def new_ping_def CHECKSUM_LEN_def)

text \<open>
  C23. What the reassembler accepts from an arbitrary sender: if a sequence of packets whose
  first one has an initiation header is accepted as a message, then the message and its
  CRC-32 (over the first five bytes and the message) are, in this order, the bytes that
  follow the packet headers, and the length is the announced one.
\<close>

theorem assemble_sound:
  assumes "assemble r (p # packets) max_message = Ok msg"
    and "header_parse r p = Ok (h, rest)" "header_is_init h"
  shows "take (unat (header_payload_len h)) (drop INIT_LEN p @ concat (map (drop CONT_LEN) packets))
    = msg @ crc32_digest (take INIT_LEN p @ msg)"
proof -
  obtain x buf x' buf' n where new: "reassembler_new r p (replicate max_message 0) = (Ok x, buf)"
    and loop: "assemble_loop r x packets buf = Ok (x', buf')"
    and v: "reassembler_verify x' buf' = Ok n" "msg = take n buf'"
    using assms(1) by (auto simp: assemble_def map_ok_def split: prod.splits result.splits if_splits)
  have x: "reas_header x = h"
    using reassembler_new_Ok [OF new] assms(2) by fastforce
  have inv: "stream_inv (take INIT_LEN p) (drop INIT_LEN p @ concat (map (drop CONT_LEN) packets)) x' buf'"
    "reas_header x' = h"
    using assemble_loop_inv [OF stream_inv_new [OF new] loop] assms(3) x by simp_all
  have "header_wf h" using header_parse_Ok(2) [OF assms(2)] .
  then show ?thesis
    using reassembler_verify_sound [OF inv(1) _ _ v(1)] inv(2) assms(3) v(2) by simp
qed

theorem assemble_sound_witness:
  "take 5 ([7, 0xac, 0x29, 0x29, 0x47, 0, 0] @ []) =
     [7] @ crc32_digest ([0x04, 0x12, 0x34, 0x00, 0x05] @ [7])"
proof -
  have "assemble Device [[0x04, 0x12, 0x34, 0x00, 0x05, 7, 0xac, 0x29, 0x29, 0x47, 0, 0]] 8 = Ok [7]"
    by code_simp
  moreover have "header_parse Device [0x04, 0x12, 0x34, 0x00, 0x05, 7, 0xac, 0x29, 0x29, 0x47, 0, 0]
      = Ok (Encrypted 0x1234 5, [7, 0xac, 0x29, 0x29, 0x47])"
    by code_simp
  ultimately show ?thesis
    using assemble_sound [of Device "[0x04, 0x12, 0x34, 0x00, 0x05, 7, 0xac, 0x29, 0x29, 0x47, 0, 0]" "[]" 8 "[7]"]
    by (simp add: header_consts)
qed




end
