(* ===== verification/Thp_Noise.thy ===== *)
theory Thp_Noise
  imports Thp_Fragment
begin

text \<open>
  The secure layer, \<open>rust/trezor-thp/src/channel/noise.rs\<close>, with \<open>PairingState\<close> of
  \<open>channel/mod.rs\<close>, \<open>credential.rs\<close> and \<open>util.rs\<close>. The Noise library
  (\<open>trezor_noise_protocol\<close>) and the cipher, curve and hash behind the \<open>Backend\<close> trait are not
  part of the repository: they are the fields of the record \<open>backend\<close>, an argument of every
  operation that calls them. \<open>backend_ok\<close> states what the code relies on, lengths mostly.

  \<^item> \<open>'c\<close> is the library's \<open>CipherState\<close> and \<open>'h\<close> its \<open>HandshakeState\<close>; the randomness the
    library draws by itself is part of its state.
  \<^item> Keys that the crate generates with \<open>genkey\<close> are arguments.
\<close>

section \<open>Constants, credentials and pairing state\<close>

definition HANDSHAKE_HASH_LEN :: nat where "HANDSHAKE_HASH_LEN = 32"
definition PRIVKEY_LEN :: nat where "PRIVKEY_LEN = 32"
definition PUBKEY_LEN :: nat where "PUBKEY_LEN = 32"
definition TAG_LEN :: nat where "TAG_LEN = 16"
definition MAX_DEVICE_PROPERTIES_LEN :: nat where "MAX_DEVICE_PROPERTIES_LEN = 64"
definition MAX_CREDENTIAL_LEN :: nat where "MAX_CREDENTIAL_LEN = 128"

lemmas noise_consts =
  HANDSHAKE_HASH_LEN_def PRIVKEY_LEN_def PUBKEY_LEN_def TAG_LEN_def MAX_DEVICE_PROPERTIES_LEN_def
  MAX_CREDENTIAL_LEN_def

text \<open>\<open>util.rs\<close>: a \<open>heapless::Vec\<close> of the given capacity, cleared and filled with zeros.\<close>

definition prepare_zeroed :: "nat \<Rightarrow> bytes" where
  "prepare_zeroed capacity = replicate capacity 0"

definition max_usize :: "nat \<Rightarrow> nat \<Rightarrow> nat" where
  "max_usize lhs rhs = (if lhs > rhs then lhs else rhs)"

datatype pairing_state = Unpaired | Paired | PairedAutoconnect

definition is_paired :: "pairing_state \<Rightarrow> bool" where
  "is_paired p \<longleftrightarrow> p \<noteq> Unpaired"

definition pairing_state_from_u8 :: "u8 \<Rightarrow> pairing_state thp_result" where
  "pairing_state_from_u8 val =
     (if val = 0 then Ok Unpaired
      else if val = 1 then Ok Paired
      else if val = 2 then Ok PairedAutoconnect
      else Err MalformedData)"

definition pairing_state_from_bytes :: "bytes \<Rightarrow> pairing_state thp_result" where
  "pairing_state_from_bytes bs =
     (case bs of [n] \<Rightarrow> pairing_state_from_u8 n | _ \<Rightarrow> Err MalformedData)"

fun pairing_state_to_u8 :: "pairing_state \<Rightarrow> u8" where
  "pairing_state_to_u8 Unpaired = 0"
| "pairing_state_to_u8 Paired = 1"
| "pairing_state_to_u8 PairedAutoconnect = 2"

text \<open>
  The two traits of \<open>credential.rs\<close>: a store looks up the local key and the credential for
  the remote (ephemeral, masked static) keys, a verifier judges a credential.
\<close>

type_synonym credential_store = "bytes \<Rightarrow> bytes \<Rightarrow> (bytes \<times> bytes) option"
type_synonym credential_verifier = "bytes \<Rightarrow> bytes \<Rightarrow> pairing_state"

definition null_credential_store :: credential_store where
  "null_credential_store ephemeral masked_static = None"

section \<open>The library behind the secure layer\<close>

record ('c, 'h) backend =
  encrypt_ad_in_place :: "'c \<Rightarrow> bytes \<Rightarrow> bytes \<Rightarrow> nat \<Rightarrow> bytes \<times> 'c"
  decrypt_ad_in_place :: "'c \<Rightarrow> bytes \<Rightarrow> bytes \<Rightarrow> nat \<Rightarrow> nat option \<times> bytes \<times> 'c"
  hs_new :: "bool \<Rightarrow> bytes \<Rightarrow> 'h"
  hs_overhead :: "'h \<Rightarrow> nat"
  hs_write_message :: "'h \<Rightarrow> bytes \<Rightarrow> bytes \<Rightarrow> (unit, noise_error_kind) result \<times> ('h \<times> bytes)"
  hs_read_message :: "'h \<Rightarrow> bytes \<Rightarrow> bytes \<Rightarrow> (unit, noise_error_kind) result \<times> ('h \<times> bytes)"
  hs_get_rs :: "'h \<Rightarrow> bytes option"
  hs_get_re :: "'h \<Rightarrow> bytes option"
  hs_set_s :: "bytes \<Rightarrow> 'h \<Rightarrow> 'h"
  hs_set_s_mask :: "bytes \<Rightarrow> 'h \<Rightarrow> 'h"
  hs_set_e :: "bytes \<Rightarrow> 'h \<Rightarrow> 'h"
  hs_completed :: "'h \<Rightarrow> bool"
  hs_get_ciphers :: "'h \<Rightarrow> 'c \<times> 'c"
  hs_get_hash :: "'h \<Rightarrow> bytes"
  dh_pubkey :: "bytes \<Rightarrow> bytes"
  hash_result :: "bytes \<Rightarrow> bytes"

text \<open>
  What the crate relies on: buffers keep their length, a decrypted message is not longer
  than its buffer, keys and hashes have the sizes of X25519 and SHA-256, the library does
  not panic.
\<close>

definition backend_ok :: "('c, 'h) backend \<Rightarrow> bool" where
  "backend_ok B \<longleftrightarrow>
     (\<forall>c ad buf n. length (fst (encrypt_ad_in_place B c ad buf n)) = length buf)
     \<and> (\<forall>c ad buf n m buf' c'. decrypt_ad_in_place B c ad buf n = (m, buf', c') \<longrightarrow>
          length buf' = length buf \<and> (\<forall>k. m = Some k \<longrightarrow> k \<le> length buf))
     \<and> (\<forall>h p d. fst (hs_write_message B h p d) \<noteq> Panic
          \<and> length (snd (snd (hs_write_message B h p d))) = length d)
     \<and> (\<forall>h p d. fst (hs_read_message B h p d) \<noteq> Panic
          \<and> length (snd (snd (hs_read_message B h p d))) = length d)
     \<and> (\<forall>h k. hs_get_rs B h = Some k \<longrightarrow> length k = PUBKEY_LEN)
     \<and> (\<forall>h. length (hs_get_hash B h) = HANDSHAKE_HASH_LEN)
     \<and> (\<forall>x. length (hash_result B x) = PRIVKEY_LEN)"

section \<open>Ciphers\<close>

record 'c noise_ciphers =
  nc_encrypt :: 'c
  nc_decrypt :: 'c
  nc_handshake_hash :: bytes
  nc_remote_static_pubkey :: bytes

definition noise_encrypt ::
  "('c, 'h) backend \<Rightarrow> 'c noise_ciphers \<Rightarrow> bytes \<Rightarrow> nat \<Rightarrow> unit thp_result \<times> ('c noise_ciphers \<times> bytes)" where
  "noise_encrypt B nc in_out plaintext_len =
     (if length in_out < plaintext_len + TAG_LEN then (Err InsufficientBuffer, (nc, in_out))
      else
        let (in_out, c) = encrypt_ad_in_place B (nc_encrypt nc) [] in_out plaintext_len
        in (Ok (), (nc\<lparr>nc_encrypt := c\<rparr>, in_out)))"

definition noise_decrypt ::
  "('c, 'h) backend \<Rightarrow> 'c noise_ciphers \<Rightarrow> bytes \<Rightarrow> nat thp_result \<times> ('c noise_ciphers \<times> bytes)" where
  "noise_decrypt B nc in_out =
     (if length in_out < TAG_LEN then (Err MalformedData, (nc, in_out))
      else
        let (n, in_out, c) = decrypt_ad_in_place B (nc_decrypt nc) [] in_out (length in_out)
        in (ok_or CryptoError n, (nc\<lparr>nc_decrypt := c\<rparr>, in_out)))"

section \<open>Handshake\<close>

fun map_err :: "('e \<Rightarrow> 'f) \<Rightarrow> ('a, 'e) result \<Rightarrow> ('a, 'f) result" where
  "map_err g (Ok x) = Ok x"
| "map_err g (Err e) = Err (g e)"
| "map_err g Panic = Panic"

text \<open>\<open>hss.write_message\<close> into the first \<open>len\<close> bytes of a buffer.\<close>

definition write_message_to ::
  "('c, 'h) backend \<Rightarrow> 'h \<Rightarrow> bytes \<Rightarrow> nat \<Rightarrow> bytes \<Rightarrow> unit thp_result \<times> ('h \<times> bytes)" where
  "write_message_to B hss payload len dest =
     (if length dest < len then (Err InsufficientBuffer, (hss, dest))
      else
        let (res, (hss, msg)) = hs_write_message B hss payload (take len dest)
        in (map_err from_noise_error res, (hss, msg @ drop len dest)))"

text \<open>The slice-to-array conversions \<open>try_into().unwrap()\<close>.\<close>

definition to_array :: "nat \<Rightarrow> bytes \<Rightarrow> bytes thp_result" where
  "to_array n bs = (if length bs = n then Ok bs else Panic)"

subsection \<open>Host\<close>

definition write_initiation_request ::
  "('c, 'h) backend \<Rightarrow> bytes \<Rightarrow> bool \<Rightarrow> bytes \<Rightarrow> ('h \<times> nat) thp_result \<times> bytes" where
  "write_initiation_request B device_properties try_to_unlock dest =
     (let payload = [of_bool try_to_unlock];
          hss = hs_new B True device_properties;
          len = hs_overhead B hss + length payload;
          (res, (hss, dest)) = write_message_to B hss payload len dest
      in (map_ok (\<lambda>_. (hss, len)) res, dest))"

definition credential_from_store ::
  "credential_store \<Rightarrow> bytes \<Rightarrow> bytes \<Rightarrow> bytes \<Rightarrow> (bytes \<times> bytes) thp_result" where
  "credential_from_store cs re rs new_key =
     (case cs re rs of
        Some (found_key, found_credential) \<Rightarrow>
          if length found_credential > MAX_CREDENTIAL_LEN then Err InsufficientBuffer
          else Ok (found_key, found_credential)
      | None \<Rightarrow> Ok (new_key, []))"

definition write_completion_request ::
  "('c, 'h) backend \<Rightarrow> 'h \<Rightarrow> credential_store \<Rightarrow> bytes \<Rightarrow> bytes \<Rightarrow> bytes
     \<Rightarrow> ('c noise_ciphers \<times> nat) thp_result \<times> ('h \<times> bytes)" where
  "write_completion_request B hss cred_store new_key receive_buffer send_buffer =
     (if length receive_buffer \<noteq> hs_overhead B hss then (Err MalformedData, (hss, send_buffer))
      else
        let (res, (hss, _)) = hs_read_message B hss receive_buffer [] in
        and_then_st (map_err from_noise_error res, (hss, send_buffer)) (\<lambda>_ (hss, send_buffer).
        and_then_st (ok_or CryptoError (hs_get_rs B hss), (hss, send_buffer)) (\<lambda>remote_static (hss, send_buffer).
        and_then_st (ok_or CryptoError (hs_get_re B hss), (hss, send_buffer)) (\<lambda>remote_ephemeral (hss, send_buffer).
        and_then_st (credential_from_store cred_store remote_ephemeral remote_static new_key, (hss, send_buffer))
          (\<lambda>(local_static, pairing_credential) (hss, send_buffer).
        let hss = hs_set_s B local_static hss;
            send_buffer = replicate (length send_buffer) 0;
            len = hs_overhead B hss + length pairing_credential
        in and_then_st (write_message_to B hss pairing_credential len send_buffer) (\<lambda>_ (hss, send_buffer).
        if \<not> hs_completed B hss then (Err CryptoError, (hss, send_buffer))
        else
          let (encrypt, decrypt) = hs_get_ciphers B hss in
          and_then_st (to_array HANDSHAKE_HASH_LEN (hs_get_hash B hss), (hss, send_buffer)) (\<lambda>handshake_hash st.
          and_then_st (to_array PUBKEY_LEN remote_static, st) (\<lambda>remote_static_pubkey st.
          (Ok (\<lparr>nc_encrypt = encrypt, nc_decrypt = decrypt, nc_handshake_hash = handshake_hash,
                nc_remote_static_pubkey = remote_static_pubkey\<rparr>, len), st)))))))))"

subsection \<open>Device\<close>

definition prepare_responder :: "('c, 'h) backend \<Rightarrow> bytes \<Rightarrow> 'h" where
  "prepare_responder B device_properties = hs_new B False device_properties"

definition read_initiation_request :: "('c, 'h) backend \<Rightarrow> 'h \<Rightarrow> bytes \<Rightarrow> bool thp_result \<times> 'h" where
  "read_initiation_request B hss incoming =
     (if length incoming \<noteq> hs_overhead B hss + 1 then (Err MalformedData, hss)
      else
        let (res, (hss, payload)) = hs_read_message B hss incoming [0]
        in (map_ok (\<lambda>_. payload ! 0 AND 0x01 = 0x01) (map_err from_noise_error res), hss))"

record mask_key_result =
  mk_static_privkey :: bytes
  mk_ephemeral_privkey :: bytes
  mk_mask :: bytes

definition hash_of_two :: "('c, 'h) backend \<Rightarrow> bytes \<Rightarrow> bytes \<Rightarrow> bytes thp_result" where
  "hash_of_two B in1 in2 = to_array PRIVKEY_LEN (hash_result B (in1 @ in2))"

definition mask_key :: "('c, 'h) backend \<Rightarrow> bytes \<Rightarrow> bytes \<Rightarrow> mask_key_result thp_result" where
  "mask_key B static_privkey ephemeral_privkey =
     (let static_pubkey = dh_pubkey B static_privkey;
          ephemeral_pubkey = dh_pubkey B ephemeral_privkey
      in and_then (hash_of_two B static_pubkey ephemeral_pubkey) (\<lambda>mask.
         Ok \<lparr>mk_static_privkey = static_privkey, mk_ephemeral_privkey = ephemeral_privkey,
             mk_mask = mask\<rparr>))"

definition write_initiation_response ::
  "('c, 'h) backend \<Rightarrow> 'h \<Rightarrow> bytes \<Rightarrow> bytes \<Rightarrow> bytes \<Rightarrow> nat thp_result \<times> ('h \<times> bytes)" where
  "write_initiation_response B hss static_privkey ephemeral_privkey dest =
     and_then_st (mask_key B static_privkey ephemeral_privkey, (hss, dest)) (\<lambda>mk (hss, dest).
     let hss = hs_set_s B (mk_static_privkey mk) hss;
         hss = hs_set_s_mask B (mk_mask mk) hss;
         hss = hs_set_e B (mk_ephemeral_privkey mk) hss;
         len = hs_overhead B hss
     in and_then_st (write_message_to B hss [] len dest) (\<lambda>_ st. (Ok len, st)))"

definition write_completion_response ::
  "('c, 'h) backend \<Rightarrow> 'h \<Rightarrow> bytes \<Rightarrow> credential_verifier \<Rightarrow> bytes
     \<Rightarrow> ('c noise_ciphers \<times> pairing_state \<times> nat) thp_result \<times> ('h \<times> bytes)" where
  "write_completion_response B hss incoming verify dest =
     (let overhead_len = hs_overhead B hss in
      if length incoming < overhead_len then (Err MalformedData, (hss, dest))
      else
        let cred_len = length incoming - overhead_len in
        if cred_len > MAX_CREDENTIAL_LEN then (Err InsufficientBuffer, (hss, dest))
        else
          let (res, (hss, cred)) = hs_read_message B hss incoming (replicate cred_len 0) in
          and_then_st (map_err from_noise_error res, (hss, dest)) (\<lambda>_ (hss, dest).
          if \<not> hs_completed B hss then (Err CryptoError, (hss, dest))
          else
            and_then_st (ok_or CryptoError (hs_get_rs B hss), (hss, dest)) (\<lambda>rs st.
            and_then_st (to_array PUBKEY_LEN rs, st) (\<lambda>remote_static_pubkey st.
            and_then_st (to_array HANDSHAKE_HASH_LEN (hs_get_hash B hss), st) (\<lambda>handshake_hash (hss, dest).
            let (decrypt, encrypt) = hs_get_ciphers B hss;
                nc = \<lparr>nc_encrypt = encrypt, nc_decrypt = decrypt, nc_handshake_hash = handshake_hash,
                       nc_remote_static_pubkey = remote_static_pubkey\<rparr>;
                pairing_state = verify remote_static_pubkey cred;
                payload = [pairing_state_to_u8 pairing_state];
                plaintext_len = length payload
            in if length dest < plaintext_len + TAG_LEN then (Err InsufficientBuffer, (hss, dest))
               else
                 let (res, (nc, out)) =
                   noise_encrypt B nc (payload @ take TAG_LEN (drop plaintext_len dest)) plaintext_len
                 in and_then_st (res, (hss, out @ drop (plaintext_len + TAG_LEN) dest)) (\<lambda>_ st.
                    (Ok (nc, pairing_state, plaintext_len + TAG_LEN), st)))))))"

section \<open>Facts\<close>

lemma pairing_state_roundtrip [simp]:
  "pairing_state_from_u8 (pairing_state_to_u8 p) = Ok p"
  "pairing_state_from_bytes [pairing_state_to_u8 p] = Ok p"
  by (cases p; simp add: pairing_state_from_u8_def pairing_state_from_bytes_def)+

lemma pairing_state_no_panic [simp]:
  "pairing_state_from_u8 b \<noteq> Panic" "pairing_state_from_bytes bs \<noteq> Panic"
  by (auto simp: pairing_state_from_u8_def pairing_state_from_bytes_def split: list.splits)

lemma map_err_simps [simp]:
  "map_err g r = Panic \<longleftrightarrow> r = Panic" "map_err g r = Ok x \<longleftrightarrow> r = Ok x"
  by (cases r; auto)+

lemma backend_okD:
  assumes "backend_ok B"
  shows "length (fst (encrypt_ad_in_place B c ad buf n)) = length buf"
    "decrypt_ad_in_place B c ad buf n = (m, buf', c') \<Longrightarrow> length buf' = length buf"
    "decrypt_ad_in_place B c ad buf n = (Some k, buf', c') \<Longrightarrow> k \<le> length buf"
    "fst (hs_write_message B h p d) \<noteq> Panic"
    "length (snd (snd (hs_write_message B h p d))) = length d"
    "fst (hs_read_message B h p d) \<noteq> Panic"
    "length (snd (snd (hs_read_message B h p d))) = length d"
    "hs_get_rs B h = Some rs \<Longrightarrow> length rs = PUBKEY_LEN"
    "length (hs_get_hash B h) = HANDSHAKE_HASH_LEN"
    "length (hash_result B x) = PRIVKEY_LEN"
  using assms by (simp_all add: backend_ok_def) fastforce+

lemma noise_encrypt_no_panic [simp]: "fst (noise_encrypt B nc buf n) \<noteq> Panic"
  by (simp add: noise_encrypt_def case_prod_unfold Let_def)

lemma noise_decrypt_no_panic [simp]: "fst (noise_decrypt B nc buf) \<noteq> Panic"
  by (simp add: noise_decrypt_def case_prod_unfold Let_def)

lemma noise_encrypt_length:
  "backend_ok B \<Longrightarrow> length (snd (snd (noise_encrypt B nc buf n))) = length buf"
  by (auto simp: noise_encrypt_def case_prod_unfold Let_def backend_okD(1) split: if_splits)

lemma noise_decrypt_length:
  assumes "backend_ok B" "noise_decrypt B nc buf = (res, (nc', buf'))"
  shows "length buf' = length buf" "res = Ok n \<Longrightarrow> n \<le> length buf"
  using assms backend_okD(2,3) [OF assms(1), of "nc_decrypt nc" "[]" buf "length buf"]
  by (auto simp: noise_decrypt_def split: if_splits prod.splits)

lemma write_message_to_safe:
  "backend_ok B \<Longrightarrow> safely (\<lambda>st. length (snd st) = length dest) (write_message_to B hss payload len dest)"
  using backend_okD(4,5) [of B]
  by (auto simp: write_message_to_def case_prod_unfold Let_def safely_def)

lemma to_array_no_panic [simp]: "to_array n bs = Panic \<longleftrightarrow> length bs \<noteq> n"
  by (simp add: to_array_def)

lemma credential_from_store_no_panic [simp]: "credential_from_store cs re rs k \<noteq> Panic"
  by (auto simp: credential_from_store_def split: option.splits)

text \<open>
  With a library that behaves, no step of the handshake panics, and the buffers keep their
  lengths.
\<close>

lemma write_initiation_request_safe:
  assumes "backend_ok B"
  shows "safely (\<lambda>st. length st = length dest) (write_initiation_request B props unlock dest)"
  using write_message_to_safe [OF assms, of dest]
  by (auto simp: write_initiation_request_def Let_def case_prod_unfold map_ok_def and_then_eq_Panic safely_def)

lemma read_initiation_request_safe:
  "backend_ok B \<Longrightarrow> fst (read_initiation_request B hss incoming) \<noteq> Panic"
  by (auto simp: read_initiation_request_def case_prod_unfold Let_def map_ok_def and_then_eq_Panic
      backend_okD(6))

lemma mask_key_safe: "backend_ok B \<Longrightarrow> mask_key B s e \<noteq> Panic"
  by (auto simp: mask_key_def hash_of_two_def Let_def and_then_eq_Panic backend_okD(10))

lemma write_initiation_response_safe:
  assumes B: "backend_ok B"
  shows "safely (\<lambda>st. length (snd st) = length dest) (write_initiation_response B hss s e dest)"
  unfolding write_initiation_response_def Let_def
  by (intro safely_and_then)
    (auto simp: mask_key_safe [OF B] intro!: safely_pair safely_and_then
      write_message_to_safe [OF B, THEN safely_mono])

lemma write_completion_request_safe:
  assumes B: "backend_ok B"
  shows "safely (\<lambda>st. length (snd st) = length dest) (write_completion_request B hss cs k incoming dest)"
  unfolding write_completion_request_def Let_def
  by (auto simp: case_prod_unfold backend_okD [OF B]
      intro!: safely_and_then safely_pair write_message_to_safe [OF B, THEN safely_mono])

lemma write_completion_response_safe:
  assumes B: "backend_ok B"
  shows "safely (\<lambda>st. length (snd st) = length dest) (write_completion_response B hss incoming verify dest)"
  unfolding write_completion_response_def Let_def
  by (auto simp: case_prod_unfold backend_okD [OF B] noise_encrypt_length [OF B] TAG_LEN_def
      intro!: safely_and_then safely_pair)

section \<open>A concrete library\<close>

text \<open>
  The assumptions can be met: a library without secrecy whose ciphers are message counters,
  whose tag is the counter and whose handshake only counts messages.
\<close>

definition plain_encrypt :: "nat \<Rightarrow> bytes \<Rightarrow> bytes \<Rightarrow> nat \<Rightarrow> bytes \<times> nat" where
  "plain_encrypt c ad buf n =
     (if n + TAG_LEN \<le> length buf
      then (take n buf @ replicate TAG_LEN (of_nat c) @ drop (n + TAG_LEN) buf, Suc c) else (buf, c))"

definition plain_decrypt :: "nat \<Rightarrow> bytes \<Rightarrow> bytes \<Rightarrow> nat \<Rightarrow> nat option \<times> bytes \<times> nat" where
  "plain_decrypt c ad buf n =
     (if TAG_LEN \<le> n \<and> n \<le> length buf \<and> take TAG_LEN (drop (n - TAG_LEN) buf) = replicate TAG_LEN (of_nat c)
      then (Some (n - TAG_LEN), buf, Suc c) else (None, buf, c))"

definition plain_write :: "nat \<Rightarrow> bytes \<Rightarrow> bytes \<Rightarrow> (unit, noise_error_kind) result \<times> (nat \<times> bytes)" where
  "plain_write h payload dest =
     (Ok (), (Suc h, take (length dest) (payload @ replicate (length dest) 0)))"

definition plain_read :: "nat \<Rightarrow> bytes \<Rightarrow> bytes \<Rightarrow> (unit, noise_error_kind) result \<times> (nat \<times> bytes)" where
  "plain_read h message payload =
     (if length message < length payload then (Err NoiseTooShort, (h, payload))
      else (Ok (), (Suc h, take (length payload) message)))"

definition plain_backend :: "(nat, nat) backend" where
  "plain_backend =
     \<lparr>encrypt_ad_in_place = plain_encrypt, decrypt_ad_in_place = plain_decrypt,
      hs_new = (\<lambda>_ _. 0), hs_overhead = (\<lambda>h. if h = 0 then 32 else if h = 1 then 96 else 64),
      hs_write_message = plain_write, hs_read_message = plain_read,
      hs_get_rs = (\<lambda>_. Some (replicate PUBKEY_LEN 1)), hs_get_re = (\<lambda>_. Some (replicate PUBKEY_LEN 2)),
      hs_set_s = (\<lambda>_ h. h), hs_set_s_mask = (\<lambda>_ h. h), hs_set_e = (\<lambda>_ h. h),
      hs_completed = (\<lambda>h. h = 3), hs_get_ciphers = (\<lambda>_. (0, 0)),
      hs_get_hash = (\<lambda>_. replicate HANDSHAKE_HASH_LEN 0), dh_pubkey = (\<lambda>k. k),
      hash_result = (\<lambda>_. replicate PRIVKEY_LEN 0)\<rparr>"

lemma plain_backend_ok: "backend_ok plain_backend"
  by (auto simp: backend_ok_def plain_backend_def plain_encrypt_def plain_decrypt_def plain_write_def
      plain_read_def split: if_splits)

end
