(* ===== verification/Thp_Channel.thy ===== *)
theory Thp_Channel
  imports Thp_Alternating_Bit Thp_Noise
begin

text \<open>
  A channel with an established secure layer, \<open>rust/trezor-thp/src/channel/mod.rs\<close>: the
  state machine that consumes and produces packets and messages. The role and the
  cryptographic library are arguments; the send and receive buffers stay with the caller,
  so every operation gets them and hands them back. The theory proves that arbitrary input
  cannot make a channel panic or leave its invariant, what failing means, and that a message
  handed to one channel comes out of the other one.
\<close>

section \<open>Data\<close>

definition HANDSHAKE_BUFFER_HTD_LEN :: nat where
  "HANDSHAKE_BUFFER_HTD_LEN = PUBKEY_LEN + MAX_CREDENTIAL_LEN + 2 * TAG_LEN + CHECKSUM_LEN"

definition MAX_ALLOC_RESPONSE_LEN :: nat where
  "MAX_ALLOC_RESPONSE_LEN = unat NONCE_LEN + 2 + MAX_DEVICE_PROPERTIES_LEN + CHECKSUM_LEN"

definition HANDSHAKE_BUFFER_DTH_LEN :: nat where
  "HANDSHAKE_BUFFER_DTH_LEN =
     max_usize MAX_ALLOC_RESPONSE_LEN (2 * PUBKEY_LEN + 2 * TAG_LEN + CHECKSUM_LEN)"

definition APP_HEADER_LEN :: nat where "APP_HEADER_LEN = 3"

definition SEND_BUFFER_OVERHEAD :: nat where "SEND_BUFFER_OVERHEAD = APP_HEADER_LEN + TAG_LEN"

datatype nonce = Nonce (nonce_bytes: bytes)

definition nonce_parse :: "bytes \<Rightarrow> (nonce \<times> bytes) thp_result" where
  "nonce_parse bs =
     ok_or MalformedData (map_option (\<lambda>(n, p). (Nonce n, p)) (split_first_chunk (unat NONCE_LEN) bs))"

datatype send_state = SendIdle | Sending fragmenter u8 | SendingError transport_error | SendFailed

datatype receive_state = ReceiveIdle | Receiving reassembler | ReceiveFailed

datatype phase = PairingCredential pairing_state | EncryptedTransport

record 'c channel =
  channel_id :: u16
  channel_sync_state :: channel_sync
  channel_noise :: "'c noise_ciphers option"
  send_ack :: "sync_bits option"
  send_state :: send_state
  receive_state :: receive_state
  channel_phase :: phase

text \<open>
  \<open>NonZeroU16\<close> sizes are plain words; the code never stores zero in them. The variant
  \<open>TransportError\<close> of the source is \<open>PeerError\<close>.
\<close>

datatype packet_in_result =
    Accepted (ack_received: bool) (message_ready: bool) (pong: bool) (buffer_size: "u16 option")
  | PeerError transport_error
  | Ignored thp_error
  | Failed thp_error
  | Route u16 "u16 option"
  | ChannelAllocation
  | HandshakeKeyRequired bool

section \<open>Results of packets\<close>

definition pir_accept :: "bool \<Rightarrow> packet_in_result" where
  "pir_accept ready = Accepted False ready False None"

definition pir_ignore :: "thp_error \<Rightarrow> packet_in_result" where
  "pir_ignore e = Ignored e"

definition pir_ack :: packet_in_result where
  "pir_ack = Accepted True False False None"

definition pir_transport_error :: "transport_error \<Rightarrow> packet_in_result" where
  "pir_transport_error e = PeerError e"

definition pir_route :: "u16 \<Rightarrow> u16 option \<Rightarrow> packet_in_result" where
  "pir_route c payload_len =
     Route c (case payload_len of None \<Rightarrow> None | Some n \<Rightarrow> if n = 0 then Some 1 else Some n)"

definition pir_fail :: "thp_error \<Rightarrow> packet_in_result" where
  "pir_fail e = Failed e"

definition pir_channel_allocation :: packet_in_result where
  "pir_channel_allocation = ChannelAllocation"

definition pir_pong :: packet_in_result where
  "pir_pong = Accepted False False True None"

fun got_ack :: "packet_in_result \<Rightarrow> bool" where
  "got_ack (Accepted a _ _ _) = a"
| "got_ack _ = False"

fun got_message :: "packet_in_result \<Rightarrow> bool" where
  "got_message (Accepted _ m _ _) = m"
| "got_message _ = False"

fun got_channel :: "packet_in_result \<Rightarrow> bool" where
  "got_channel ChannelAllocation = True"
| "got_channel _ = False"

fun got_pong :: "packet_in_result \<Rightarrow> bool" where
  "got_pong (Accepted _ _ p _) = p"
| "got_pong _ = False"

fun got_transport_error :: "packet_in_result \<Rightarrow> bool" where
  "got_transport_error (PeerError _) = True"
| "got_transport_error _ = False"

fun check_failed :: "packet_in_result \<Rightarrow> packet_in_result thp_result" where
  "check_failed (Failed e) = Err e"
| "check_failed x = Ok x"

fun pir_from_result :: "packet_in_result thp_result \<Rightarrow> packet_in_result thp_result" where
  "pir_from_result (Err e) =
     (if e = MalformedData \<or> e = InvalidChecksum \<or> e = NotReady then Ok (pir_ignore e) else Ok (pir_fail e))"
| "pir_from_result (Ok x) = Ok x"
| "pir_from_result Panic = Panic"

section \<open>Channel operations\<close>

definition channel_new :: "u16 \<Rightarrow> 'c channel" where
  "channel_new c =
     \<lparr>channel_id = c, channel_sync_state = channel_sync_new, channel_noise = None, send_ack = None,
      send_state = SendIdle, receive_state = ReceiveIdle, channel_phase = PairingCredential Unpaired\<rparr>"

definition is_sending :: "'c channel \<Rightarrow> bool" where
  "is_sending ch = (case send_state ch of Sending _ _ \<Rightarrow> True | _ \<Rightarrow> False)"

definition is_receiving :: "'c channel \<Rightarrow> bool" where
  "is_receiving ch = (case receive_state ch of Receiving _ \<Rightarrow> True | _ \<Rightarrow> False)"

definition channel_handshake_hash :: "'c channel \<Rightarrow> bytes thp_result" where
  "channel_handshake_hash ch =
     (case channel_noise ch of None \<Rightarrow> Panic | Some nc \<Rightarrow> Ok (nc_handshake_hash nc))"

definition channel_remote_static_pubkey :: "'c channel \<Rightarrow> bytes thp_result" where
  "channel_remote_static_pubkey ch =
     (case channel_noise ch of None \<Rightarrow> Panic | Some nc \<Rightarrow> Ok (nc_remote_static_pubkey nc))"

definition is_encrypted_transport :: "'c channel \<Rightarrow> bool" where
  "is_encrypted_transport ch \<longleftrightarrow> channel_phase ch = EncryptedTransport"

definition end_pairing :: "'c channel \<Rightarrow> 'c channel" where
  "end_pairing ch = ch\<lparr>channel_phase := EncryptedTransport\<rparr>"

definition is_failed :: "'c channel \<Rightarrow> bool" where
  "is_failed ch \<longleftrightarrow> send_state ch = SendFailed \<or> receive_state ch = ReceiveFailed"

definition become_failed :: "'c channel \<Rightarrow> 'c channel" where
  "become_failed ch = ch\<lparr>send_state := SendFailed, receive_state := ReceiveFailed\<rparr>"

definition sending_retry :: "'c channel \<Rightarrow> u8 option" where
  "sending_retry ch = (case send_state ch of Sending _ retry \<Rightarrow> Some retry | _ \<Rightarrow> None)"

definition send_error :: "transport_error \<Rightarrow> 'c channel \<Rightarrow> 'c channel" where
  "send_error e ch = ch\<lparr>send_state := SendingError e\<rparr>"

definition raw_in_ext :: "'c channel \<Rightarrow> header \<Rightarrow> bytes \<Rightarrow> bool \<Rightarrow> unit thp_result \<times> 'c channel" where
  "raw_in_ext ch h send_buffer override_ack_bit =
     (if send_state ch \<noteq> SendIdle then (Err NotReady, ch)
      else
        and_then_st (ok_or NotReady (send_start (channel_sync_state ch)), ch) (\<lambda>sb ch.
        let piggyback = is_ack_piggybacking_allowed (channel_sync_state ch);
            ch = (if piggyback then ch\<lparr>send_ack := None\<rparr> else ch);
            sb = (if piggyback \<and> override_ack_bit then with_ack_bit sb True else sb)
        in and_then_st (fragmenter_new h sb send_buffer, ch) (\<lambda>f ch.
           (Ok (), ch\<lparr>send_state := Sending f 0\<rparr>))))"

definition raw_in :: "'c channel \<Rightarrow> header \<Rightarrow> bytes \<Rightarrow> unit thp_result \<times> 'c channel" where
  "raw_in ch h send_buffer = raw_in_ext ch h send_buffer False"

definition raw_out :: "'c channel \<Rightarrow> bytes \<Rightarrow> (header \<times> nat) thp_result \<times> 'c channel" where
  "raw_out ch receive_buffer =
     (case receive_state ch of
        Receiving reassembler \<Rightarrow>
          if \<not> reassembler_is_done reassembler then (Err NotReady, ch)
          else
            and_then_st (reassembler_verify reassembler receive_buffer, ch) (\<lambda>len ch.
            let (ack, sync) = receive_acknowledge (channel_sync_state ch);
                ch = ch\<lparr>channel_sync_state := sync, send_ack := Some ack\<rparr>;
                h = reas_header reassembler;
                ch = ch\<lparr>receive_state := ReceiveIdle\<rparr>
            in (Ok (h, len), ch))
      | _ \<Rightarrow> (Err NotReady, ch))"

subsection \<open>Incoming packets\<close>

definition handle_ack :: "role \<Rightarrow> 'c channel \<Rightarrow> bytes \<Rightarrow> unit thp_result \<times> 'c channel" where
  "handle_ack r ch packet_buffer =
     (if is_sending ch then
        and_then_st (reassembler_single r packet_buffer, ch) (\<lambda>_ ch.
        and_then_st (sync_bits_from_bytes packet_buffer, ch) (\<lambda>sb ch.
        let (delivered, sync) = send_mark_delivered (channel_sync_state ch) sb;
            ch = ch\<lparr>channel_sync_state := sync\<rparr>
        in if delivered then (Ok (), ch\<lparr>send_state := SendIdle\<rparr>) else (Err MalformedData, ch)))
      else (Err MalformedData, ch))"

definition handle_error :: "role \<Rightarrow> 'c channel \<Rightarrow> bytes \<Rightarrow> transport_error thp_result \<times> 'c channel" where
  "handle_error r ch packet_buffer =
     (case reassembler_single r packet_buffer of
        Ok (h, payload) \<Rightarrow>
          if header_is_error h then
            (case transport_error_from_bytes payload of
               Ok te \<Rightarrow> (Ok te, if \<not> is_recoverable te then become_failed ch else ch)
             | _ \<Rightarrow> (Err MalformedData, become_failed ch))
          else (Err MalformedData, become_failed ch)
      | Err _ \<Rightarrow> (Err MalformedData, ch)
      | Panic \<Rightarrow> (Panic, ch))"

definition handle_cont :: "role \<Rightarrow> 'c channel \<Rightarrow> bytes \<Rightarrow> bytes \<Rightarrow> unit thp_result \<times> ('c channel \<times> bytes)" where
  "handle_cont r ch packet_buffer receive_buffer =
     (case receive_state ch of
        Receiving x \<Rightarrow>
          let (res, (x, receive_buffer)) = reassembler_update r x packet_buffer receive_buffer
          in (res, (ch\<lparr>receive_state := Receiving x\<rparr>, receive_buffer))
      | _ \<Rightarrow> (Err MalformedData, (ch, receive_buffer)))"

definition handle_invalid_seq :: "'c channel \<Rightarrow> sync_bits \<Rightarrow> unit thp_result \<times> 'c channel" where
  "handle_invalid_seq ch sb =
     (if receive_start (channel_sync_state ch) sb then (Ok (), ch)
      else if is_ack_piggybacking_allowed (channel_sync_state ch) \<and> is_sending ch
      then (Err MalformedData, ch)
      else if \<not> is_receiving ch
      then (Err MalformedData, ch\<lparr>send_ack := Some (with_ack_bit sync_bits_new (seq_bit sb))\<rparr>)
      else (Err MalformedData, ch))"

definition handle_init :: "role \<Rightarrow> 'c channel \<Rightarrow> bytes \<Rightarrow> bytes \<Rightarrow> unit thp_result \<times> ('c channel \<times> bytes)" where
  "handle_init r ch packet_buffer receive_buffer =
     (let receive_buffer = replicate (length receive_buffer) 0;
          (res, receive_buffer) = reassembler_new r packet_buffer receive_buffer
      in and_then_st (res, (ch, receive_buffer)) (\<lambda>x (ch, receive_buffer).
         (Ok (), (ch\<lparr>receive_state := Receiving x\<rparr>, receive_buffer))))"

definition check_buffer_len :: "'c channel \<Rightarrow> bytes \<Rightarrow> u16 option" where
  "check_buffer_len ch receive_buffer =
     (case receive_state ch of
        Receiving x \<Rightarrow>
          let payload_len = header_payload_len (reas_header x) in
          if unat payload_len > length receive_buffer \<and> payload_len \<noteq> 0 then Some payload_len else None
      | _ \<Rightarrow> None)"

definition handle_last_packet :: "'c channel \<Rightarrow> bytes \<Rightarrow> packet_in_result thp_result \<times> 'c channel" where
  "handle_last_packet ch receive_buffer =
     (case receive_state ch of
        Receiving x \<Rightarrow>
          if reassembler_is_done x then
            (case reassembler_verify x receive_buffer of
               Err e \<Rightarrow> (Err e, ch\<lparr>receive_state := ReceiveIdle\<rparr>)
             | Panic \<Rightarrow> (Panic, ch)
             | Ok _ \<Rightarrow>
                 if is_sending ch \<and> is_ack_piggybacking_allowed (channel_sync_state ch)
                    \<and> \<not> can_send (channel_sync_state ch)
                 then
                   let (delivered, sync) = send_mark_delivered (channel_sync_state ch) (reas_sync_bits x);
                       ch = ch\<lparr>channel_sync_state := sync\<rparr>;
                       ch = (if delivered then ch\<lparr>send_state := SendIdle\<rparr> else ch)
                   in (Ok (Accepted delivered True False (check_buffer_len ch receive_buffer)), ch)
                 else (Ok (Accepted False True False (check_buffer_len ch receive_buffer)), ch))
          else (Ok (Accepted False False False (check_buffer_len ch receive_buffer)), ch)
      | _ \<Rightarrow> (Err UnexpectedInput, ch))"

definition handle_packet ::
  "role \<Rightarrow> 'c channel \<Rightarrow> bytes \<Rightarrow> bytes \<Rightarrow> packet_in_result thp_result \<times> ('c channel \<times> bytes)" where
  "handle_packet r ch packet_buffer receive_buffer =
     and_then_st (parse_cb_channel packet_buffer, (ch, receive_buffer)) (\<lambda>(cb, cid, _) (ch, receive_buffer).
     if cid \<noteq> channel_id ch then (Err MalformedData, (ch, receive_buffer))
     else if cb_is_ack cb then
       let (res, ch) = handle_ack r ch packet_buffer in (map_ok (\<lambda>_. pir_ack) res, (ch, receive_buffer))
     else if cb_is_error cb then
       let (res, ch) = handle_error r ch packet_buffer in (map_ok pir_transport_error res, (ch, receive_buffer))
     else
       and_then_st
         (if cb_is_continuation cb then handle_cont r ch packet_buffer receive_buffer
          else if cb_is_handshake cb \<or> cb_is_encrypted_transport cb then
            let (res, ch) = handle_invalid_seq ch (cb_sync_bits cb) in
            and_then_st (res, (ch, receive_buffer)) (\<lambda>_ (ch, receive_buffer).
            if is_sending ch \<and> \<not> is_ack_piggybacking_allowed (channel_sync_state ch)
            then (Err MalformedData, (ch, receive_buffer))
            else handle_init r ch packet_buffer receive_buffer)
          else (Err MalformedData, (ch, receive_buffer)))
         (\<lambda>_ (ch, receive_buffer).
         let (res, ch) = handle_last_packet ch receive_buffer in (res, (ch, receive_buffer))))"

definition channel_packet_in ::
  "role \<Rightarrow> 'c channel \<Rightarrow> bytes \<Rightarrow> bytes \<Rightarrow> packet_in_result thp_result \<times> ('c channel \<times> bytes)" where
  "channel_packet_in r ch packet_buffer receive_buffer =
     (if is_failed ch then (Ok (pir_fail UnexpectedInput), (ch, receive_buffer))
      else
        let (res, (ch, receive_buffer)) = handle_packet r ch packet_buffer receive_buffer;
            res = pir_from_result res;
            ch = (case res of Ok (Failed _) \<Rightarrow> become_failed ch | _ \<Rightarrow> ch)
        in (res, (ch, receive_buffer)))"

definition channel_packet_in_ready :: "'c channel \<Rightarrow> bool" where
  "channel_packet_in_ready ch = True"

subsection \<open>Outgoing packets\<close>

definition channel_packet_out ::
  "role \<Rightarrow> 'c channel \<Rightarrow> bytes \<Rightarrow> bytes \<Rightarrow> unit thp_result \<times> ('c channel \<times> bytes)" where
  "channel_packet_out r ch packet_buffer send_buffer =
     (case send_ack ch of
        Some sb \<Rightarrow>
          and_then_st (new_ack (channel_id ch), (ch\<lparr>send_ack := None\<rparr>, packet_buffer)) (\<lambda>h (ch, packet_buffer).
          let (res, packet_buffer) = fragmenter_single r h sb [] packet_buffer
          in (res, (ch, packet_buffer)))
      | None \<Rightarrow>
          (case send_state ch of
             SendingError e \<Rightarrow>
               and_then_st (new_error (channel_id ch), (ch, packet_buffer)) (\<lambda>h (ch, packet_buffer).
               let (res, packet_buffer) =
                 fragmenter_single r h sync_bits_new [transport_error_to_u8 e] packet_buffer
               in and_then_st (res, (ch, packet_buffer)) (\<lambda>_ (ch, packet_buffer).
                  (Ok (), (if is_recoverable e then ch\<lparr>send_state := SendIdle\<rparr> else become_failed ch,
                           packet_buffer))))
           | Sending f retry \<Rightarrow>
               let (res, (f, packet_buffer)) = fragmenter_next r f send_buffer packet_buffer in
               and_then_st (res, (ch\<lparr>send_state := Sending f retry\<rparr>, packet_buffer)) (\<lambda>written (ch, packet_buffer).
               if \<not> written then (Err NotReady, (ch, packet_buffer))
               else if fragmenter_is_done f then
                 (if header_channel_id (frag_header f) = BROADCAST_CHANNEL_ID
                  then (Ok (), (ch\<lparr>send_state := SendIdle\<rparr>, packet_buffer))
                  else (Ok (), (ch\<lparr>channel_sync_state := send_finish (channel_sync_state ch)\<rparr>, packet_buffer)))
               else (Ok (), (ch, packet_buffer)))
           | _ \<Rightarrow> (Err NotReady, (ch, packet_buffer))))"

definition channel_packet_out_ready :: "'c channel \<Rightarrow> bool" where
  "channel_packet_out_ready ch =
     (if send_ack ch \<noteq> None then True
      else case send_state ch of
        SendingError _ \<Rightarrow> True
      | Sending f _ \<Rightarrow> \<not> fragmenter_is_done f
      | _ \<Rightarrow> False)"

subsection \<open>Messages\<close>

definition channel_message_in_ready :: "'c channel \<Rightarrow> bool" where
  "channel_message_in_ready ch \<longleftrightarrow> send_state ch = SendIdle \<and> receive_state ch \<noteq> ReceiveFailed"

definition channel_message_in ::
  "('c, 'h) backend \<Rightarrow> 'c channel \<Rightarrow> nat \<Rightarrow> bytes \<Rightarrow> unit thp_result \<times> ('c channel \<times> bytes)" where
  "channel_message_in B ch plaintext_len send_buffer =
     (if \<not> channel_message_in_ready ch then (Err NotReady, (ch, send_buffer))
      else
        let encrypted_len = plaintext_len + TAG_LEN in
        if length send_buffer < encrypted_len then (Err InsufficientBuffer, (ch, send_buffer))
        else
          and_then_st (ok_or UnexpectedInput (channel_noise ch), (ch, send_buffer)) (\<lambda>nc (ch, send_buffer).
          let (res, (nc, send_buffer)) = noise_encrypt B nc send_buffer plaintext_len in
          and_then_st (res, (ch\<lparr>channel_noise := Some nc\<rparr>, send_buffer)) (\<lambda>_ (ch, send_buffer).
          and_then_st (slice_to encrypted_len send_buffer, (ch, send_buffer)) (\<lambda>encrypted (ch, send_buffer).
          and_then_st (new_encrypted (channel_id ch) encrypted, (ch, send_buffer)) (\<lambda>h (ch, send_buffer).
          let (res, ch) = raw_in ch h send_buffer in (res, (ch, send_buffer)))))))"

text \<open>
  The trait's default method \<open>message_in_from\<close>, over the two methods of the implementation
  that it calls.
\<close>

definition message_in_from ::
  "('s \<Rightarrow> bool) \<Rightarrow> ('s \<Rightarrow> nat \<Rightarrow> bytes \<Rightarrow> unit thp_result \<times> ('s \<times> bytes))
     \<Rightarrow> 's \<Rightarrow> u8 \<Rightarrow> u16 \<Rightarrow> bytes \<Rightarrow> bytes \<Rightarrow> unit thp_result \<times> ('s \<times> bytes)" where
  "message_in_from in_ready message_in s session_id message_type message send_buffer =
     (if \<not> in_ready s then (Err NotReady, (s, send_buffer))
      else
        let plaintext_len = length message + APP_HEADER_LEN in
        if length send_buffer < plaintext_len then (Err InsufficientBuffer, (s, send_buffer))
        else message_in s plaintext_len
               ([session_id] @ u16_to_be message_type @ message @ drop plaintext_len send_buffer))"

definition channel_message_in_from ::
  "('c, 'h) backend \<Rightarrow> 'c channel \<Rightarrow> u8 \<Rightarrow> u16 \<Rightarrow> bytes \<Rightarrow> bytes \<Rightarrow> unit thp_result \<times> ('c channel \<times> bytes)" where
  "channel_message_in_from B = message_in_from channel_message_in_ready (channel_message_in B)"

definition channel_message_out ::
  "('c, 'h) backend \<Rightarrow> role \<Rightarrow> 'c channel \<Rightarrow> bytes \<Rightarrow> (u8 \<times> u16 \<times> bytes) thp_result \<times> ('c channel \<times> bytes)" where
  "channel_message_out B r ch receive_buffer =
     (let (res, ch) = raw_out ch receive_buffer in
      and_then_st (res, (ch, receive_buffer)) (\<lambda>(h, len) (ch, receive_buffer).
      and_then_st (slice_to len receive_buffer, (ch, receive_buffer)) (\<lambda>encrypted (ch, receive_buffer).
      if \<not> header_is_encrypted h then (Err MalformedData, (ch, receive_buffer))
      else
        and_then_st (ok_or UnexpectedInput (channel_noise ch), (ch, receive_buffer)) (\<lambda>nc (ch, receive_buffer).
        let (res, (nc, decrypted)) = noise_decrypt B nc encrypted;
            ch = ch\<lparr>channel_noise := Some nc\<rparr>;
            receive_buffer = decrypted @ drop len receive_buffer
        in case res of
             Ok plaintext_len \<Rightarrow>
               and_then_st (slice_to plaintext_len decrypted, (ch, receive_buffer)) (\<lambda>plaintext st.
               case plaintext of
                 [] \<Rightarrow> (Err MalformedData, st)
               | session_id # rest \<Rightarrow>
                   and_then_st (parse_u16 rest, st) (\<lambda>(message_type, rest) st.
                   (Ok (session_id, message_type, rest), st)))
           | Err e \<Rightarrow>
               (Err e,
                (if is_host r then become_failed ch else send_error DecryptionFailed ch, receive_buffer))
           | Panic \<Rightarrow> (Panic, (ch, receive_buffer))))))"

definition channel_message_out_ready :: "'c channel \<Rightarrow> bool" where
  "channel_message_out_ready ch =
     (case receive_state ch of Receiving x \<Rightarrow> reassembler_is_done x | _ \<Rightarrow> False)"

definition u8_saturating_add :: "u8 \<Rightarrow> u8 \<Rightarrow> u8" where
  "u8_saturating_add a b = (if unat a + unat b < 2 ^ 8 then a + b else 0xFF)"

definition channel_message_retransmit :: "'c channel \<Rightarrow> unit thp_result \<times> 'c channel" where
  "channel_message_retransmit ch =
     (case send_state ch of
        Sending f retry \<Rightarrow>
          let retry = u8_saturating_add retry 1 in
          if \<not> fragmenter_is_done f then (Ok (), ch\<lparr>send_state := Sending f retry\<rparr>)
          else (Ok (), ch\<lparr>send_state := Sending (fragmenter_reset f) retry\<rparr>)
      | _ \<Rightarrow> (Ok (), ch))"

section \<open>Retransmission timing\<close>

definition MAX_RETRANSMISSION_COUNT :: u8 where "MAX_RETRANSMISSION_COUNT = 50"

definition u32_saturating_add :: "u32 \<Rightarrow> u32 \<Rightarrow> u32" where
  "u32_saturating_add a b = (if unat a + unat b < 2 ^ 32 then a + b else 0xFFFFFFFF)"

definition retransmit_after_ms :: "u8 \<Rightarrow> u32" where
  "retransmit_after_ms retry =
     (let retry = ucast (min retry (MAX_RETRANSMISSION_COUNT - 1)) :: u32
      in 10300 - 1010000 div u32_saturating_add retry 100)"

section \<open>The channel invariant\<close>

definition ack_wf :: "sync_bits option \<Rightarrow> bool" where
  "ack_wf a \<longleftrightarrow> (case a of None \<Rightarrow> True | Some sb \<Rightarrow> sync_bits_wf sb \<and> \<not> seq_bit sb)"

definition frag_wf :: "role \<Rightarrow> fragmenter \<Rightarrow> bool" where
  "frag_wf r f \<longleftrightarrow>
     header_wf (frag_header f) \<and> header_is_init (frag_header f) \<and> sync_bits_wf (frag_sync_bits f)
     \<and> header_control_byte r (frag_header f) (frag_sync_bits f) \<noteq> None"

fun send_wf :: "role \<Rightarrow> send_state \<Rightarrow> bool" where
  "send_wf r (Sending f _) = frag_wf r f"
| "send_wf r _ = True"

fun receive_wf :: "receive_state \<Rightarrow> bool" where
  "receive_wf (Receiving x) = reas_wf x"
| "receive_wf _ = True"

definition channel_wf :: "role \<Rightarrow> 'c channel \<Rightarrow> bool" where
  "channel_wf r ch \<longleftrightarrow>
     unicast_valid (channel_id ch) \<and> ack_wf (send_ack ch) \<and> send_wf r (send_state ch)
     \<and> receive_wf (receive_state ch) \<and> (send_state ch = SendFailed \<longrightarrow> receive_state ch = ReceiveFailed)"

lemma ack_wf_simps [simp]:
  "ack_wf None" "ack_wf (Some (with_ack_bit sync_bits_new b))"
  by (simp_all add: ack_wf_def)

lemma channel_wf_new [simp]: "channel_wf r (channel_new c) = unicast_valid c"
  by (simp add: channel_wf_def channel_new_def)

lemma become_failed_simps [simp]:
  "receive_state (become_failed ch) = ReceiveFailed" "send_state (become_failed ch) = SendFailed"
  "is_failed (become_failed ch)"
  by (simp_all add: become_failed_def is_failed_def)

lemma channel_wf_failed [simp]: "channel_wf r ch \<Longrightarrow> channel_wf r (become_failed ch)"
  by (simp add: channel_wf_def become_failed_def)

lemma channel_wf_send_error [simp]: "channel_wf r ch \<Longrightarrow> channel_wf r (send_error e ch)"
  by (simp add: channel_wf_def send_error_def)

lemma channel_wf_update [simp]:
  "channel_wf r ch \<Longrightarrow> channel_wf r (ch\<lparr>channel_sync_state := s\<rparr>)"
  "channel_wf r ch \<Longrightarrow> channel_wf r (ch\<lparr>channel_noise := n\<rparr>)"
  "channel_wf r ch \<Longrightarrow> channel_wf r (ch\<lparr>channel_phase := p\<rparr>)"
  "channel_wf r ch \<Longrightarrow> ack_wf a \<Longrightarrow> channel_wf r (ch\<lparr>send_ack := a\<rparr>)"
  "channel_wf r ch \<Longrightarrow> send_wf r st \<Longrightarrow> st \<noteq> SendFailed \<Longrightarrow> channel_wf r (ch\<lparr>send_state := st\<rparr>)"
  "channel_wf r ch \<Longrightarrow> receive_wf rt \<Longrightarrow> send_state ch \<noteq> SendFailed \<Longrightarrow> channel_wf r (ch\<lparr>receive_state := rt\<rparr>)"
  "channel_wf r ch \<Longrightarrow> receive_wf rt \<Longrightarrow> receive_state ch \<noteq> ReceiveFailed \<Longrightarrow> channel_wf r (ch\<lparr>receive_state := rt\<rparr>)"
  by (auto simp: channel_wf_def)

lemma is_sending_iff: "is_sending ch \<longleftrightarrow> (\<exists>f n. send_state ch = Sending f n)"
  by (simp add: is_sending_def split: send_state.splits)

lemma is_receiving_iff: "is_receiving ch \<longleftrightarrow> (\<exists>x. receive_state ch = Receiving x)"
  by (simp add: is_receiving_def split: receive_state.splits)

lemma receiving_not_failed: "channel_wf r ch \<Longrightarrow> receive_state ch = Receiving x \<Longrightarrow> send_state ch \<noteq> SendFailed"
  by (auto simp: channel_wf_def)

lemma receive_wfD: "channel_wf r ch \<Longrightarrow> receive_state ch = Receiving x \<Longrightarrow> reas_wf x"
  by (simp add: channel_wf_def)

lemma send_wfD: "channel_wf r ch \<Longrightarrow> send_state ch = Sending f n \<Longrightarrow> frag_wf r f"
  by (simp add: channel_wf_def)

section \<open>Incoming packets are safe\<close>

lemma handle_ack_safe:
  assumes "channel_wf r ch" "parse_cb_channel packet = Ok (cb, c, tail)" "\<not> cb_is_codec_v1 cb"
  shows "safely (channel_wf r) (handle_ack r ch packet)"
  unfolding handle_ack_def Let_def
  using assms(1) reassembler_not_codec_no_panic(1) [OF assms(2,3)]
  by (auto intro!: safely_and_then safely_pair split: prod.splits)

lemma handle_error_safe:
  assumes "channel_wf r ch" "parse_cb_channel packet = Ok (cb, c, tail)" "\<not> cb_is_codec_v1 cb"
  shows "safely (channel_wf r) (handle_error r ch packet)"
  using assms(1) reassembler_not_codec_no_panic(1) [OF assms(2,3)]
  by (auto simp: handle_error_def split: result.splits)

lemma handle_cont_safe:
  assumes "channel_wf r ch"
  shows "safely (\<lambda>(ch', buf'). channel_wf r ch' \<and> length buf' = length buf) (handle_cont r ch packet buf)"
proof (cases "receive_state ch")
  case (Receiving x)
  then show ?thesis
    using assms reassembler_update_safe [OF receive_wfD [OF assms Receiving], of buf r packet]
      receiving_not_failed [OF assms Receiving]
    by (auto simp: handle_cont_def safely_def case_prod_unfold Let_def)
qed (use assms in \<open>simp_all add: handle_cont_def\<close>)

lemma handle_invalid_seq_safe:
  "channel_wf r ch \<Longrightarrow>
     safely (\<lambda>ch'. channel_wf r ch' \<and> send_state ch' = send_state ch) (handle_invalid_seq ch sb)"
  by (simp add: handle_invalid_seq_def)

lemma handle_init_safe:
  assumes "channel_wf r ch" "parse_cb_channel packet = Ok (cb, c, tail)" "\<not> cb_is_codec_v1 cb"
    and nf: "send_state ch \<noteq> SendFailed"
  shows "safely (\<lambda>(ch', buf'). channel_wf r ch' \<and> length buf' = length buf) (handle_init r ch packet buf)"
proof -
  let ?z = "replicate (length buf) 0"
  obtain res buf' where new: "reassembler_new r packet ?z = (res, buf')" by fastforce
  have len: "length buf' = length buf"
    using reassembler_new_length [of r packet ?z] new by simp
  have np: "res \<noteq> Panic" using reassembler_not_codec_no_panic(2) [OF assms(2,3), of r ?z] new by simp
  have "reas_wf x" if "res = Ok x" for x
  proof (rule reassembler_new_wf)
    show n: "reassembler_new r packet ?z = (Ok x, buf')" using new that by simp
    show "header_is_init (reas_header x)"
      using reassembler_new_Ok [OF n] header_parse_not_codec(1) [OF _ assms(2,3)] by metis
  qed
  then show ?thesis
    using assms(1) nf new len np by (cases res) (auto simp: handle_init_def)
qed

lemma handle_last_packet_safe:
  "channel_wf r ch \<Longrightarrow> safely (channel_wf r) (handle_last_packet ch buf)"
  by (auto simp: handle_last_packet_def Let_def split: receive_state.splits result.splits prod.splits)

lemma handle_packet_safe:
  assumes wf: "channel_wf r ch" and nf: "\<not> is_failed ch"
  shows "safely (\<lambda>(ch', buf'). channel_wf r ch' \<and> length buf' = length buf) (handle_packet r ch packet buf)"
proof (cases "parse_cb_channel packet")
  case (Ok p)
  then obtain cb c tail where p: "parse_cb_channel packet = Ok (cb, c, tail)" by (cases p) auto
  have codec: "\<not> cb_is_codec_v1 cb"
    if "cb_is_ack cb \<or> cb_is_error cb \<or> cb_is_handshake cb \<or> cb_is_encrypted_transport cb"
    using that by (auto simp: cb_tests Let_def split: if_splits)
  let ?P = "\<lambda>(ch', buf'). channel_wf r ch' \<and> length buf' = length buf"
  have last: "safely ?P (let (res, ch) = handle_last_packet ch' buf' in (res, (ch, buf')))"
    if "channel_wf r ch'" "length buf' = length buf" for ch' :: "'a channel" and buf'
    using handle_last_packet_safe [OF that(1), of buf'] that(2)
    by (auto simp: safely_def case_prod_unfold Let_def)
  have seq: "safely ?P (let (res, ch) = handle_invalid_seq ch (cb_sync_bits cb) in
        and_then_st (res, (ch, buf)) (\<lambda>_ (ch, buf).
          if is_sending ch \<and> \<not> is_ack_piggybacking_allowed (channel_sync_state ch)
          then (Err MalformedData, (ch, buf)) else handle_init r ch packet buf))"
    if "cb_is_handshake cb \<or> cb_is_encrypted_transport cb"
    using handle_invalid_seq_safe [OF wf, of "cb_sync_bits cb"] codec that nf
    by (auto simp: case_prod_unfold Let_def safely_def [of "\<lambda>ch'. channel_wf r ch' \<and> _ ch'"] is_failed_def
        intro!: safely_bind [where P = "\<lambda>(ch', buf'). channel_wf r ch' \<and> send_state ch' = send_state ch \<and> length buf' = length buf"]
          safely_pair handle_init_safe [OF _ p, THEN safely_mono])
  show ?thesis
  proof (cases "c \<noteq> channel_id ch \<or> cb_is_ack cb \<or> cb_is_error cb")
    case True
    then show ?thesis
      using wf p codec handle_ack_safe [OF wf p] handle_error_safe [OF wf p]
      by (auto simp: handle_packet_def safely_def case_prod_unfold Let_def map_ok_def and_then_eq_Panic)
  next
    case False
    have "safely ?P (if cb_is_continuation cb then handle_cont r ch packet buf
          else if cb_is_handshake cb \<or> cb_is_encrypted_transport cb then
            let (res, ch) = handle_invalid_seq ch (cb_sync_bits cb) in
            and_then_st (res, (ch, buf)) (\<lambda>_ (ch, buf).
            if is_sending ch \<and> \<not> is_ack_piggybacking_allowed (channel_sync_state ch)
            then (Err MalformedData, (ch, buf))
            else handle_init r ch packet buf)
          else (Err MalformedData, (ch, buf)))" (is "safely _ ?body")
      using handle_cont_safe [OF wf] seq wf by simp
    then have "safely ?P (and_then_st ?body (\<lambda>_ (ch, buf).
         let (res, ch) = handle_last_packet ch buf in (res, (ch, buf))))"
      by (rule safely_and_then) (use last in auto)
    then show ?thesis using False p by (simp add: handle_packet_def)
  qed
qed (use wf in \<open>simp_all add: handle_packet_def\<close>)

lemma pir_from_result_Ok: "res \<noteq> Panic \<Longrightarrow> \<exists>x. pir_from_result res = Ok x"
  by (cases res) auto

lemma channel_packet_in_safe:
  assumes "channel_wf r ch"
  shows "safely (\<lambda>(ch', buf'). channel_wf r ch' \<and> length buf' = length buf) (channel_packet_in r ch packet buf)"
  using handle_packet_safe [OF assms, of buf packet] assms pir_from_result_Ok
  by (cases "is_failed ch"; auto simp: channel_packet_in_def safely_def case_prod_unfold Let_def split: result.splits packet_in_result.splits;
      metis result.distinct(3))

lemma channel_packet_in_Ok:
  assumes "channel_wf r ch"
  obtains res ch' buf' where "channel_packet_in r ch packet buf = (Ok res, (ch', buf'))"
    "channel_wf r ch'" "length buf' = length buf"
proof -
  have "fst (channel_packet_in r ch packet buf) \<noteq> Err e" for e
    by (cases "fst (handle_packet r ch packet buf)") (auto simp: channel_packet_in_def case_prod_unfold Let_def)
  then obtain res where "fst (channel_packet_in r ch packet buf) = Ok res"
    using safelyD(1) [OF channel_packet_in_safe [OF assms, of buf packet]] by (metis result.exhaust)
  then show thesis
    using channel_packet_in_safe [OF assms, of buf packet] that
    by (cases "channel_packet_in r ch packet buf") (auto simp: safely_def)
qed

section \<open>Outgoing packets and messages are safe\<close>

lemma new_header_wf:
  "new_ack c = Ok h \<Longrightarrow> header_wf h \<and> header_is_init h"
  "new_error c = Ok h \<Longrightarrow> header_wf h \<and> header_is_init h"
  "new_encrypted c p = Ok h \<Longrightarrow> header_wf h \<and> header_is_init h"
  "new_handshake c m p = Ok h \<Longrightarrow> header_wf h \<and> header_is_init h"
  "new_channel_response p = Ok h \<Longrightarrow> header_wf h \<and> header_is_init h"
  by (auto simp: new_header_Ok dest: validate_len_wf)

lemma send_start_wf: "send_start s = Some sb \<Longrightarrow> sync_bits_wf sb"
  by (auto simp: send_start_def Let_def split: if_splits)

lemma raw_in_ext_safe:
  assumes "channel_wf r ch" "header_wf h" "header_is_init h" "\<And>sb. header_control_byte r h sb \<noteq> None"
  shows "safely (channel_wf r) (raw_in_ext ch h buf b)"
proof -
  have fw: "channel_wf r (c\<lparr>send_state := Sending f 0\<rparr>)"
    if "fragmenter_new h sb buf = Ok f" "sync_bits_wf sb" "channel_wf r c" for f sb and c :: "'a channel"
    using that assms(2-4) by (auto simp: fragmenter_new_def frag_wf_def split: if_splits)
  have "fragmenter_new h sb buf \<noteq> Panic" for sb by (simp add: fragmenter_new_def)
  then show ?thesis
    using assms(1)
    by (auto simp: raw_in_ext_def Let_def split: if_split_asm
        intro!: safely_and_then safely_pair fw dest!: send_start_wf)
qed

lemma fragmenter_put_body_keeps:
  assumes "fragmenter_put_body f payload rest = (written, f')"
  shows "frag_header f' = frag_header f" "frag_sync_bits f' = frag_sync_bits f" "length written \<le> length rest"
  using assms
  by (auto simp: fragmenter_put_body_def fragmenter_put_payload_def fragmenter_put_crc_def Let_def
      split: if_splits)

lemma fragmenter_put_header_keeps:
  assumes "fragmenter_put_header r f dest = (res, (f', dest'))"
  shows "frag_header f' = frag_header f" "frag_sync_bits f' = frag_sync_bits f" "length dest' = length dest"
    "res = Ok n \<Longrightarrow> n \<le> length dest"
  using assms
  by (auto simp: fragmenter_put_header_def header_to_bytes_eq length_header_bytes
      split: if_splits; cases "new_continuation (header_channel_id (frag_header f))";
      auto simp: header_to_bytes_eq length_header_bytes split: if_splits)+

lemma fragmenter_next_keeps:
  assumes "fragmenter_next r f payload dest = (res, (f', dest'))"
  shows "frag_header f' = frag_header f" "frag_sync_bits f' = frag_sync_bits f" "length dest' = length dest"
proof -
  obtain hres f1 d1 where h: "fragmenter_put_header r f dest = (hres, (f1, d1))" by (metis prod.exhaust)
  note keeps = fragmenter_put_header_keeps [OF h]
  have "frag_header f' = frag_header f \<and> frag_sync_bits f' = frag_sync_bits f \<and> length dest' = length dest"
    using assms h keeps
    by (cases hres) (auto simp: fragmenter_next_def Let_def dest: fragmenter_put_body_keeps
        split: if_splits prod.splits)
  then show "frag_header f' = frag_header f" "frag_sync_bits f' = frag_sync_bits f" "length dest' = length dest"
    by auto
qed

lemma channel_packet_out_safe:
  assumes wf: "channel_wf r ch"
  shows "safely (\<lambda>(ch', packet'). channel_wf r ch' \<and> receive_state ch' \<in> {receive_state ch, ReceiveFailed})
    (channel_packet_out r ch packet buf)"
proof (cases "send_ack ch")
  case None
  show ?thesis
  proof (cases "send_state ch")
    case (Sending f n)
    obtain res f' packet' where nx: "fragmenter_next r f buf packet = (res, (f', packet'))"
      by (metis prod.exhaust)
    have "frag_wf r f'"
      using fragmenter_next_keeps [OF nx] send_wfD [OF wf Sending] by (simp add: frag_wf_def)
    then show ?thesis
      using None Sending wf nx fragmenter_next_no_panic [of r f buf packet]
      by (auto simp: channel_packet_out_def intro!: safely_and_then safely_pair)
  qed (use None wf in \<open>auto simp: channel_packet_out_def case_prod_unfold Let_def
        intro!: safely_and_then safely_pair split: if_splits\<close>)
next
  case (Some sb)
  then show ?thesis
    using wf by (auto simp: channel_packet_out_def case_prod_unfold Let_def intro!: safely_and_then safely_pair)
qed

lemma encrypted_control_byte: "header_control_byte r (Encrypted c l) sb \<noteq> None"
  by (simp add: header_control_byte_def)

lemma channel_message_in_safe:
  assumes wf: "channel_wf r ch" and B: "backend_ok B"
  shows "safely (\<lambda>(ch', buf'). channel_wf r ch' \<and> length buf' = length buf) (channel_message_in B ch n buf)"
proof -
  have raw: "safely (channel_wf r) (raw_in c h bs)" if "channel_wf r c" "new_encrypted i p = Ok h"
    for c :: "'a channel" and h bs i p
    unfolding raw_in_def
    by (rule raw_in_ext_safe [OF that(1)])
      (use new_header_wf(3) [OF that(2)] that(2) encrypted_control_byte in \<open>auto simp: new_header_Ok\<close>)
  show ?thesis
    using wf noise_encrypt_length [OF B]
    by (auto simp: channel_message_in_def Let_def case_prod_unfold safelyD [OF raw]
        intro!: safely_and_then safely_pair)
qed

lemma raw_out_safe: "channel_wf r ch \<Longrightarrow> safely (channel_wf r) (raw_out ch buf)"
  by (auto simp: raw_out_def Let_def receive_acknowledge_def intro!: safely_and_then safely_pair
      split: receive_state.splits)

lemma raw_out_Ok:
  assumes "raw_out ch buf = (Ok (h, len), ch')"
  obtains x where "receive_state ch = Receiving x" "reassembler_is_done x" "reassembler_verify x buf = Ok len"
    "h = reas_header x"
    "ch' = ch\<lparr>channel_sync_state := snd (receive_acknowledge (channel_sync_state ch)),
       send_ack := Some (fst (receive_acknowledge (channel_sync_state ch))), receive_state := ReceiveIdle\<rparr>"
  using assms
  by (auto simp: raw_out_def Let_def and_then_st_eq_Ok case_prod_unfold split: receive_state.splits if_splits)

lemma reassembler_verify_length: "reassembler_verify x buf = Ok n \<Longrightarrow> n + CHECKSUM_LEN \<le> length buf"
  by (auto simp: reassembler_verify_def Let_def split: if_splits option.splits)

lemma channel_message_out_safe:
  assumes wf: "channel_wf r ch" and B: "backend_ok B"
  shows "safely (\<lambda>(ch', buf'). channel_wf r ch' \<and> length buf' = length buf) (channel_message_out B r' ch buf)"
proof -
  obtain res ch1 where out: "raw_out ch buf = (res, ch1)" by fastforce
  have ch1: "channel_wf r ch1" "res \<noteq> Panic"
    using raw_out_safe [OF wf, of buf] out by (auto simp: safely_def)
  have len: "len \<le> length buf" if "res = Ok (h, len)" for h len
    using raw_out_Ok [of ch buf h len ch1] out that reassembler_verify_length by (metis add_leD1)
  have dec: "length buf' = length bs \<and> res \<noteq> Panic \<and> (\<forall>n. res = Ok n \<longrightarrow> n \<le> length bs)"
    if "noise_decrypt B nc bs = (res, (nc', buf'))" for nc bs res nc' buf'
    using noise_decrypt_length [OF B that] noise_decrypt_no_panic [of B nc bs] that by auto
  show ?thesis
    using out ch1
    by (auto simp: channel_message_out_def Let_def intro!: safely_and_then safely_pair
        dest!: dec len split: prod.splits result.splits list.splits)
qed

section \<open>Driving a channel\<close>

text \<open>
  The caller's two loops: fetch packets while there are any, up to a bound, and hand over a
  sequence of received packets.
\<close>

fun channel_drain :: "role \<Rightarrow> nat \<Rightarrow> 'c channel \<Rightarrow> bytes \<Rightarrow> nat \<Rightarrow> bytes list \<times> 'c channel" where
  "channel_drain r 0 ch send_buffer sz = ([], ch)"
| "channel_drain r (Suc n) ch send_buffer sz =
     (if channel_packet_out_ready ch then
        (case channel_packet_out r ch (replicate sz 0) send_buffer of
           (Ok _, (ch, packet)) \<Rightarrow>
             let (packets, ch) = channel_drain r n ch send_buffer sz in (packet # packets, ch)
         | (_, (ch, _)) \<Rightarrow> ([], ch))
      else ([], ch))"

fun channel_feed ::
  "role \<Rightarrow> 'c channel \<Rightarrow> bytes list \<Rightarrow> bytes \<Rightarrow> packet_in_result thp_result list \<times> ('c channel \<times> bytes)" where
  "channel_feed r ch [] receive_buffer = ([], (ch, receive_buffer))"
| "channel_feed r ch (packet # packets) receive_buffer =
     (let (res, (ch, receive_buffer)) = channel_packet_in r ch packet receive_buffer;
          (results, st) = channel_feed r ch packets receive_buffer
      in (res # results, st))"

subsection \<open>Sending\<close>

lemma packet_out_sending:
  assumes s: "sendable r h sb payload" and sz: "MIN_PACKET_SIZE \<le> sz"
    and p: "p < length payload + CHECKSUM_LEN" "p = 0 \<or> payload \<noteq> []"
    and ch: "send_ack ch = None" "send_state ch = Sending (frag_state r h sb payload p) n"
    and uc: "header_channel_id h \<noteq> BROADCAST_CHANNEL_ID"
    and q: "q = min (p + packet_room sz p) (length payload + CHECKSUM_LEN)"
  shows "channel_packet_out r ch (replicate sz 0) payload =
    (Ok (), (let ch' = ch\<lparr>send_state := Sending (frag_state r h sb payload q) n\<rparr> in
             if q = length payload + CHECKSUM_LEN
             then ch'\<lparr>channel_sync_state := send_finish (channel_sync_state ch)\<rparr> else ch',
             packet_at r h sb payload sz p))"
proof -
  have "frag_header (frag_state r h sb payload q) = h" by (simp add: frag_state_def)
  then show ?thesis
    using fragmenter_next_state [OF s p(2) p(1), of "replicate sz 0"] ch sz uc q fragmenter_done_state [OF s, of q]
    by (auto simp: channel_packet_out_def Let_def)
qed

lemma channel_drain_sending:
  assumes s: "sendable r h sb payload" and sz: "MIN_PACKET_SIZE \<le> sz" and ne: "payload \<noteq> []"
    and ch: "send_ack ch = None" "send_state ch = Sending (frag_state r h sb payload p) n"
    and uc: "header_channel_id h \<noteq> BROADCAST_CHANNEL_ID"
    and p: "p < length payload + CHECKSUM_LEN" "length payload + CHECKSUM_LEN - p \<le> fuel"
  shows "channel_drain r fuel ch payload sz =
    (packets_from r h sb payload sz p,
     ch\<lparr>send_state := Sending (frag_state r h sb payload (length payload + CHECKSUM_LEN)) n,
        channel_sync_state := send_finish (channel_sync_state ch)\<rparr>)"
  using ch p
proof (induction fuel arbitrary: ch p)
  case (Suc fuel)
  define q where "q = min (p + packet_room sz p) (length payload + CHECKSUM_LEN)"
  have q: "p < q" "q \<le> length payload + CHECKSUM_LEN"
    using packet_room_pos [OF sz, of p] Suc.prems(3) by (auto simp: q_def)
  note out = packet_out_sending [OF s sz Suc.prems(3) _ Suc.prems(1,2) uc q_def]
  have ready: "channel_packet_out_ready ch"
    using Suc.prems fragmenter_done_state [OF s, of p] by (simp add: channel_packet_out_ready_def)
  have pk: "packets_from r h sb payload sz p = packet_at r h sb payload sz p # packets_from r h sb payload sz q"
    using Suc.prems(3) sz by (subst packets_from.simps) (simp add: q_def)
  show ?case
  proof (cases "q = length payload + CHECKSUM_LEN")
    case True
    have "\<not> channel_packet_out_ready (ch\<lparr>send_state := Sending (frag_state r h sb payload q) n,
        channel_sync_state := send_finish (channel_sync_state ch)\<rparr>)"
      using Suc.prems(1) fragmenter_done_state [OF s, of q] True by (simp add: channel_packet_out_ready_def)
    then have "channel_drain r fuel (ch\<lparr>send_state := Sending (frag_state r h sb payload q) n,
        channel_sync_state := send_finish (channel_sync_state ch)\<rparr>) payload sz = ([], ch\<lparr>send_state := Sending (frag_state r h sb payload q) n,
        channel_sync_state := send_finish (channel_sync_state ch)\<rparr>)"
      by (cases fuel) simp_all
    then show ?thesis
      using ready out ne pk True by (simp add: Let_def packets_from.simps)
  next
    case False
    then have "channel_drain r fuel (ch\<lparr>send_state := Sending (frag_state r h sb payload q) n\<rparr>) payload sz =
      (packets_from r h sb payload sz q,
       ch\<lparr>send_state := Sending (frag_state r h sb payload (length payload + CHECKSUM_LEN)) n,
          channel_sync_state := send_finish (channel_sync_state ch)\<rparr>)"
      using Suc.IH [of "ch\<lparr>send_state := Sending (frag_state r h sb payload q) n\<rparr>" q] Suc.prems q by simp
    then show ?thesis using ready out ne pk False by (simp add: Let_def)
  qed
qed simp

subsection \<open>Receiving\<close>

lemma parse_first_packet:
  assumes s: "sendable r h sb payload" and h: "header_is_encrypted h \<or> header_is_handshake h"
  obtains cb where "parse_cb_channel (packet_at r h sb payload sz 0)
      = Ok (cb, header_channel_id h, drop CONT_LEN (packet_at r h sb payload sz 0))"
    "\<not> cb_is_ack cb" "\<not> cb_is_error cb" "\<not> cb_is_continuation cb"
    "cb_is_handshake cb \<or> cb_is_encrypted_transport cb" "cb_sync_bits cb = sb"
proof -
  have sb: "sync_bits_wf sb" and init: "header_is_init h" using s by (auto simp: sendable_def)
  obtain cb where cb: "header_control_byte r h sb = Some cb" using s by (auto simp: sendable_def)
  have "packet_at r h sb payload sz 0 = cb_byte cb # u16_to_be (header_channel_id h)
      @ u16_to_be (header_payload_len h) @ packet_body r h sb payload sz 0"
    using header_bytes_Cons [OF cb init] by (simp add: packet_at_body packet_header_def)
  then have "parse_cb_channel (packet_at r h sb payload sz 0)
      = Ok (cb, header_channel_id h, drop CONT_LEN (packet_at r h sb payload sz 0))"
    using header_control_byte_accepted(1) [OF cb init sb] by (simp add: parse_cb_channel_Ok header_consts)
  moreover have "\<not> cb_is_ack cb" "\<not> cb_is_error cb" "\<not> cb_is_continuation cb"
    "cb_is_handshake cb \<or> cb_is_encrypted_transport cb" "cb_sync_bits cb = sb"
    using h cb sb
    by (cases h; auto simp: header_control_byte_def sent_bytes_accepted cb_is_handshake_def split: if_splits)+
  ultimately show thesis by (rule that)
qed

lemma parse_later_packet:
  "0 < p \<Longrightarrow> parse_cb_channel (packet_at r h sb payload sz p) =
     Ok (cb_continuation, header_channel_id h, packet_body r h sb payload sz p)"
  by (simp add: packet_at_body packet_header_def header_bytes_def control_byte_to_u8_def
      parse_cb_channel_Ok control_byte_try_from_def)
    (simp add: cb_tests cb_makers)

lemma continuation_class:
  "cb_is_continuation cb_continuation" "\<not> cb_is_ack cb_continuation" "\<not> cb_is_error cb_continuation"
  by (simp_all add: cb_tests cb_makers)

lemma handle_last_state:
  assumes s: "sendable r h sb payload" and ch: "receive_state ch = Receiving (reas_state r h sb payload p)"
    and buf: "buf = take p (msg_stream r h sb payload) @ drop p buffer"
    and len: "length payload + CHECKSUM_LEN \<le> length buffer" "p \<le> length payload + CHECKSUM_LEN"
    and ns: "\<not> is_sending ch"
  shows "handle_last_packet ch buf = (Ok (pir_accept (p = length payload + CHECKSUM_LEN)), ch)"
proof -
  have "check_buffer_len ch buf = None"
    using s ch len by (auto simp: check_buffer_len_def buf reas_state_def sendable_def Let_def)
  moreover have "reassembler_verify (reas_state r h sb payload p) buf = Ok (length payload)"
    if "p = length payload + CHECKSUM_LEN"
    using reassembler_verify_state [OF s] that by (simp add: buf)
  ultimately show ?thesis
    using ch ns reassembler_done_state [OF s, of p] len(2)
    by (auto simp: handle_last_packet_def pir_accept_def)
qed

lemma packet_in_first:
  assumes s: "sendable r h sb payload" and h: "header_is_encrypted h \<or> header_is_handshake h"
    and ch: "\<not> is_failed ch" "\<not> is_sending ch" "channel_id ch = header_channel_id h"
      "receive_start (channel_sync_state ch) sb"
    and len: "length payload + CHECKSUM_LEN \<le> length buffer"
    and n: "n = min (packet_room sz 0) (length payload + CHECKSUM_LEN)"
  shows "channel_packet_in (peer r) ch (packet_at r h sb payload sz 0) buffer =
    (Ok (pir_accept (n = length payload + CHECKSUM_LEN)),
     (ch\<lparr>receive_state := Receiving (reas_state r h sb payload n)\<rparr>,
      take n (msg_stream r h sb payload) @ drop n (replicate (length buffer) 0)))"
proof -
  obtain cb where p: "parse_cb_channel (packet_at r h sb payload sz 0)
      = Ok (cb, header_channel_id h, drop CONT_LEN (packet_at r h sb payload sz 0))"
    "\<not> cb_is_ack cb" "\<not> cb_is_error cb" "\<not> cb_is_continuation cb"
    "cb_is_handshake cb \<or> cb_is_encrypted_transport cb" "cb_sync_bits cb = sb"
    using parse_first_packet [OF s h] by metis
  let ?ch = "ch\<lparr>receive_state := Receiving (reas_state r h sb payload n)\<rparr>"
  have "handle_init (peer r) ch (packet_at r h sb payload sz 0) buffer =
      (Ok (), (?ch, take n (msg_stream r h sb payload) @ drop n (replicate (length buffer) 0)))"
    using reassembler_new_packet [OF s _ n, of "replicate (length buffer) 0"] len
    by (simp add: handle_init_def)
  moreover have "handle_last_packet ?ch (take n (msg_stream r h sb payload) @ drop n (replicate (length buffer) 0))
      = (Ok (pir_accept (n = length payload + CHECKSUM_LEN)), ?ch)"
    using ch(2) len n by (intro handle_last_state [OF s _ refl]) (auto simp: is_sending_def)
  ultimately have "handle_packet (peer r) ch (packet_at r h sb payload sz 0) buffer =
     (Ok (pir_accept (n = length payload + CHECKSUM_LEN)),
      (?ch, take n (msg_stream r h sb payload) @ drop n (replicate (length buffer) 0)))"
    using p ch by (simp add: handle_packet_def handle_invalid_seq_def)
  then show ?thesis using ch(1) by (simp add: channel_packet_in_def pir_accept_def)
qed

lemma packet_in_later:
  assumes s: "sendable r h sb payload"
    and ch: "\<not> is_failed ch" "\<not> is_sending ch" "channel_id ch = header_channel_id h"
      "receive_state ch = Receiving (reas_state r h sb payload p)"
    and len: "length payload + CHECKSUM_LEN \<le> length buffer"
    and p: "0 < p" "p < length payload + CHECKSUM_LEN"
    and n: "n = min (p + packet_room sz p) (length payload + CHECKSUM_LEN)"
  shows "channel_packet_in (peer r) ch (packet_at r h sb payload sz p) (take p (msg_stream r h sb payload) @ drop p buffer) =
    (Ok (pir_accept (n = length payload + CHECKSUM_LEN)),
     (ch\<lparr>receive_state := Receiving (reas_state r h sb payload n)\<rparr>,
      take n (msg_stream r h sb payload) @ drop n buffer))"
proof -
  let ?ch = "ch\<lparr>receive_state := Receiving (reas_state r h sb payload n)\<rparr>"
  have "handle_last_packet ?ch (take n (msg_stream r h sb payload) @ drop n buffer)
      = (Ok (pir_accept (n = length payload + CHECKSUM_LEN)), ?ch)"
    using ch(2) len n by (intro handle_last_state [OF s _ refl]) (auto simp: is_sending_def)
  then have "handle_packet (peer r) ch (packet_at r h sb payload sz p) (take p (msg_stream r h sb payload) @ drop p buffer) =
     (Ok (pir_accept (n = length payload + CHECKSUM_LEN)),
      (?ch, take n (msg_stream r h sb payload) @ drop n buffer))"
    using parse_later_packet [OF p(1)] ch continuation_class reassembler_update_packet [OF s len p n]
    by (simp add: handle_packet_def handle_cont_def)
  then show ?thesis using ch(1) by (simp add: channel_packet_in_def pir_accept_def)
qed

lemma channel_feed_later:
  assumes s: "sendable r h sb payload" and sz: "MIN_PACKET_SIZE \<le> sz"
    and ch: "\<not> is_failed ch" "\<not> is_sending ch" "channel_id ch = header_channel_id h"
      "receive_state ch = Receiving (reas_state r h sb payload p)"
    and len: "length payload + CHECKSUM_LEN \<le> length buffer"
    and p: "0 < p" "p < length payload + CHECKSUM_LEN"
  shows "\<exists>results. channel_feed (peer r) ch (packets_from r h sb payload sz p)
      (take p (msg_stream r h sb payload) @ drop p buffer) =
    (results @ [Ok (pir_accept True)],
     (ch\<lparr>receive_state := Receiving (reas_state r h sb payload (length payload + CHECKSUM_LEN))\<rparr>,
      msg_stream r h sb payload @ drop (length payload + CHECKSUM_LEN) buffer))
    \<and> list_all (\<lambda>x. x = Ok (pir_accept False)) results"
  using ch p
proof (induction "length payload + CHECKSUM_LEN - p" arbitrary: ch p rule: less_induct)
  case less
  define n where "n = min (p + packet_room sz p) (length payload + CHECKSUM_LEN)"
  have n: "p < n" "n \<le> length payload + CHECKSUM_LEN"
    using packet_room_pos [OF sz, of p] less.prems(6) by (auto simp: n_def)
  have pk: "packets_from r h sb payload sz p = packet_at r h sb payload sz p # packets_from r h sb payload sz n"
    using less.prems(6) sz by (subst packets_from.simps) (simp add: n_def)
  note step = packet_in_later [OF s less.prems(1-4) len less.prems(5,6) n_def]
  show ?case
  proof (cases "n = length payload + CHECKSUM_LEN")
    case True
    then show ?thesis using step pk by (intro exI [of _ "[]"]) (simp add: packets_from.simps)
  next
    case False
    let ?ch = "ch\<lparr>receive_state := Receiving (reas_state r h sb payload n)\<rparr>"
    have "\<not> is_failed ?ch" "\<not> is_sending ?ch"
      "length payload + CHECKSUM_LEN - n < length payload + CHECKSUM_LEN - p"
      using less.prems(1,2,6) n(1) by (simp_all add: is_failed_def is_sending_def diff_less_mono2)
    then obtain results where "channel_feed (peer r) ?ch (packets_from r h sb payload sz n)
        (take n (msg_stream r h sb payload) @ drop n buffer) =
      (results @ [Ok (pir_accept True)],
       (ch\<lparr>receive_state := Receiving (reas_state r h sb payload (length payload + CHECKSUM_LEN))\<rparr>,
        msg_stream r h sb payload @ drop (length payload + CHECKSUM_LEN) buffer))"
      "list_all (\<lambda>x. x = Ok (pir_accept False)) results"
      using less.hyps [of n ?ch] n False less.prems(3,5) by auto
    then show ?thesis
      using step pk False by (intro exI [of _ "Ok (pir_accept False) # results"]) simp
  qed
qed

lemma channel_feed_message:
  assumes s: "sendable r h sb payload" and sz: "MIN_PACKET_SIZE \<le> sz"
    and h: "header_is_encrypted h \<or> header_is_handshake h"
    and ch: "\<not> is_failed ch" "\<not> is_sending ch" "channel_id ch = header_channel_id h"
      "receive_start (channel_sync_state ch) sb"
    and len: "length payload + CHECKSUM_LEN \<le> length buffer"
  shows "\<exists>results. channel_feed (peer r) ch (packets_from r h sb payload sz 0) buffer =
    (results @ [Ok (pir_accept True)],
     (ch\<lparr>receive_state := Receiving (reas_state r h sb payload (length payload + CHECKSUM_LEN))\<rparr>,
      msg_stream r h sb payload @ replicate (length buffer - (length payload + CHECKSUM_LEN)) 0))
    \<and> list_all (\<lambda>x. x = Ok (pir_accept False)) results"
proof -
  define n where "n = min (packet_room sz 0) (length payload + CHECKSUM_LEN)"
  have n: "0 < n" "n \<le> length payload + CHECKSUM_LEN"
    using packet_room_pos [OF sz, of 0] by (auto simp: n_def CHECKSUM_LEN_def)
  have pk: "packets_from r h sb payload sz 0 = packet_at r h sb payload sz 0 # packets_from r h sb payload sz n"
    using sz by (subst packets_from.simps) (simp add: n_def CHECKSUM_LEN_def)
  note step = packet_in_first [OF s h ch len n_def]
  show ?thesis
  proof (cases "n = length payload + CHECKSUM_LEN")
    case True
    then show ?thesis using step pk by (intro exI [of _ "[]"]) (simp add: packets_from.simps)
  next
    case False
    let ?ch = "ch\<lparr>receive_state := Receiving (reas_state r h sb payload n)\<rparr>"
    have "\<not> is_failed ?ch" "\<not> is_sending ?ch" using ch(1,2) by (simp_all add: is_failed_def is_sending_def)
    then obtain results where "channel_feed (peer r) ?ch (packets_from r h sb payload sz n)
        (take n (msg_stream r h sb payload) @ drop n (replicate (length buffer) 0)) =
      (results @ [Ok (pir_accept True)],
       (ch\<lparr>receive_state := Receiving (reas_state r h sb payload (length payload + CHECKSUM_LEN))\<rparr>,
        msg_stream r h sb payload @ drop (length payload + CHECKSUM_LEN) (replicate (length buffer) 0)))"
      "list_all (\<lambda>x. x = Ok (pir_accept False)) results"
      using channel_feed_later [OF s sz, of ?ch n "replicate (length buffer) 0"] n False len ch(3) by auto
    then show ?thesis
      using step pk False by (intro exI [of _ "Ok (pir_accept False) # results"]) simp
  qed
qed

subsection \<open>Messages in and out\<close>

text \<open>
  The law of an authenticated cipher in counter mode: \<open>R\<close> relates the encryption state of
  one end to the decryption state of the other; a message encrypted in a related state is
  decrypted, and the states stay related.
\<close>

definition aead_paired :: "('c, 'h) backend \<Rightarrow> ('c \<Rightarrow> 'c \<Rightarrow> bool) \<Rightarrow> bool" where
  "aead_paired B R \<longleftrightarrow>
     (\<forall>e d buf n. R e d \<longrightarrow> n + TAG_LEN = length buf \<longrightarrow>
        (case encrypt_ad_in_place B e [] buf n of (ct, e') \<Rightarrow>
         case decrypt_ad_in_place B d [] ct (length ct) of (m, pt, d') \<Rightarrow>
           length ct = length buf \<and> m = Some n \<and> length pt = length buf \<and> take n pt = take n buf \<and> R e' d'))"

lemma aead_pairedD:
  assumes "aead_paired B R" "R e d" "n + TAG_LEN = length buf"
    and "encrypt_ad_in_place B e [] buf n = (ct, e')"
    and "decrypt_ad_in_place B d [] ct (length ct) = (k, pt, d')"
  shows "length ct = length buf" "k = Some n" "length pt = length buf" "take n pt = take n buf" "R e' d'"
proof -
  have "case encrypt_ad_in_place B e [] buf n of (ct, e') \<Rightarrow>
      case decrypt_ad_in_place B d [] ct (length ct) of (m, pt, d') \<Rightarrow>
        length ct = length buf \<and> m = Some n \<and> length pt = length buf \<and> take n pt = take n buf \<and> R e' d'"
    by (rule assms(1) [unfolded aead_paired_def, rule_format, OF assms(2,3)])
  then show "length ct = length buf" "k = Some n" "length pt = length buf" "take n pt = take n buf" "R e' d'"
    using assms(4,5) by simp_all
qed

definition app_plaintext :: "u8 \<Rightarrow> u16 \<Rightarrow> bytes \<Rightarrow> bytes" where
  "app_plaintext sid mt msg = [sid] @ u16_to_be mt @ msg"

lemma length_app_plaintext [simp]: "length (app_plaintext sid mt msg) = length msg + APP_HEADER_LEN"
  by (simp add: app_plaintext_def APP_HEADER_LEN_def)

lemma channel_message_in_from_state:
  assumes a: "channel_message_in_ready a" "can_send (channel_sync_state a)" "channel_noise a = Some nc"
      "unicast_valid (channel_id a)" "send_ack a = None"
    and size: "length msg + SEND_BUFFER_OVERHEAD + CHECKSUM_LEN \<le> 60000"
    and buf: "length buf = length msg + SEND_BUFFER_OVERHEAD"
    and enc: "encrypt_ad_in_place B (nc_encrypt nc) []
        (app_plaintext sid mt msg @ drop (length msg + APP_HEADER_LEN) buf) (length msg + APP_HEADER_LEN) = (ct, e')"
      "length ct = length buf"
  obtains h sb where "sendable r h sb ct" "header_is_encrypted h" "header_channel_id h = channel_id a"
    "send_start (channel_sync_state a) = Some sb"
    "channel_message_in_from B a sid mt msg buf =
      (Ok (), (a\<lparr>channel_noise := Some (nc\<lparr>nc_encrypt := e'\<rparr>), send_state := Sending (frag_state r h sb ct 0) 0\<rparr>, ct))"
proof -
  obtain sb where sb: "send_start (channel_sync_state a) = Some sb"
    using a(2) by (auto simp: send_start_def Let_def)
  define l where "l = (of_nat (length ct + 4) :: u16)"
  define h where "h = Encrypted (channel_id a) l"
  have l: "validate_len ct = Ok l"
    using size enc(2) buf by (simp add: validate_len_Ok l_def CHECKSUM_LEN_def)
  have new: "new_encrypted (channel_id a) ct = Ok h"
    using a(4) l by (simp add: new_header_Ok h_def)
  have s: "sendable r h sb ct"
    using a(4) validate_len_wf [OF l] send_start_wf [OF sb]
    by (simp add: sendable_def h_def header_control_byte_def CHECKSUM_LEN_def)
  have tot: "length msg + APP_HEADER_LEN + TAG_LEN = length buf" using buf by (simp add: SEND_BUFFER_OVERHEAD_def)
  define n where "n = length msg + APP_HEADER_LEN"
  define pl where "pl = app_plaintext sid mt msg @ drop n buf"
  have pl: "length pl = length buf" "n + TAG_LEN = length buf" using tot by (simp_all add: pl_def n_def)
  have "raw_in (a\<lparr>channel_noise := x\<rparr>) h ct =
      (Ok (), a\<lparr>channel_noise := x, send_state := Sending (frag_state r h sb ct 0) 0\<rparr>)" for x
    using a sb fragmenter_new_state [OF s]
    by (simp add: raw_in_def raw_in_ext_def channel_message_in_ready_def)
  then have "channel_message_in B a n pl =
      (Ok (), (a\<lparr>channel_noise := Some (nc\<lparr>nc_encrypt := e'\<rparr>), send_state := Sending (frag_state r h sb ct 0) 0\<rparr>, ct))"
    using a pl enc new by (simp add: channel_message_in_def noise_encrypt_def pl_def n_def)
  moreover have "channel_message_in_from B a sid mt msg buf = channel_message_in B a n pl"
    using a(1) pl(2)
    by (simp add: channel_message_in_from_def message_in_from_def n_def pl_def app_plaintext_def Let_def)
  ultimately show thesis using that s sb by (simp add: h_def)
qed

lemma channel_message_out_state:
  assumes s: "sendable r h sb ct" "header_is_encrypted h"
    and b: "receive_state b = Receiving (reas_state r h sb ct (length ct + CHECKSUM_LEN))" "channel_noise b = Some nc"
    and dec: "decrypt_ad_in_place B (nc_decrypt nc) [] ct (length ct) = (Some n, pt, d')"
      "take n pt = app_plaintext sid mt msg" "length pt = length ct" "n = length msg + APP_HEADER_LEN"
      "length ct = n + TAG_LEN"
  shows "channel_message_out B r' b (msg_stream r h sb ct @ rest) =
    (Ok (sid, mt, msg),
     (b\<lparr>channel_sync_state := snd (receive_acknowledge (channel_sync_state b)),
        send_ack := Some (fst (receive_acknowledge (channel_sync_state b))),
        receive_state := ReceiveIdle, channel_noise := Some (nc\<lparr>nc_decrypt := d'\<rparr>)\<rparr>,
      pt @ drop (length ct) (msg_stream r h sb ct @ rest)))"
proof -
  have "raw_out b (msg_stream r h sb ct @ rest) = (Ok (h, length ct),
      b\<lparr>channel_sync_state := snd (receive_acknowledge (channel_sync_state b)),
        send_ack := Some (fst (receive_acknowledge (channel_sync_state b))), receive_state := ReceiveIdle\<rparr>)"
    using b(1) reassembler_verify_state [OF s(1)] reassembler_done_state [OF s(1)]
    by (simp add: raw_out_def case_prod_unfold Let_def) (simp add: reas_state_def)
  moreover have "slice_to (length ct) (msg_stream r h sb ct @ rest) = (Ok ct :: bytes thp_result)"
    by (simp add: msg_stream_def)
  moreover have "noise_decrypt B nc ct = (Ok n, (nc\<lparr>nc_decrypt := d'\<rparr>, pt))"
    using dec(1,5) by (simp add: noise_decrypt_def)
  moreover have "slice_to n pt = (Ok (app_plaintext sid mt msg) :: bytes thp_result)"
    using dec(2,3,5) by simp
  moreover have "parse_u16 (u16_to_be mt @ msg) = Ok (mt, msg)" by (simp add: parse_u16_Ok)
  ultimately show ?thesis
    using s(2) b(2)
    by (simp add: channel_message_out_def app_plaintext_def del: slice_to_eq)
qed

subsection \<open>Acknowledgements\<close>

lemma packet_out_ack:
  assumes "send_ack b = Some sb" "sync_bits_wf sb" "\<not> seq_bit sb" "unicast_valid (channel_id b)"
    and "INIT_LEN + CHECKSUM_LEN \<le> sz"
  shows "sendable r (Ack (channel_id b)) sb []"
    "channel_packet_out r b (replicate sz 0) buf =
      (Ok (), (b\<lparr>send_ack := None\<rparr>, packet_at r (Ack (channel_id b)) sb [] sz 0))"
proof -
  show s: "sendable r (Ack (channel_id b)) sb []"
    using assms by (simp add: sendable_def header_control_byte_def header_consts CHECKSUM_LEN_def)
  have "new_ack (channel_id b) = Ok (Ack (channel_id b))" using assms(4) by (simp add: new_header_Ok)
  then show "channel_packet_out r b (replicate sz 0) buf =
      (Ok (), (b\<lparr>send_ack := None\<rparr>, packet_at r (Ack (channel_id b)) sb [] sz 0))"
    using assms fragmenter_single_packet [OF s, of "replicate sz 0"] by (simp add: channel_packet_out_def)
qed

lemma packet_in_ack:
  assumes s: "sendable r (Ack c) sb []" and sz: "INIT_LEN + CHECKSUM_LEN \<le> sz"
    and a: "\<not> is_failed a" "is_sending a" "channel_id a = c" "sync_send (channel_sync_state a) = ack_bit sb"
  shows "channel_packet_in (peer r) a (packet_at r (Ack c) sb [] sz 0) buf =
    (Ok pir_ack, (a\<lparr>channel_sync_state := (channel_sync_state a)\<lparr>sync_send := \<not> ack_bit sb, can_send := True\<rparr>,
       send_state := SendIdle\<rparr>, buf))"
proof -
  let ?p = "packet_at r (Ack c) sb [] sz 0" and ?cb = "with_sync_bits cb_ack sb"
  have sb: "sync_bits_wf sb" "\<not> seq_bit sb" and cb: "header_control_byte r (Ack c) sb = Some ?cb"
    using s by (auto simp: sendable_def header_control_byte_def split: if_splits)
  have p: "?p = cb_byte ?cb # u16_to_be c @ u16_to_be (header_payload_len (Ack c)) @ packet_body r (Ack c) sb [] sz 0"
    using header_bytes_Cons [OF cb] by (simp add: packet_at_body packet_header_def)
  have "parse_cb_channel ?p = Ok (?cb, c, drop CONT_LEN ?p)"
    using ack_bytes_accepted(1) [OF sb] by (simp add: p parse_cb_channel_Ok header_consts)
  moreover have "reassembler_single (peer r) ?p = Ok (Ack c, [])"
    using reassembler_single_packet [OF s] sz by simp
  moreover have "sync_bits_from_bytes ?p = Ok sb"
    using with_sync_bits_ack(2) [OF sb] by (simp add: p cb_sync_bits_def)
  ultimately show ?thesis
    using a with_sync_bits_ack(1) [OF sb]
    by (simp add: channel_packet_in_def handle_packet_def handle_ack_def send_mark_delivered_def
        bool_increment_def pir_ack_def)
qed

section \<open>Transferring messages\<close>

text \<open>
  A complete exchange between two channels: one end submits a message and sends its packets,
  the other one reassembles and picks up the message and sends the acknowledgement, which the
  first end processes. The result holds what the two ends report on the way.
\<close>

definition channel_transfer ::
  "('c, 'h) backend \<Rightarrow> role \<Rightarrow> nat \<Rightarrow> 'c channel \<Rightarrow> 'c channel \<Rightarrow> u8 \<times> u16 \<times> bytes \<Rightarrow> bytes
     \<Rightarrow> (packet_in_result thp_result list \<times> (u8 \<times> u16 \<times> bytes) thp_result) \<times> ('c channel \<times> 'c channel)" where
  "channel_transfer B r sz a b m receive_buffer =
     (case m of (session_id, message_type, message) \<Rightarrow>
      let enc_len = length message + SEND_BUFFER_OVERHEAD;
          (_, (a, send_buffer)) = channel_message_in_from B a session_id message_type message (replicate enc_len 0);
          (packets, a) = channel_drain r (enc_len + CHECKSUM_LEN) a send_buffer sz;
          (results, (b, receive_buffer)) = channel_feed (peer r) b packets receive_buffer;
          (received, (b, receive_buffer)) = channel_message_out B (peer r) b receive_buffer;
          (acks, b) = channel_drain (peer r) 1 b [] sz;
          (acked, (a, _)) = channel_feed r a acks []
      in ((results @ acked, received), (a, b)))"

text \<open>Sender \<open>a\<close> and receiver \<open>b\<close> of one direction, between two messages.\<close>

definition channels_synced :: "('c \<Rightarrow> 'c \<Rightarrow> bool) \<Rightarrow> 'c channel \<Rightarrow> 'c channel \<Rightarrow> bool" where
  "channels_synced R a b \<longleftrightarrow>
     channel_message_in_ready a \<and> can_send (channel_sync_state a) \<and> send_ack a = None
     \<and> unicast_valid (channel_id a)
     \<and> \<not> is_failed b \<and> \<not> is_sending b \<and> send_ack b = None \<and> channel_id b = channel_id a
     \<and> sync_receive (channel_sync_state b) = sync_send (channel_sync_state a)
     \<and> (\<exists>na nb. channel_noise a = Some na \<and> channel_noise b = Some nb \<and> R (nc_encrypt na) (nc_decrypt nb))"

definition message_fits :: "nat \<Rightarrow> bytes \<Rightarrow> u8 \<times> u16 \<times> bytes \<Rightarrow> bool" where
  "message_fits sz receive_buffer m \<longleftrightarrow>
     INIT_LEN + CHECKSUM_LEN \<le> sz \<and> length (snd (snd m)) + SEND_BUFFER_OVERHEAD + CHECKSUM_LEN \<le> 60000
     \<and> length (snd (snd m)) + SEND_BUFFER_OVERHEAD + CHECKSUM_LEN \<le> length receive_buffer"

text \<open>The states in which the phases of an exchange leave the two ends.\<close>

definition waiting_state :: "'c channel \<Rightarrow> 'c noise_ciphers \<Rightarrow> fragmenter \<Rightarrow> 'c channel" where
  "waiting_state a nc f = a\<lparr>channel_noise := Some nc, send_state := Sending f 0,
     channel_sync_state := send_finish (channel_sync_state a)\<rparr>"

definition received_state :: "'c channel \<Rightarrow> 'c noise_ciphers \<Rightarrow> 'c channel" where
  "received_state b nc = b\<lparr>channel_sync_state := snd (receive_acknowledge (channel_sync_state b)),
     send_ack := Some (fst (receive_acknowledge (channel_sync_state b))),
     receive_state := ReceiveIdle, channel_noise := Some nc\<rparr>"

definition acked_state :: "'c channel \<Rightarrow> bool \<Rightarrow> 'c channel" where
  "acked_state a b = a\<lparr>channel_sync_state := (channel_sync_state a)\<lparr>sync_send := \<not> b, can_send := True\<rparr>,
     send_state := SendIdle\<rparr>"

lemma transfer_ciphers:
  assumes aead: "aead_paired B R" "R e d"
    and n: "n = length msg + APP_HEADER_LEN" and len: "len = length msg + SEND_BUFFER_OVERHEAD" "length sbuf = len"
  obtains ct e' pt d' where
    "encrypt_ad_in_place B e [] (app_plaintext sid mt msg @ drop n sbuf) n = (ct, e')"
    "decrypt_ad_in_place B d [] ct (length ct) = (Some n, pt, d')"
    "length ct = len" "length pt = length ct" "length ct = n + TAG_LEN" "take n pt = app_plaintext sid mt msg" "R e' d'"
proof -
  let ?pl = "app_plaintext sid mt msg @ drop n sbuf"
  obtain ct e' where enc: "encrypt_ad_in_place B e [] ?pl n = (ct, e')" by fastforce
  obtain k pt d' where dec: "decrypt_ad_in_place B d [] ct (length ct) = (k, pt, d')" by (metis prod.exhaust)
  have nlen: "n + TAG_LEN = len" by (simp add: n len SEND_BUFFER_OVERHEAD_def)
  then have pl: "n + TAG_LEN = length ?pl" using len(2) by (simp add: n)
  show thesis
    using aead_pairedD [OF aead pl enc dec] pl nlen enc dec by (intro that) (simp_all add: n)
qed

lemma transfer_send:
  assumes a: "channel_message_in_ready a" "can_send (channel_sync_state a)" "channel_noise a = Some na"
      "unicast_valid (channel_id a)" "send_ack a = None"
    and sz: "MIN_PACKET_SIZE \<le> sz" and size: "len + CHECKSUM_LEN \<le> 60000"
    and len: "len = length msg + SEND_BUFFER_OVERHEAD" "length sbuf = len" and n: "n = length msg + APP_HEADER_LEN"
    and enc: "encrypt_ad_in_place B (nc_encrypt na) [] (app_plaintext sid mt msg @ drop n sbuf) n = (ct, e')"
      "length ct = len"
  obtains h sb f a1 where "sendable r h sb ct" "header_is_encrypted h" "header_channel_id h = channel_id a"
    "seq_bit sb = sync_send (channel_sync_state a)"
    "channel_message_in_from B a sid mt msg sbuf = (Ok (), (a1, ct))"
    "channel_drain r (len + CHECKSUM_LEN) a1 ct sz =
      (packets_from r h sb ct sz 0, waiting_state a (na\<lparr>nc_encrypt := e'\<rparr>) f)"
proof -
  let ?na = "na\<lparr>nc_encrypt := e'\<rparr>"
  obtain h sb where s: "sendable r h sb ct" "header_is_encrypted h" "header_channel_id h = channel_id a"
    "send_start (channel_sync_state a) = Some sb"
    and mi: "channel_message_in_from B a sid mt msg sbuf =
      (Ok (), (a\<lparr>channel_noise := Some ?na, send_state := Sending (frag_state r h sb ct 0) 0\<rparr>, ct))"
    using channel_message_in_from_state [OF a, of msg sbuf B sid mt ct e' r] size len n enc by metis
  have ne: "ct \<noteq> []" using enc(2) len(1) by (auto simp: SEND_BUFFER_OVERHEAD_def APP_HEADER_LEN_def)
  have uc: "header_channel_id h \<noteq> BROADCAST_CHANNEL_ID" using a(4) s(3) by (simp add: unicast_valid_def)
  have "channel_drain r (len + CHECKSUM_LEN)
      (a\<lparr>channel_noise := Some ?na, send_state := Sending (frag_state r h sb ct 0) 0\<rparr>) ct sz =
      (packets_from r h sb ct sz 0, waiting_state a ?na (frag_state r h sb ct (length ct + CHECKSUM_LEN)))"
    by (subst channel_drain_sending [OF s(1) sz ne _ _ uc, where p = 0 and n = 0])
      (use a(5) enc(2) in \<open>simp_all add: CHECKSUM_LEN_def waiting_state_def\<close>)
  then show thesis
    using that [OF s(1-3) _ mi] send_start_Some [OF s(4)] by blast
qed

lemma transfer_receive:
  assumes s: "sendable r h sb ct" "header_is_encrypted h" and sz: "MIN_PACKET_SIZE \<le> sz"
    and b: "\<not> is_failed b" "\<not> is_sending b" "channel_id b = header_channel_id h"
      "seq_bit sb = sync_receive (channel_sync_state b)" "channel_noise b = Some nb"
    and len: "length ct + CHECKSUM_LEN \<le> length rbuf"
    and dec: "decrypt_ad_in_place B (nc_decrypt nb) [] ct (length ct) = (Some n, pt, d')"
      "take n pt = app_plaintext sid mt msg" "length pt = length ct" "n = length msg + APP_HEADER_LEN"
      "length ct = n + TAG_LEN"
  shows "\<exists>results b1 rbuf1 rbuf2.
    channel_feed (peer r) b (packets_from r h sb ct sz 0) rbuf = (results @ [Ok (pir_accept True)], (b1, rbuf1))
    \<and> list_all (\<lambda>x. x = Ok (pir_accept False)) results
    \<and> channel_message_out B (peer r) b1 rbuf1 =
       (Ok (sid, mt, msg), (received_state b (nb\<lparr>nc_decrypt := d'\<rparr>), rbuf2))"
proof -
  let ?b1 = "b\<lparr>receive_state := Receiving (reas_state r h sb ct (length ct + CHECKSUM_LEN))\<rparr>"
  obtain results where "channel_feed (peer r) b (packets_from r h sb ct sz 0) rbuf =
      (results @ [Ok (pir_accept True)],
       (?b1, msg_stream r h sb ct @ replicate (length rbuf - (length ct + CHECKSUM_LEN)) 0))"
      "list_all (\<lambda>x. x = Ok (pir_accept False)) results"
    using channel_feed_message [OF s(1) sz _ b(1-3) _ len] s(2) b(4) by (auto simp: receive_start_iff)
  then show ?thesis
    using channel_message_out_state [OF s(1,2), of ?b1 nb B n pt d' sid mt msg "peer r"] b(5) dec
    by (fastforce simp: received_state_def)
qed

lemma transfer_ack:
  assumes b: "unicast_valid (channel_id b)" and sz: "INIT_LEN + CHECKSUM_LEN \<le> sz"
    and a: "receive_state a \<noteq> ReceiveFailed" "channel_id a = channel_id b"
      "sync_receive (channel_sync_state b) = sync_send (channel_sync_state a)"
  shows "\<exists>p. (\<forall>buf. channel_drain (peer r) 1 (received_state b nb) buf sz = ([p], (received_state b nb)\<lparr>send_ack := None\<rparr>))
    \<and> (\<forall>buf. channel_feed r (waiting_state a na f) [p] buf =
        ([Ok pir_ack], (acked_state (waiting_state a na f) (sync_send (channel_sync_state a)), buf)))"
proof -
  let ?b = "received_state b nb" and ?a = "waiting_state a na f"
  have ack: "send_ack ?b = Some (fst (receive_acknowledge (channel_sync_state b)))" "unicast_valid (channel_id ?b)"
    using b by (simp_all add: received_state_def)
  note out = packet_out_ack [OF ack(1) _ _ ack(2) sz, of "peer r"]
  have "channel_drain (peer r) 1 ?b buf sz =
      ([packet_at (peer r) (Ack (channel_id ?b)) (fst (receive_acknowledge (channel_sync_state b))) [] sz 0],
       ?b\<lparr>send_ack := None\<rparr>)" for buf
    using out(2) ack(1) by (simp add: channel_packet_out_ready_def)
  moreover have "\<not> is_failed ?a" "is_sending ?a" "channel_id ?a = channel_id ?b"
    "sync_send (channel_sync_state ?a) = ack_bit (fst (receive_acknowledge (channel_sync_state b)))"
    using a by (simp_all add: waiting_state_def received_state_def is_failed_def is_sending_def)
  ultimately show ?thesis
    using packet_in_ack [OF out(1) sz, of ?a] a(3) by (simp add: acked_state_def)
qed

lemma channels_synced_after:
  assumes "channels_synced R a b" "R (nc_encrypt na) (nc_decrypt nb)"
  shows "channels_synced R (acked_state (waiting_state a na f) (sync_send (channel_sync_state a)))
    ((received_state b nb)\<lparr>send_ack := None\<rparr>)"
  using assms
  by (auto simp: channels_synced_def acked_state_def waiting_state_def received_state_def
      channel_message_in_ready_def is_failed_def is_sending_def)

lemma channels_synced_back:
  assumes "channels_synced R b a" "channel_noise a = Some na0" "channel_noise b = Some nb0"
    and "nc_decrypt na = nc_decrypt na0" "nc_encrypt nb = nc_encrypt nb0"
  shows "channels_synced R ((received_state b nb)\<lparr>send_ack := None\<rparr>)
    (acked_state (waiting_state a na f) (sync_send (channel_sync_state a)))"
  using assms
  by (auto simp: channels_synced_def acked_state_def waiting_state_def received_state_def
      channel_message_in_ready_def is_failed_def is_sending_def)

text \<open>The phases of one exchange, for any send buffer of the right length, any sufficiently large receive buffer and both packet sizes.\<close>

lemma channel_transfer_phases:
  assumes aead: "aead_paired B R" and sync: "channels_synced R a b"
    and sz: "INIT_LEN + CHECKSUM_LEN \<le> sz" "INIT_LEN + CHECKSUM_LEN \<le> sz'"
    and len: "len = length msg + SEND_BUFFER_OVERHEAD" "len + CHECKSUM_LEN \<le> 60000" "length sbuf = len"
  obtains h sb ct f a1 na nb where "sendable r h sb ct" "header_is_encrypted h" "header_channel_id h = channel_id a" "length ct = len"
    "channel_message_in_from B a sid mt msg sbuf = (Ok (), (a1, ct))"
    "channel_drain r (len + CHECKSUM_LEN) a1 ct sz = (packets_from r h sb ct sz 0, waiting_state a na f)"
    "\<And>rbuf. len + CHECKSUM_LEN \<le> length rbuf \<Longrightarrow> \<exists>results b1 rbuf1 rbuf2.
      channel_feed (peer r) b (packets_from r h sb ct sz 0) rbuf = (results @ [Ok (pir_accept True)], (b1, rbuf1))
      \<and> list_all (\<lambda>x. x = Ok (pir_accept False)) results
      \<and> channel_message_out B (peer r) b1 rbuf1 = (Ok (sid, mt, msg), (received_state b nb, rbuf2))"
    "\<exists>p. (\<forall>buf. channel_drain (peer r) 1 (received_state b nb) buf sz' = ([p], (received_state b nb)\<lparr>send_ack := None\<rparr>))
      \<and> (\<forall>buf. channel_feed r (waiting_state a na f) [p] buf =
        ([Ok pir_ack], (acked_state (waiting_state a na f) (sync_send (channel_sync_state a)), buf)))"
    "channels_synced R (acked_state (waiting_state a na f) (sync_send (channel_sync_state a))) ((received_state b nb)\<lparr>send_ack := None\<rparr>)"
    "channels_synced R b a \<Longrightarrow>
      channels_synced R ((received_state b nb)\<lparr>send_ack := None\<rparr>) (acked_state (waiting_state a na f) (sync_send (channel_sync_state a)))"
proof -
  define n where "n = length msg + APP_HEADER_LEN"
  obtain na nb where noise: "channel_noise a = Some na" "channel_noise b = Some nb" "R (nc_encrypt na) (nc_decrypt nb)"
    using sync by (auto simp: channels_synced_def)
  have min: "MIN_PACKET_SIZE \<le> sz" using sz(1) by (simp add: MIN_PACKET_SIZE_def new_ping_def header_consts CHECKSUM_LEN_def)
  obtain ct e' pt d' where
    enc: "encrypt_ad_in_place B (nc_encrypt na) [] (app_plaintext sid mt msg @ drop n sbuf) n = (ct, e')"
    and dec: "decrypt_ad_in_place B (nc_decrypt nb) [] ct (length ct) = (Some n, pt, d')"
    and ct: "length ct = len" "length pt = length ct" "length ct = n + TAG_LEN" "take n pt = app_plaintext sid mt msg"
    and R: "R e' d'"
    by (rule transfer_ciphers [OF aead noise(3) n_def len(1,3)])
  have a: "channel_message_in_ready a" "can_send (channel_sync_state a)" "unicast_valid (channel_id a)" "send_ack a = None"
    "receive_state a \<noteq> ReceiveFailed"
    and b: "\<not> is_failed b" "\<not> is_sending b" "channel_id a = channel_id b" "unicast_valid (channel_id b)"
      "sync_receive (channel_sync_state b) = sync_send (channel_sync_state a)"
    using sync by (auto simp: channels_synced_def channel_message_in_ready_def)
  let ?na = "na\<lparr>nc_encrypt := e'\<rparr>" and ?nb = "nb\<lparr>nc_decrypt := d'\<rparr>"
  obtain h sb f a1 where s: "sendable r h sb ct" "header_is_encrypted h" "header_channel_id h = channel_id a"
    "seq_bit sb = sync_send (channel_sync_state a)"
    and mi: "channel_message_in_from B a sid mt msg sbuf = (Ok (), (a1, ct))"
    and dr: "channel_drain r (len + CHECKSUM_LEN) a1 ct sz = (packets_from r h sb ct sz 0, waiting_state a ?na f)"
    by (rule transfer_send [OF a(1,2) noise(1) a(3,4) min len(2,1,3) n_def enc ct(1)])
  show thesis
  proof (rule that [OF s(1-3) ct(1) mi dr])
    fix rbuf :: bytes
    assume "len + CHECKSUM_LEN \<le> length rbuf"
    then show "\<exists>results b1 rbuf1 rbuf2.
        channel_feed (peer r) b (packets_from r h sb ct sz 0) rbuf = (results @ [Ok (pir_accept True)], (b1, rbuf1))
        \<and> list_all (\<lambda>x. x = Ok (pir_accept False)) results
        \<and> channel_message_out B (peer r) b1 rbuf1 = (Ok (sid, mt, msg), (received_state b ?nb, rbuf2))"
      using s(3,4) b(3,5) ct(1) by (intro transfer_receive [OF s(1,2) min b(1,2) _ _ noise(2) _ dec ct(4,2) n_def ct(3)]) simp_all
  next
    show "\<exists>p. (\<forall>buf. channel_drain (peer r) 1 (received_state b ?nb) buf sz' = ([p], (received_state b ?nb)\<lparr>send_ack := None\<rparr>))
      \<and> (\<forall>buf. channel_feed r (waiting_state a ?na f) [p] buf =
        ([Ok pir_ack], (acked_state (waiting_state a ?na f) (sync_send (channel_sync_state a)), buf)))"
      by (rule transfer_ack [OF b(4) sz(2) a(5) b(3,5)])
    show "channels_synced R (acked_state (waiting_state a ?na f) (sync_send (channel_sync_state a)))
        ((received_state b ?nb)\<lparr>send_ack := None\<rparr>)"
      using R by (intro channels_synced_after [OF sync]) simp
    show "channels_synced R ((received_state b ?nb)\<lparr>send_ack := None\<rparr>)
        (acked_state (waiting_state a ?na f) (sync_send (channel_sync_state a)))" if "channels_synced R b a"
      using that noise(1,2) by (intro channels_synced_back [where ?na0.0 = na and ?nb0.0 = nb]) simp_all
  qed
qed

lemma channel_transfer_step:
  assumes aead: "aead_paired B R" and sync: "channels_synced R a b" and fit: "message_fits sz rbuf m"
  shows "\<exists>results a' b'. channel_transfer B r sz a b m rbuf =
      ((results @ [Ok (pir_accept True), Ok pir_ack], Ok m), (a', b'))
    \<and> list_all (\<lambda>x. x = Ok (pir_accept False)) results \<and> channels_synced R a' b'"
proof -
  obtain sid mt msg where m: "m = (sid, mt, msg)" by (cases m)
  define len where "len = length msg + SEND_BUFFER_OVERHEAD"
  have sz: "INIT_LEN + CHECKSUM_LEN \<le> sz" "len + CHECKSUM_LEN \<le> 60000" "len + CHECKSUM_LEN \<le> length rbuf"
    using fit by (auto simp: message_fits_def m len_def)
  show ?thesis
  proof (rule channel_transfer_phases [OF aead sync sz(1,1) len_def sz(2) length_replicate [of len 0], of r sid mt])
    fix h sb ct f a1 na nb
    assume send: "channel_message_in_from B a sid mt msg (replicate len 0) = (Ok (), (a1, ct))"
        "channel_drain r (len + CHECKSUM_LEN) a1 ct sz = (packets_from r h sb ct sz 0, waiting_state a na f)"
      and recv: "\<And>rbuf. len + CHECKSUM_LEN \<le> length rbuf \<Longrightarrow> \<exists>results b1 rbuf1 rbuf2.
        channel_feed (peer r) b (packets_from r h sb ct sz 0) rbuf = (results @ [Ok (pir_accept True)], (b1, rbuf1))
        \<and> list_all (\<lambda>x. x = Ok (pir_accept False)) results
        \<and> channel_message_out B (peer r) b1 rbuf1 = (Ok (sid, mt, msg), (received_state b nb, rbuf2))"
      and ack: "\<exists>p. (\<forall>buf. channel_drain (peer r) 1 (received_state b nb) buf sz = ([p], (received_state b nb)\<lparr>send_ack := None\<rparr>))
        \<and> (\<forall>buf. channel_feed r (waiting_state a na f) [p] buf =
          ([Ok pir_ack], (acked_state (waiting_state a na f) (sync_send (channel_sync_state a)), buf)))"
      and synced: "channels_synced R (acked_state (waiting_state a na f) (sync_send (channel_sync_state a)))
        ((received_state b nb)\<lparr>send_ack := None\<rparr>)"
    obtain results b1 rbuf1 rbuf2 where
      fd: "channel_feed (peer r) b (packets_from r h sb ct sz 0) rbuf = (results @ [Ok (pir_accept True)], (b1, rbuf1))"
      and results: "list_all (\<lambda>x. x = Ok (pir_accept False)) results"
      and out: "channel_message_out B (peer r) b1 rbuf1 = (Ok (sid, mt, msg), (received_state b nb, rbuf2))"
      using recv [OF sz(3)] by blast
    obtain p where p: "channel_drain (peer r) 1 (received_state b nb) [] sz = ([p], (received_state b nb)\<lparr>send_ack := None\<rparr>)"
      "channel_feed r (waiting_state a na f) [p] [] =
          ([Ok pir_ack], (acked_state (waiting_state a na f) (sync_send (channel_sync_state a)), []))"
      using ack by blast
    have "channel_transfer B r sz a b m rbuf = ((results @ [Ok (pir_accept True), Ok pir_ack], Ok m),
        (acked_state (waiting_state a na f) (sync_send (channel_sync_state a)), (received_state b nb)\<lparr>send_ack := None\<rparr>))"
      unfolding channel_transfer_def m prod.case len_def [symmetric] Let_def send fd out p by simp
    then show ?thesis using results synced by blast
  qed
qed

fun channel_transfers ::
  "('c, 'h) backend \<Rightarrow> role \<Rightarrow> nat \<Rightarrow> 'c channel \<Rightarrow> 'c channel \<Rightarrow> (u8 \<times> u16 \<times> bytes) list \<Rightarrow> bytes
     \<Rightarrow> (u8 \<times> u16 \<times> bytes) thp_result list \<times> ('c channel \<times> 'c channel)" where
  "channel_transfers B r sz a b [] receive_buffer = ([], (a, b))"
| "channel_transfers B r sz a b (m # ms) receive_buffer =
     (let ((_, received), (a, b)) = channel_transfer B r sz a b m receive_buffer;
          (rest, st) = channel_transfers B r sz a b ms receive_buffer
      in (received # rest, st))"

section \<open>What an incoming packet can change\<close>

text \<open>
  A packet never moves the receive bit: that happens when a verified message is picked up.
  An acknowledgement it schedules repeats the last one, and unless something is being sent
  it leaves the synchronization state alone.
\<close>

definition packet_frame :: "'c channel \<Rightarrow> 'c channel \<Rightarrow> bool" where
  "packet_frame ch ch' \<longleftrightarrow>
     channel_id ch' = channel_id ch \<and> channel_noise ch' = channel_noise ch \<and> channel_phase ch' = channel_phase ch
     \<and> sync_receive (channel_sync_state ch') = sync_receive (channel_sync_state ch)
     \<and> ack_piggybacking (channel_sync_state ch') = ack_piggybacking (channel_sync_state ch)
     \<and> (send_ack ch' = send_ack ch
          \<or> (\<exists>sb. send_ack ch' = Some sb \<and> ack_bit sb = get_ack_bit (channel_sync_state ch)))
     \<and> (\<not> is_sending ch \<longrightarrow> channel_sync_state ch' = channel_sync_state ch \<and> \<not> is_sending ch')"

lemma packet_frame_refl [simp]: "packet_frame ch ch"
  by (simp add: packet_frame_def)

lemma packet_frame_trans: "packet_frame a b \<Longrightarrow> packet_frame b c \<Longrightarrow> packet_frame a c"
  by (auto simp: packet_frame_def get_ack_bit_def)

lemma packet_frame_updates [simp]:
  "packet_frame ch (ch\<lparr>receive_state := rt\<rparr>)" "packet_frame ch (become_failed ch)"
  by (simp_all add: packet_frame_def is_sending_def become_failed_def)

lemma and_then_st_state:
  assumes "P (snd m)" and "\<And>x s. m = (Ok x, s) \<Longrightarrow> P s \<Longrightarrow> P (snd (f x s))"
  shows "P (snd (and_then_st m f))"
  using assms by (cases m; cases "fst m") auto

lemma handle_ack_frame: "packet_frame ch (snd (handle_ack r ch packet))"
  by (cases "reassembler_single r packet"; cases "sync_bits_from_bytes packet")
    (auto simp: handle_ack_def packet_frame_def send_mark_delivered_def Let_def)

lemma handle_error_frame: "packet_frame ch (snd (handle_error r ch packet))"
  by (auto simp: handle_error_def split: result.splits)

lemma handle_cont_frame: "packet_frame ch (fst (snd (handle_cont r ch packet buf)))"
  by (auto simp: handle_cont_def case_prod_unfold Let_def split: receive_state.splits)

lemma handle_invalid_seq_frame: "packet_frame ch (snd (handle_invalid_seq ch sb))"
  using repeated_ack_bit [of "channel_sync_state ch" sb]
  by (auto simp: handle_invalid_seq_def packet_frame_def is_sending_def)

lemma handle_init_frame: "packet_frame ch (fst (snd (handle_init r ch packet buf)))"
  by (cases "reassembler_new r packet (replicate (length buf) 0)";
      cases "fst (reassembler_new r packet (replicate (length buf) 0))") (auto simp: handle_init_def)

lemma handle_last_packet_frame: "packet_frame ch (snd (handle_last_packet ch buf))"
  by (auto simp: handle_last_packet_def packet_frame_def send_mark_delivered_def is_sending_def Let_def
      split: receive_state.splits result.splits send_state.splits)

lemma handle_packet_frame: "packet_frame ch (fst (snd (handle_packet r ch packet buf)))"
  unfolding handle_packet_def
  by (auto simp: case_prod_unfold Let_def handle_ack_frame handle_error_frame handle_cont_frame handle_invalid_seq_frame
      intro!: and_then_st_state [where P = "\<lambda>st. packet_frame ch (fst st)"]
        packet_frame_trans [OF _ handle_last_packet_frame] packet_frame_trans [OF _ handle_init_frame])

lemma channel_packet_in_frame: "packet_frame ch (fst (snd (channel_packet_in r ch packet buf)))"
  using handle_packet_frame [of ch r packet buf]
  by (auto simp: channel_packet_in_def case_prod_unfold Let_def intro: packet_frame_trans
      split: result.splits packet_in_result.splits)

section \<open>Sequences of operations\<close>

text \<open>Everything a user of the crate can do with an established channel.\<close>

datatype channel_op =
    OpPacketIn bytes bytes
  | OpPacketOut bytes bytes
  | OpMessageIn nat bytes
  | OpMessageOut bytes
  | OpRetransmit
  | OpSendError transport_error
  | OpEndPairing

text \<open>One operation with its result forgotten; \<open>None\<close> is a panic.\<close>

definition settle :: "('a, 'e) result \<times> 's \<Rightarrow> 's option" where
  "settle m = (case fst m of Panic \<Rightarrow> None | _ \<Rightarrow> Some (snd m))"

fun channel_exec :: "('c, 'h) backend \<Rightarrow> role \<Rightarrow> 'c channel \<Rightarrow> channel_op \<Rightarrow> 'c channel option" where
  "channel_exec B r ch (OpPacketIn packet buf) = map_option fst (settle (channel_packet_in r ch packet buf))"
| "channel_exec B r ch (OpPacketOut packet buf) = map_option fst (settle (channel_packet_out r ch packet buf))"
| "channel_exec B r ch (OpMessageIn n buf) = map_option fst (settle (channel_message_in B ch n buf))"
| "channel_exec B r ch (OpMessageOut buf) = map_option fst (settle (channel_message_out B r ch buf))"
| "channel_exec B r ch OpRetransmit = settle (channel_message_retransmit ch)"
| "channel_exec B r ch (OpSendError e) = Some (send_error e ch)"
| "channel_exec B r ch OpEndPairing = Some (end_pairing ch)"

fun channel_exec_all :: "('c, 'h) backend \<Rightarrow> role \<Rightarrow> 'c channel \<Rightarrow> channel_op list \<Rightarrow> 'c channel option" where
  "channel_exec_all B r ch [] = Some ch"
| "channel_exec_all B r ch (x # xs) =
     (case channel_exec B r ch x of None \<Rightarrow> None | Some ch \<Rightarrow> channel_exec_all B r ch xs)"

lemma settle_safely: "safely P m \<Longrightarrow> \<exists>s. settle m = Some s \<and> P s"
  by (cases "fst m") (auto simp: settle_def safely_def)

lemma channel_message_retransmit_wf:
  "channel_wf r ch \<Longrightarrow> safely (channel_wf r) (channel_message_retransmit ch)"
  using send_wfD [of r ch]
  by (cases "send_state ch") (auto simp: channel_message_retransmit_def Let_def frag_wf_def fragmenter_reset_def)

lemma channel_exec_wf:
  assumes "channel_wf r ch" "backend_ok B"
  shows "\<exists>ch'. channel_exec B r ch x = Some ch' \<and> channel_wf r ch'"
proof (cases x)
  case (OpPacketIn p buf)
  then show ?thesis using settle_safely [OF channel_packet_in_safe [OF assms(1), of buf p]] by auto
next
  case (OpPacketOut p buf)
  then show ?thesis using settle_safely [OF channel_packet_out_safe [OF assms(1), of p buf]] by auto
next
  case (OpMessageIn n buf)
  then show ?thesis using settle_safely [OF channel_message_in_safe [OF assms, of buf n]] by auto
next
  case (OpMessageOut buf)
  then show ?thesis using settle_safely [OF channel_message_out_safe [OF assms, of buf r]] by auto
next
  case OpRetransmit
  then show ?thesis using settle_safely [OF channel_message_retransmit_wf [OF assms(1)]] by auto
qed (use assms in \<open>auto simp: end_pairing_def\<close>)

subsection \<open>Failure is final\<close>

lemma failed_exec:
  assumes "channel_wf r ch" "is_failed ch" "channel_exec B r ch x = Some ch'"
  shows "is_failed ch'"
proof -
  have rf: "receive_state ch = ReceiveFailed" using assms(1,2) by (auto simp: channel_wf_def is_failed_def)
  have "receive_state ch' = ReceiveFailed"
  proof (cases x)
    case (OpPacketOut p buf)
    then show ?thesis
      using assms(3) rf settle_safely [OF channel_packet_out_safe [OF assms(1), of p buf]] by auto
  qed (use assms rf in \<open>auto simp: settle_def channel_packet_in_def channel_message_in_def channel_message_in_ready_def
      channel_message_out_def raw_out_def channel_message_retransmit_def send_error_def end_pairing_def Let_def
      split: result.splits send_state.splits if_splits\<close>)
  then show ?thesis by (simp add: is_failed_def)
qed

lemma failed_exec_all:
  assumes "channel_wf r ch" "backend_ok B" "is_failed ch" "channel_exec_all B r ch xs = Some ch'"
  shows "is_failed ch' \<and> channel_wf r ch'"
  using assms
proof (induction xs arbitrary: ch)
  case (Cons x xs)
  then obtain ch1 where "channel_exec B r ch x = Some ch1" "channel_wf r ch1"
    using channel_exec_wf by blast
  then show ?case using Cons failed_exec [OF Cons.prems(1,3)] by auto
qed simp

subsection \<open>A channel that can no longer send\<close>

text \<open>
  Neither sending nor allowed to: no acknowledgement is expected, so none is accepted, and
  without one the channel never gets permission to send again.
\<close>

definition stuck :: "'c channel \<Rightarrow> bool" where
  "stuck ch \<longleftrightarrow> \<not> can_send (channel_sync_state ch) \<and> \<not> is_sending ch"

lemma stuck_updates [simp]:
  "stuck (ch\<lparr>send_ack := a\<rparr>) = stuck ch" "stuck (ch\<lparr>receive_state := rt\<rparr>) = stuck ch"
  "stuck (ch\<lparr>channel_noise := nc\<rparr>) = stuck ch" "stuck (ch\<lparr>channel_phase := ph\<rparr>) = stuck ch"
  by (simp_all add: stuck_def is_sending_def)

lemma stuck_failed [simp]: "stuck ch \<Longrightarrow> stuck (become_failed ch)" "stuck ch \<Longrightarrow> stuck (send_error e ch)"
  "stuck ch \<Longrightarrow> stuck (ch\<lparr>send_state := SendIdle\<rparr>)"
  by (simp_all add: stuck_def is_sending_def become_failed_def send_error_def)

lemma stuck_exec:
  assumes "stuck ch" "channel_exec B r ch x = Some ch'"
  shows "stuck ch'"
proof (cases x)
  case (OpPacketIn p buf)
  then show ?thesis
    using assms channel_packet_in_frame [of ch r p buf]
    by (auto simp: settle_def stuck_def packet_frame_def split: result.splits)
next
  case (OpPacketOut p buf)
  have "stuck (fst (snd (channel_packet_out r ch p buf)))"
    unfolding channel_packet_out_def using assms(1)
    by (auto simp: case_prod_unfold Let_def is_sending_def stuck_def [of ch] split: option.splits send_state.splits
        intro!: and_then_st_state [where P = "\<lambda>st. stuck (fst st)"] stuck_failed(1,3))
  then show ?thesis using assms(2) OpPacketOut by (auto simp: settle_def split: result.splits)
next
  case (OpMessageIn n buf)
  have raw: "stuck (snd (raw_in c h bs))" if "stuck c" for c :: "'a channel" and h bs
    using that send_start_eq_None [of "channel_sync_state c"] by (auto simp: raw_in_def raw_in_ext_def stuck_def)
  have "stuck (fst (snd (channel_message_in B ch n buf)))"
    unfolding channel_message_in_def using assms(1)
    by (auto simp: case_prod_unfold Let_def raw
        intro!: and_then_st_state [where P = "\<lambda>st. stuck (fst st)"])
  then show ?thesis using assms(2) OpMessageIn by (auto simp: settle_def split: result.splits)
next
  case (OpMessageOut buf)
  have "stuck (snd (raw_out ch buf))"
    using assms(1) unfolding raw_out_def
    by (auto simp: Let_def case_prod_unfold split: receive_state.splits
        intro!: and_then_st_state [where P = stuck]) (simp_all add: stuck_def is_sending_def)
  then have "stuck (fst (snd (channel_message_out B r ch buf)))"
    unfolding channel_message_out_def
    by (auto simp: case_prod_unfold Let_def split: result.splits list.splits
        intro!: and_then_st_state [where P = "\<lambda>st. stuck (fst st)"])
  then show ?thesis using assms(2) OpMessageOut by (auto simp: settle_def split: result.splits)
qed (use assms in \<open>auto simp: settle_def channel_message_retransmit_def end_pairing_def stuck_def is_sending_def
      send_error_def split: send_state.splits\<close>)

lemma stuck_exec_all: "stuck ch \<Longrightarrow> channel_exec_all B r ch xs = Some ch' \<Longrightarrow> stuck ch'"
  by (induction xs arbitrary: ch) (auto split: option.splits dest: stuck_exec)

lemma stuck_message_in: "stuck ch \<Longrightarrow> fst (channel_message_in B ch n buf) \<noteq> Ok ()"
proof
  assume st: "stuck ch" and "fst (channel_message_in B ch n buf) = Ok ()"
  then obtain s where "channel_message_in B ch n buf = (Ok (), s)" by (metis prod.collapse)
  then obtain nc h bs where "fst (raw_in (ch\<lparr>channel_noise := Some nc\<rparr>) h bs) = Ok ()"
    by (auto simp: channel_message_in_def Let_def and_then_st_eq_Ok case_prod_unfold split: if_splits)
  then show False
    using st send_start_eq_None [of "channel_sync_state ch"] by (auto simp: raw_in_def raw_in_ext_def stuck_def
      split: if_splits)
qed

section \<open>Retransmission\<close>

lemma channel_retransmit_packets:
  assumes s: "sendable r h sb payload" and sz: "MIN_PACKET_SIZE \<le> sz" and ne: "payload \<noteq> []"
    and uc: "header_channel_id h \<noteq> BROADCAST_CHANNEL_ID"
    and ch: "send_ack ch = None"
      "send_state ch = Sending (frag_state r h sb payload (length payload + CHECKSUM_LEN)) n"
    and fuel: "length payload + CHECKSUM_LEN \<le> fuel"
  shows "channel_drain r fuel (snd (channel_message_retransmit ch)) payload sz =
    (packets_from r h sb payload sz 0,
     ch\<lparr>send_state := Sending (frag_state r h sb payload (length payload + CHECKSUM_LEN)) (u8_saturating_add n 1),
        channel_sync_state := send_finish (channel_sync_state ch)\<rparr>)"
proof -
  have "snd (channel_message_retransmit ch) =
      ch\<lparr>send_state := Sending (frag_state r h sb payload 0) (u8_saturating_add n 1)\<rparr>"
    using ch(2) fragmenter_done_state [OF s]
    by (simp add: channel_message_retransmit_def Let_def fragmenter_reset_state)
  then show ?thesis
    by (simp only:) (subst channel_drain_sending [OF s sz ne _ _ uc, where p = 0],
        use ch fuel in \<open>simp_all add: CHECKSUM_LEN_def\<close>)
qed

section \<open>A ready channel makes progress\<close>

lemma fragmenter_next_Ok:
  assumes wf: "frag_wf r f" and len: "MIN_PACKET_SIZE \<le> length dest"
    and pay: "length payload + CHECKSUM_LEN = unat (header_payload_len (frag_header f))"
    and todo: "\<not> fragmenter_is_done f"
  shows "fst (fragmenter_next r f payload dest) = Ok True"
proof -
  have l: "header_len (frag_header f) \<le> length dest" "CONT_LEN \<le> length dest"
    using len header_len_le [of "frag_header f"]
    by (simp_all add: MIN_PACKET_SIZE_def new_ping_def header_consts)
  have "new_continuation (header_channel_id (frag_header f)) = Ok (Continuation (header_channel_id (frag_header f)))"
    using wf by (auto simp: new_header_Ok frag_wf_def header_channel_valid)
  moreover have "header_control_byte r (Continuation c) sb \<noteq> None" for c sb
    by (simp add: header_control_byte_def)
  ultimately have "\<exists>n st. fragmenter_put_header r f dest = (Ok n, st)"
    using wf l by (cases "frag_offset f = 0") (auto simp: fragmenter_put_header_def header_to_bytes_eq frag_wf_def)
  then show ?thesis
    using len pay todo by (auto simp: fragmenter_next_def case_prod_unfold Let_def)
qed

lemma fragmenter_single_Ok:
  assumes "sendable r h sb payload" "INIT_LEN + length payload + CHECKSUM_LEN \<le> length dest"
  shows "fst (fragmenter_single r h sb payload dest) = Ok ()"
  using fragmenter_single_packet [OF assms] by simp

section \<open>Properties\<close>



lemma channel_transfers_deliver:
  assumes "aead_paired B R" "channels_synced R a b" "list_all (message_fits sz receive_buffer) ms"
  shows "\<exists>a' b'. channel_transfers B r sz a b ms receive_buffer = (map Ok ms, (a', b')) \<and> channels_synced R a' b'"
  using assms(2,3)
proof (induction ms arbitrary: a b)
  case (Cons m ms)
  then obtain results a1 b1 where "channel_transfer B r sz a b m receive_buffer =
      ((results @ [Ok (pir_accept True), Ok pir_ack], Ok m), (a1, b1))" "channels_synced R a1 b1"
    using channel_transfer_step [OF assms(1), of a b sz receive_buffer m r] by auto
  then show ?case using Cons.IH [of a1 b1] Cons.prems(2) by auto
qed simp

text \<open>
  C4. Messages arrive exactly once, in order and unchanged: when two channels are
  synchronized and the cipher of one end decrypts what the other end encrypts, every
  sequence of messages that fit the buffers, submitted one after the other, is cut into
  packets, reassembled, decrypted, picked up and acknowledged, and the two ends are
  synchronized again afterwards.
\<close>

theorem channel_delivers_messages:
  assumes "aead_paired B R" "channels_synced R a b" "list_all (message_fits sz receive_buffer) ms"
  shows "\<exists>a' b'. channel_transfers B r sz a b ms receive_buffer = (map Ok ms, (a', b')) \<and> channels_synced R a' b'"
  by (rule channel_transfers_deliver [OF assms])

definition demo_ciphers :: "nat noise_ciphers" where
  "demo_ciphers = \<lparr>nc_encrypt = 0, nc_decrypt = 0, nc_handshake_hash = [], nc_remote_static_pubkey = []\<rparr>"

definition demo_channel :: "nat channel" where
  "demo_channel = (channel_new 0x1234)\<lparr>channel_noise := Some demo_ciphers\<rparr>"

lemma plain_aead: "aead_paired plain_backend (=)"
  by (auto simp: aead_paired_def plain_backend_def plain_encrypt_def plain_decrypt_def)

lemma demo_synced: "channels_synced (=) demo_channel demo_channel"
  by (simp add: channels_synced_def demo_channel_def demo_ciphers_def channel_new_def channel_message_in_ready_def channel_sync_new_def
      is_failed_def is_sending_def unicast_valid_def channel_id_valid_def header_consts)

theorem channel_delivers_messages_witness:
  "\<exists>a' b'. channel_transfers plain_backend Host 64 demo_channel demo_channel
      [(0, 55, [1, 2, 3]), (1, 56, replicate 100 7)] (replicate 200 0)
    = ([Ok (0, 55, [1, 2, 3]), Ok (1, 56, replicate 100 7)], (a', b')) \<and> channels_synced (=) a' b'"
  using channel_delivers_messages [OF plain_aead demo_synced,
      of 64 "replicate 200 0" "[(0, 55, [1, 2, 3]), (1, 56, replicate 100 7)]" Host]
  by (simp add: message_fits_def SEND_BUFFER_OVERHEAD_def APP_HEADER_LEN_def TAG_LEN_def CHECKSUM_LEN_def header_consts)

text \<open>
  C33. Failure is final: once a channel has failed, no operation revives it; it answers every
  packet with \<open>Failed\<close>, takes no message and yields none.
\<close>

theorem failed_channel_stays_failed:
  assumes "channel_wf r ch" "backend_ok B" "is_failed ch" "channel_exec_all B r ch xs = Some ch'"
  shows "is_failed ch' \<and> channel_packet_in r ch' packet buf = (Ok (Failed UnexpectedInput), (ch', buf))
    \<and> channel_message_in B ch' n buf = (Err NotReady, (ch', buf))
    \<and> channel_message_out B r ch' buf = (Err NotReady, (ch', buf))"
proof -
  have f: "is_failed ch'" "receive_state ch' = ReceiveFailed"
    using failed_exec_all [OF assms] by (auto simp: channel_wf_def is_failed_def)
  then show ?thesis
    by (simp add: channel_packet_in_def pir_fail_def channel_message_in_def channel_message_in_ready_def
        channel_message_out_def raw_out_def)
qed

theorem failed_channel_stays_failed_witness:
  "is_failed (send_error TransportBusy (become_failed demo_channel))"
  using failed_channel_stays_failed [of Host "become_failed demo_channel" plain_backend "[OpSendError TransportBusy]"
      "send_error TransportBusy (become_failed demo_channel)"]
  by (simp add: plain_backend_ok demo_channel_def unicast_valid_def channel_id_valid_def header_consts)

text \<open>
  C32. Packets alone never advance the receiver: an incoming packet leaves the receive bit,
  the ciphers and the phase as they are, and any acknowledgement it makes the channel send
  repeats the bit of the last message that was picked up.
\<close>

theorem packet_in_never_acknowledges_early:
  "case channel_packet_in r ch packet buf of (_, (ch', _)) \<Rightarrow>
     sync_receive (channel_sync_state ch') = sync_receive (channel_sync_state ch)
     \<and> channel_noise ch' = channel_noise ch \<and> channel_phase ch' = channel_phase ch
     \<and> (send_ack ch' = send_ack ch
          \<or> (\<exists>sb. send_ack ch' = Some sb \<and> ack_bit sb = get_ack_bit (channel_sync_state ch)))"
  using channel_packet_in_frame [of ch r packet buf] by (auto simp: packet_frame_def case_prod_unfold)

text \<open>
  C31. A retransmission repeats the message: after a message has been sent completely, asking
  for a retransmission makes the channel send exactly the packets of the first transmission
  again, whatever acknowledgement state it is in.
\<close>

theorem retransmission_repeats_packets:
  assumes "sendable r h sb payload" "MIN_PACKET_SIZE \<le> sz" "payload \<noteq> []"
    and "header_channel_id h \<noteq> BROADCAST_CHANNEL_ID" "send_ack ch = None"
    and "fragmenter_new h sb payload = Ok f" "send_state ch = Sending f n"
    and "length payload + CHECKSUM_LEN \<le> fuel"
  shows "case channel_drain r fuel ch payload sz of (packets, ch') \<Rightarrow>
    fragment r h sb payload sz = Ok packets
    \<and> fst (channel_drain r fuel (snd (channel_message_retransmit ch')) payload sz) = packets"
proof -
  have f: "f = frag_state r h sb payload 0" using assms(6) fragmenter_new_state [OF assms(1)] by simp
  have "channel_drain r fuel ch payload sz = (packets_from r h sb payload sz 0,
      ch\<lparr>send_state := Sending (frag_state r h sb payload (length payload + CHECKSUM_LEN)) n,
        channel_sync_state := send_finish (channel_sync_state ch)\<rparr>)"
    by (rule channel_drain_sending [OF assms(1-3,5) _ assms(4), where p = 0])
      (use assms(7,8) f in \<open>simp_all add: CHECKSUM_LEN_def\<close>)
  moreover have "fragment r h sb payload sz = Ok (packets_from r h sb payload sz 0)"
    using assms(2,3) by (intro fragment_packets [OF assms(1)]) (simp add: fits_def)
  ultimately show ?thesis
    using assms(5,8) by (simp add: channel_retransmit_packets [OF assms(1-4)])
qed

theorem retransmission_repeats_packets_witness:
  "case channel_drain Host 9 (demo_channel\<lparr>send_state := Sending
        \<lparr>frag_header = Encrypted 0x1234 9, frag_sync_bits = sync_bits_new, frag_offset = 0,
         frag_checksum = crc32_new, frag_crc_offset = 0\<rparr> 0\<rparr>) [1, 2, 3, 4, 5] 8 of (packets, ch') \<Rightarrow>
    fragment Host (Encrypted 0x1234 9) sync_bits_new [1, 2, 3, 4, 5] 8 = Ok packets
    \<and> fst (channel_drain Host 9 (snd (channel_message_retransmit ch')) [1, 2, 3, 4, 5] 8) = packets"
  by (rule retransmission_repeats_packets)
    (simp_all add: sendable_def unicast_valid_def channel_id_valid_def length_valid_def header_consts
      header_control_byte_def MIN_PACKET_SIZE_def new_ping_def CHECKSUM_LEN_def fragmenter_new_def
      demo_channel_def channel_new_def)

text \<open>
  A channel that says it has a packet to send writes one: with room for the largest
  single-packet message and, while a message is being sent, with the buffer that was
  submitted, \<open>packet_out\<close> succeeds.
\<close>

theorem ready_channel_sends:
  assumes wf: "channel_wf r ch" and ready: "channel_packet_out_ready ch"
    and room: "INIT_LEN + 1 + CHECKSUM_LEN \<le> length packet"
    and buf: "\<And>f n. send_state ch = Sending f n \<Longrightarrow>
      length send_buffer + CHECKSUM_LEN = unat (header_payload_len (frag_header f))"
  shows "fst (channel_packet_out r ch packet send_buffer) = Ok ()"
proof (cases "send_ack ch")
  case (Some sb)
  have "new_ack (channel_id ch) = Ok (Ack (channel_id ch))" "sendable r (Ack (channel_id ch)) sb []"
    using wf Some
    by (auto simp: channel_wf_def ack_wf_def new_header_Ok sendable_def header_control_byte_def header_consts CHECKSUM_LEN_def)
  then show ?thesis
    using Some room fragmenter_single_Ok [of r "Ack (channel_id ch)" sb "[]" packet]
    by (simp add: channel_packet_out_def case_prod_unfold)
next
  case None
  show ?thesis
  proof (cases "send_state ch")
    case (SendingError e)
    have "new_error (channel_id ch) = Ok (TransportError (channel_id ch))"
      "sendable r (TransportError (channel_id ch)) sync_bits_new [transport_error_to_u8 e]"
      using wf
      by (auto simp: channel_wf_def unicast_valid_def new_header_Ok sendable_def header_control_byte_def header_consts CHECKSUM_LEN_def)
    then show ?thesis
      using None SendingError room
        fragmenter_single_Ok [of r "TransportError (channel_id ch)" sync_bits_new "[transport_error_to_u8 e]" packet]
      by (simp add: channel_packet_out_def case_prod_unfold Let_def)
  next
    case (Sending f n)
    have "fst (fragmenter_next r f send_buffer packet) = Ok True"
      by (rule fragmenter_next_Ok [OF send_wfD [OF wf Sending] _ buf [OF Sending]])
        (use ready None Sending room in \<open>auto simp: channel_packet_out_ready_def MIN_PACKET_SIZE_def new_ping_def header_consts\<close>)
    then show ?thesis
      using None Sending by (simp add: channel_packet_out_def case_prod_unfold Let_def)
  qed (use ready None in \<open>simp_all add: channel_packet_out_ready_def\<close>)
qed

theorem ready_channel_sends_witness:
  "fst (channel_packet_out Device (send_error DeviceLocked demo_channel) (replicate 64 0) []) = Ok ()"
  by (rule ready_channel_sends)
    (simp_all add: demo_channel_def unicast_valid_def channel_id_valid_def header_consts CHECKSUM_LEN_def
      channel_packet_out_ready_def send_error_def channel_new_def channel_wf_def)

lemma retransmit_after_ms_nat:
  "unat (retransmit_after_ms n) = 10300 - 1010000 div (min (unat n) 49 + 100)"
proof -
  define m :: u32 where "m = ucast (min n (MAX_RETRANSMISSION_COUNT - 1))"
  have m: "unat m = min (unat n) 49"
    by (simp add: m_def MAX_RETRANSMISSION_COUNT_def min_def word_le_nat_alt unsigned_ucast_eq take_bit_nat_eq_self_iff)
  then have s: "unat (u32_saturating_add m 100) = min (unat n) 49 + 100"
    by (simp add: u32_saturating_add_def unat_word_ariths min.strict_coboundedI2)
  have d: "unat (1010000 div u32_saturating_add m 100) = 1010000 div (min (unat n) 49 + 100)"
    by (simp add: unat_div s)
  have "1010000 div (min (unat n) 49 + 100) \<le> 1010000 div 100"
    by (rule div_le_mono2) simp_all
  then have "1010000 div u32_saturating_add m 100 \<le> 10300"
    by (simp add: word_le_nat_alt d)
  then show ?thesis
    by (simp add: retransmit_after_ms_def Let_def m_def [symmetric] unat_sub d)
qed

text \<open>
  The retransmission timeout is the documented function of the attempt, computed without
  wrap-around: it lies between 200 and 3522 ms and never decreases with the attempts.
\<close>

lemma retransmit_after_ms_bounds:
  "unat (retransmit_after_ms n) = 10300 - 1010000 div (min (unat n) 49 + 100)
   \<and> 200 \<le> retransmit_after_ms n \<and> retransmit_after_ms n \<le> 3522
   \<and> (n \<le> m \<longrightarrow> retransmit_after_ms n \<le> retransmit_after_ms m)"
proof -
  have bounds: "200 \<le> 10300 - 1010000 div (min k 49 + 100) \<and> 10300 - 1010000 div (min k 49 + 100) \<le> 3522" for k :: nat
    using div_le_mono2 [of 100 "min k 49 + 100" "1010000"] div_le_mono2 [of "min k 49 + 100" 149 "1010000"] by (simp; arith)
  have "10300 - 1010000 div (min k 49 + 100) \<le> 10300 - 1010000 div (min l 49 + 100)" if "k \<le> l" for k l :: nat
    using that by (intro diff_le_mono2 div_le_mono2) auto
  with bounds show ?thesis
    by (simp add: word_le_nat_alt retransmit_after_ms_nat)
qed

definition demo_waiting :: "nat channel" where
  "demo_waiting = demo_channel\<lparr>channel_sync_state := send_finish channel_sync_new,
     send_state := Sending \<lparr>frag_header = Encrypted 0x1234 24, frag_sync_bits = sync_bits_new, frag_offset = 20,
       frag_checksum = crc32_new, frag_crc_offset = 4\<rparr> 0\<rparr>"

text \<open>
  \<open>message_in\<close> needs a buffer of exactly the encrypted length: with any longer buffer it
  fails with \<open>UnexpectedInput\<close> after the message has been encrypted, so that the cipher's
  state has moved on although nothing will be sent.
\<close>

theorem message_in_long_buffer_fails:
  assumes "channel_message_in_ready ch" "can_send (channel_sync_state ch)" "channel_noise ch = Some nc"
    and "unicast_valid (channel_id ch)" "backend_ok B"
    and "plaintext_len + TAG_LEN < length send_buffer" "plaintext_len + TAG_LEN + CHECKSUM_LEN \<le> 60000"
  shows "case channel_message_in B ch plaintext_len send_buffer of (res, (ch', _)) \<Rightarrow>
    res = Err UnexpectedInput \<and> send_state ch' = SendIdle
    \<and> channel_noise ch' =
        Some (nc\<lparr>nc_encrypt := snd (encrypt_ad_in_place B (nc_encrypt nc) [] send_buffer plaintext_len)\<rparr>)"
proof -
  obtain ct e' where enc: "encrypt_ad_in_place B (nc_encrypt nc) [] send_buffer plaintext_len = (ct, e')" by fastforce
  have len: "length ct = length send_buffer"
    using backend_okD(1) [OF assms(5), of "nc_encrypt nc" "[]" send_buffer plaintext_len] enc by simp
  have h: "new_encrypted (channel_id ch) (take (plaintext_len + TAG_LEN) ct)
      = Ok (Encrypted (channel_id ch) (of_nat (plaintext_len + TAG_LEN + 4)))"
    using assms(4,6,7) len by (simp add: new_header_Ok validate_len_Ok CHECKSUM_LEN_def)
  obtain sb where sb: "send_start (channel_sync_state ch) = Some sb"
    using assms(2) by (auto simp: send_start_def Let_def)
  have "unat (of_nat (plaintext_len + TAG_LEN + 4) :: u16) = plaintext_len + TAG_LEN + 4"
    using assms(7) by (subst unat_of_nat) (simp add: CHECKSUM_LEN_def)
  then have "fragmenter_new (Encrypted (channel_id ch) (of_nat (plaintext_len + TAG_LEN + 4))) x ct = Err UnexpectedInput" for x
    using assms(6) len by (simp add: fragmenter_new_def CHECKSUM_LEN_def)
  then show ?thesis
    using assms(1,3,6) enc len h sb
    by (simp add: channel_message_in_def noise_encrypt_def raw_in_def raw_in_ext_def channel_message_in_ready_def Let_def)
qed

theorem message_in_long_buffer_fails_witness:
  "case channel_message_in plain_backend demo_channel 4 (replicate 64 0) of (res, (ch', _)) \<Rightarrow>
    res = Err UnexpectedInput \<and> send_state ch' = SendIdle
    \<and> channel_noise ch' = Some (demo_ciphers\<lparr>nc_encrypt := 1\<rparr>)"
  using message_in_long_buffer_fails [of demo_channel demo_ciphers plain_backend 4 "replicate 64 0"] plain_backend_ok
  by (simp add: demo_channel_def demo_ciphers_def channel_new_def channel_message_in_ready_def channel_sync_new_def unicast_valid_def
      channel_id_valid_def header_consts TAG_LEN_def CHECKSUM_LEN_def plain_backend_def plain_encrypt_def case_prod_unfold)

text \<open>
  C39. Reporting a recoverable error while a message waits for its acknowledgement blocks the
  channel for good: after the error packet is sent the channel claims to be ready for the
  next message, but no sequence of operations makes \<open>message_in\<close> succeed again.
\<close>

theorem transport_busy_blocks_channel:
  assumes "is_sending ch" "\<not> can_send (channel_sync_state ch)" "send_ack ch = None"
    and "channel_packet_out r (send_error TransportBusy ch) packet buf = (Ok u, (ch1, packet'))"
    and "channel_exec_all B r ch1 xs = Some ch2"
  shows "(receive_state ch \<noteq> ReceiveFailed \<longrightarrow> channel_message_in_ready ch1)
    \<and> fst (channel_message_in B ch2 n send_buffer) \<noteq> Ok ()"
proof -
  have ch1: "ch1 = ch\<lparr>send_state := SendIdle\<rparr>"
    using assms(3,4)
    by (auto simp: channel_packet_out_def send_error_def and_then_st_eq_Ok case_prod_unfold is_recoverable_def Let_def)
  then have "stuck ch1" using assms(2) by (simp add: stuck_def is_sending_def)
  then have "stuck ch2" using assms(5) by (rule stuck_exec_all)
  then show ?thesis using stuck_message_in ch1 by (auto simp: channel_message_in_ready_def)
qed


theorem transport_busy_blocks_channel_witness:
  "fst (channel_message_in plain_backend (demo_waiting\<lparr>send_state := SendIdle, channel_phase := EncryptedTransport\<rparr>) 4 (replicate 20 0)) \<noteq> Ok ()
   \<and> channel_message_in_ready (demo_waiting\<lparr>send_state := SendIdle\<rparr>)"
proof -
  have "new_error 0x1234 = Ok (TransportError 0x1234)"
    "sendable Device (TransportError 0x1234) sync_bits_new [transport_error_to_u8 TransportBusy]"
    by (auto simp: unicast_valid_def channel_id_valid_def new_header_Ok sendable_def header_control_byte_def header_consts CHECKSUM_LEN_def)
  then have "fst (channel_packet_out Device (send_error TransportBusy demo_waiting) (replicate 64 0) []) = Ok ()
    \<and> fst (snd (channel_packet_out Device (send_error TransportBusy demo_waiting) (replicate 64 0) []))
      = demo_waiting\<lparr>send_state := SendIdle\<rparr>"
    using fragmenter_single_Ok [of Device "TransportError 0x1234" sync_bits_new "[transport_error_to_u8 TransportBusy]" "replicate 64 0"]
    by (simp add: channel_packet_out_def send_error_def demo_waiting_def demo_channel_def channel_new_def
        header_consts CHECKSUM_LEN_def case_prod_unfold Let_def is_recoverable_def)
  then have "channel_packet_out Device (send_error TransportBusy demo_waiting) (replicate 64 0) []
      = (Ok (), (demo_waiting\<lparr>send_state := SendIdle\<rparr>,
          snd (snd (channel_packet_out Device (send_error TransportBusy demo_waiting) (replicate 64 0) []))))"
    by (simp add: prod_eq_iff)
  from transport_busy_blocks_channel [OF _ _ _ this, of plain_backend "[OpEndPairing, OpRetransmit]" _ 4 "replicate 20 0"]
  show ?thesis
    by (simp add: demo_waiting_def demo_channel_def channel_new_def is_sending_def channel_exec_all.simps
        end_pairing_def channel_message_retransmit_def settle_def)
qed

lemma handshake_not_other:
  "cb_is_handshake cb \<or> cb_is_encrypted_transport cb \<Longrightarrow> \<not> cb_is_ack cb \<and> \<not> cb_is_error cb \<and> \<not> cb_is_continuation cb"
proof (cases cb)
  case (ControlByte b)
  have "(cb_is_handshake (ControlByte b) \<or> cb_is_encrypted_transport (ControlByte b))
    \<longrightarrow> \<not> cb_is_ack (ControlByte b) \<and> \<not> cb_is_error (ControlByte b) \<and> \<not> cb_is_continuation (ControlByte b)"
    by (rule u8_all [of "\<lambda>b. (cb_is_handshake (ControlByte b) \<or> cb_is_encrypted_transport (ControlByte b))
      \<longrightarrow> \<not> cb_is_ack (ControlByte b) \<and> \<not> cb_is_error (ControlByte b) \<and> \<not> cb_is_continuation (ControlByte b)"]) code_simp
  then show ?thesis if "cb_is_handshake cb \<or> cb_is_encrypted_transport cb"
    using that ControlByte by auto
qed

text \<open>
  An initiation packet that does not parse is reported as ignored, and the reception in
  progress goes on as if it had not arrived, but the bytes already received are gone: the
  buffer has been cleared.
\<close>

theorem malformed_init_clears_buffer:
  assumes "\<not> is_failed ch" "\<not> is_sending ch" "receive_state ch = Receiving x"
    and "parse_cb_channel packet = Ok (cb, channel_id ch, rest)"
    and "cb_is_handshake cb \<or> cb_is_encrypted_transport cb"
    and "receive_start (channel_sync_state ch) (cb_sync_bits cb)" "header_parse r packet = Err MalformedData"
  shows "channel_packet_in r ch packet buf = (Ok (Ignored MalformedData), (ch, replicate (length buf) 0))"
proof -
  have "reassembler_new r packet (replicate (length buf) 0) = (Err MalformedData, replicate (length buf) 0)"
    using assms(7) by (simp add: reassembler_new_def)
  then show ?thesis
    using assms(1-6) handshake_not_other [OF assms(5)]
    by (simp add: channel_packet_in_def handle_packet_def handle_invalid_seq_def handle_init_def Let_def pir_ignore_def)
qed

definition demo_receiving :: "nat channel" where
  "demo_receiving = demo_channel\<lparr>receive_state := Receiving
     \<lparr>reas_header = Encrypted 0x1234 24, reas_sync_bits = sync_bits_new, reas_offset = 4, reas_checksum = crc32_new\<rparr>\<rparr>"

theorem malformed_init_clears_buffer_witness:
  "channel_packet_in Device demo_receiving [0x01, 0x12, 0x34, 0x00, 0x18] [1, 2, 3, 4]
   = (Ok (Ignored MalformedData), (demo_receiving, [0, 0, 0, 0]))"
proof -
  have "parse_cb_channel [0x01, 0x12, 0x34, 0x00, 0x18] = Ok (ControlByte 0x01, 0x1234, [0x00, 0x18])"
    "header_parse Device [0x01, 0x12, 0x34, 0x00, 0x18] = Err MalformedData"
    "cb_is_handshake (ControlByte 0x01)" "receive_start channel_sync_new (cb_sync_bits (ControlByte 0x01))"
    by code_simp+
  from malformed_init_clears_buffer [OF _ _ _ _ _ _ this(2), of demo_receiving _ _ _ "[1, 2, 3, 4]"] this show ?thesis
    by (simp add: demo_receiving_def demo_channel_def channel_new_def is_failed_def is_sending_def)
qed

end
