(* ===== verification/Thp_Channel_IO.thy ===== *)
theory Thp_Channel_IO
  imports Thp_Channel
begin

text \<open>
  The trait \<open>ChannelIO\<close> of \<open>channel/mod.rs\<close>, shared by the channel, the two multiplexers and
  the two handshake objects, as a record of its methods; the contract its users rely on as a
  locale; and the channel as the first implementation.
\<close>

section \<open>The trait\<close>

record 's channel_io =
  io_packet_in :: "'s \<Rightarrow> bytes \<Rightarrow> bytes \<Rightarrow> packet_in_result thp_result \<times> ('s \<times> bytes)"
  io_packet_in_ready :: "'s \<Rightarrow> bool"
  io_packet_out :: "'s \<Rightarrow> bytes \<Rightarrow> bytes \<Rightarrow> unit thp_result \<times> ('s \<times> bytes)"
  io_packet_out_ready :: "'s \<Rightarrow> bool"
  io_message_in :: "'s \<Rightarrow> nat \<Rightarrow> bytes \<Rightarrow> unit thp_result \<times> ('s \<times> bytes)"
  io_message_in_ready :: "'s \<Rightarrow> bool"
  io_message_out :: "'s \<Rightarrow> bytes \<Rightarrow> (u8 \<times> u16 \<times> bytes) thp_result \<times> ('s \<times> bytes)"
  io_message_out_ready :: "'s \<Rightarrow> bool"
  io_message_retransmit :: "'s \<Rightarrow> unit thp_result \<times> 's"
  io_channel_id :: "'s \<Rightarrow> u16"

definition io_message_in_from ::
  "'s channel_io \<Rightarrow> 's \<Rightarrow> u8 \<Rightarrow> u16 \<Rightarrow> bytes \<Rightarrow> bytes \<Rightarrow> unit thp_result \<times> ('s \<times> bytes)" where
  "io_message_in_from io = message_in_from (io_message_in_ready io) (io_message_in io)"

text \<open>
  The methods of the trait that the event loop may call in any order, and the effect of one
  and of several; \<open>None\<close> is a panic.
\<close>

datatype io_op =
    IoPacketIn bytes bytes
  | IoPacketOut bytes bytes
  | IoMessageIn nat bytes
  | IoMessageInFrom u8 u16 bytes bytes
  | IoMessageOut bytes
  | IoRetransmit

fun io_exec :: "'s channel_io \<Rightarrow> 's \<Rightarrow> io_op \<Rightarrow> 's option" where
  "io_exec io s (IoPacketIn packet buf) = map_option fst (settle (io_packet_in io s packet buf))"
| "io_exec io s (IoPacketOut packet buf) = map_option fst (settle (io_packet_out io s packet buf))"
| "io_exec io s (IoMessageIn n buf) = map_option fst (settle (io_message_in io s n buf))"
| "io_exec io s (IoMessageInFrom sid mt m buf) =
     map_option fst (settle (io_message_in_from io s sid mt m buf))"
| "io_exec io s (IoMessageOut buf) = map_option fst (settle (io_message_out io s buf))"
| "io_exec io s IoRetransmit = settle (io_message_retransmit io s)"

fun io_exec_all :: "'s channel_io \<Rightarrow> 's \<Rightarrow> io_op list \<Rightarrow> 's option" where
  "io_exec_all io s [] = Some s"
| "io_exec_all io s (x # xs) = (case io_exec io s x of None \<Rightarrow> None | Some s \<Rightarrow> io_exec_all io s xs)"

section \<open>The contract\<close>

text \<open>
  What a user of the trait may rely on, with \<open>invar\<close> the invariant of the implementation: no
  method panics or breaks the invariant, buffers keep their lengths, and a message that is
  picked up lies behind the application header in the receive buffer.
\<close>

locale channel_io_contract =
  fixes io :: "'s channel_io" and invar :: "'s \<Rightarrow> bool"
  assumes packet_in_safe:
      "invar s \<Longrightarrow> safely (\<lambda>(s', buf'). invar s' \<and> length buf' = length buf) (io_packet_in io s packet buf)"
    and packet_out_safe:
      "invar s \<Longrightarrow> safely (\<lambda>(s', packet'). invar s' \<and> length packet' = length packet) (io_packet_out io s packet buf)"
    and message_in_safe:
      "invar s \<Longrightarrow> safely (\<lambda>(s', buf'). invar s' \<and> length buf' = length buf) (io_message_in io s n buf)"
    and message_out_safe:
      "invar s \<Longrightarrow> safely (\<lambda>(s', buf'). invar s' \<and> length buf' = length buf) (io_message_out io s buf)"
    and message_out_slice:
      "invar s \<Longrightarrow> io_message_out io s buf = (Ok (sid, mt, m), (s', buf')) \<Longrightarrow>
        m \<noteq> [] \<Longrightarrow> APP_HEADER_LEN + length m \<le> length buf \<and> m = take (length m) (drop APP_HEADER_LEN buf')"
    and retransmit_safe: "invar s \<Longrightarrow> safely invar (io_message_retransmit io s)"
begin

lemma message_in_from_safe:
  assumes "invar s"
  shows "safely (\<lambda>(s', buf'). invar s' \<and> length buf' = length buf) (io_message_in_from io s sid mt m buf)"
proof (cases "length buf < length m + APP_HEADER_LEN")
  case False
  let ?buf = "[sid] @ u16_to_be mt @ m @ drop (length m + APP_HEADER_LEN) buf"
  have "length ?buf = length buf" using False by (simp add: APP_HEADER_LEN_def)
  then show ?thesis
    using False assms message_in_safe [OF assms, of ?buf "length m + APP_HEADER_LEN"]
    by (simp add: io_message_in_from_def message_in_from_def Let_def)
qed (use assms in \<open>simp add: io_message_in_from_def message_in_from_def\<close>)

lemma exec_safe:
  assumes "invar s"
  shows "\<exists>s'. io_exec io s x = Some s' \<and> invar s'"
proof (cases x)
  case (IoPacketIn p buf)
  then show ?thesis using settle_safely [OF packet_in_safe [OF assms, of buf p]] by auto
next
  case (IoPacketOut p buf)
  then show ?thesis using settle_safely [OF packet_out_safe [OF assms, of p buf]] by auto
next
  case (IoMessageIn n buf)
  then show ?thesis using settle_safely [OF message_in_safe [OF assms, of buf n]] by auto
next
  case (IoMessageInFrom sid mt m buf)
  then show ?thesis using settle_safely [OF message_in_from_safe [OF assms, of buf sid mt m]] by auto
next
  case (IoMessageOut buf)
  then show ?thesis using settle_safely [OF message_out_safe [OF assms, of buf]] by auto
next
  case IoRetransmit
  then show ?thesis using settle_safely [OF retransmit_safe [OF assms]] by simp
qed

lemma exec_all_safe: "invar s \<Longrightarrow> \<exists>s'. io_exec_all io s xs = Some s' \<and> invar s'"
proof (induction xs arbitrary: s)
  case (Cons x xs)
  then obtain s1 where "io_exec io s x = Some s1" "invar s1" using exec_safe by blast
  then show ?case using Cons.IH by simp
qed simp

end

section \<open>The channel\<close>

definition channel_channel_io :: "('c, 'h) backend \<Rightarrow> role \<Rightarrow> 'c channel channel_io" where
  "channel_channel_io B r =
     \<lparr>io_packet_in = channel_packet_in r, io_packet_in_ready = channel_packet_in_ready,
      io_packet_out = channel_packet_out r, io_packet_out_ready = channel_packet_out_ready,
      io_message_in = channel_message_in B, io_message_in_ready = channel_message_in_ready,
      io_message_out = channel_message_out B r, io_message_out_ready = channel_message_out_ready,
      io_message_retransmit = channel_message_retransmit, io_channel_id = channel_id\<rparr>"

lemma channel_io_simps [simp]:
  "io_packet_in (channel_channel_io B r) = channel_packet_in r"
  "io_packet_out (channel_channel_io B r) = channel_packet_out r"
  "io_message_in (channel_channel_io B r) = channel_message_in B"
  "io_message_out (channel_channel_io B r) = channel_message_out B r"
  "io_message_retransmit (channel_channel_io B r) = channel_message_retransmit"
  "io_message_in_from (channel_channel_io B r) = channel_message_in_from B"
  by (simp_all add: channel_channel_io_def io_message_in_from_def channel_message_in_from_def)

lemma fragmenter_next_length: "length (snd (snd (fragmenter_next r f payload packet))) = length packet"
  by (cases "fragmenter_next r f payload packet") (auto dest: fragmenter_next_keeps(3))

lemma fragmenter_single_length: "length (snd (fragmenter_single r h sb payload packet)) = length packet"
  unfolding fragmenter_single_def
  by (rule and_then_st_state [where P = "\<lambda>d. length d = length packet"], simp)
    (auto simp: case_prod_unfold Let_def fragmenter_next_length intro!: and_then_st_state [where P = "\<lambda>d. length d = length packet"])

lemma channel_packet_out_length: "length (snd (snd (channel_packet_out r ch packet buf))) = length packet"
proof -
  note st = and_then_st_state [where P = "\<lambda>st. length (snd st) = length packet"]
  show ?thesis
  proof (cases "send_ack ch")
    case None
    then show ?thesis
      by (cases "send_state ch")
       (auto simp: channel_packet_out_def case_prod_unfold Let_def fragmenter_next_length fragmenter_single_length intro!: st)
  next
    case (Some sb)
    then show ?thesis
      by (auto simp: channel_packet_out_def case_prod_unfold Let_def fragmenter_single_length intro!: st)
  qed
qed

lemma channel_message_out_slice:
  assumes "channel_message_out B r ch buf = (Ok (sid, mt, m), (ch', buf'))" "backend_ok B"
  shows "APP_HEADER_LEN + length m \<le> length buf \<and> m = take (length m) (drop APP_HEADER_LEN buf')"
proof -
  obtain h len ch1 where out: "raw_out ch buf = (Ok (h, len), ch1)"
    using assms(1) by (cases "raw_out ch buf"; cases "fst (raw_out ch buf)") (auto simp: channel_message_out_def)
  have len: "len \<le> length buf"
    using raw_out_Ok [OF out] reassembler_verify_length by (metis add_leD1)
  obtain nc where nc: "channel_noise ch1 = Some nc" 
    using assms(1) out len by (cases "channel_noise ch1") (auto simp: channel_message_out_def split: if_splits)
  obtain res nc' dec where d: "noise_decrypt B nc (take len buf) = (res, (nc', dec))" by (metis prod.exhaust)
  note dl = noise_decrypt_length [OF assms(2) d]
  obtain n where n: "res = Ok n"
    using assms(1) out len nc d by (cases res) (auto simp: channel_message_out_def Let_def split: if_splits)
  have nl: "n \<le> length dec" "length dec = len" using dl(1) dl(2) [OF n] len by simp_all
  have "\<exists>rest. take n dec = sid # rest \<and> parse_u16 rest = Ok (mt, m) \<and> buf' = dec @ drop len buf"
    using assms(1) out len nc d n nl
    by (auto simp: channel_message_out_def and_then_st_eq_Ok case_prod_unfold Let_def split: if_splits list.splits)
  then have pt: "take n dec = [sid] @ u16_to_be mt @ m" "buf' = dec @ drop len buf" by (auto simp: parse_u16_Ok)
  have "length (take n dec) = APP_HEADER_LEN + length m" unfolding pt(1) by (simp add: APP_HEADER_LEN_def)
  then have n: "n = APP_HEADER_LEN + length m" using nl by simp
  have "m = drop APP_HEADER_LEN (take n dec)" using pt(1) by (simp add: APP_HEADER_LEN_def)
  then show ?thesis using n nl len pt(2) by (simp add: drop_take)
qed

interpretation chan: channel_io_contract "channel_channel_io B r" "\<lambda>ch. backend_ok B \<and> channel_wf r ch" for B r
proof
  fix s :: "'a channel" and packet buf
  assume "backend_ok B \<and> channel_wf r s"
  then show "safely (\<lambda>(s', packet'). (backend_ok B \<and> channel_wf r s') \<and> length packet' = length packet)
      (io_packet_out (channel_channel_io B r) s packet buf)"
    using channel_packet_out_safe [of r s packet buf] channel_packet_out_length [of r s packet buf]
    by (auto simp: safely_def)
qed (auto simp: channel_packet_in_safe channel_message_in_safe channel_message_out_safe
      channel_message_retransmit_wf dest: channel_message_out_slice)

section \<open>Facts for the other implementations\<close>

lemma control_byte_parse_cb_channel:
  assumes "control_byte_parse packet = Ok (cb, rest)" "parse_channel_length cb packet = Ok (cid, len)"
  shows "(\<exists>tail. parse_cb_channel packet = Ok (cb, cid, tail)) \<and> channel_id_valid cid"
  using assms
  by (auto simp: parse_cb_channel_def parse_channel_length_def control_byte_parse_Ok split: if_splits)

lemma accepted_receiving:
  assumes "channel_packet_in r ch packet buf = (Ok (Accepted a b c (Some n)), (ch', buf'))"
  shows "\<exists>x. receive_state ch' = Receiving x"
proof -
  have last: "\<exists>x. receive_state (snd (handle_last_packet c bs)) = Receiving x"
    if "fst (handle_last_packet c bs) = Ok (Accepted a b d (Some n))" for c :: "'a channel" and a b d bs n
    using that
    by (auto simp: handle_last_packet_def check_buffer_len_def Let_def case_prod_unfold
        split: receive_state.splits result.splits if_splits)
  have "handle_packet r ch packet buf = (Ok (Accepted a b c (Some n)), (ch', buf'))"
    using assms
    by (cases "handle_packet r ch packet buf"; cases "fst (handle_packet r ch packet buf)")
      (auto simp: channel_packet_in_def Let_def pir_fail_def pir_ignore_def split: if_splits packet_in_result.splits)
  then show ?thesis
    by (auto simp: handle_packet_def and_then_st_eq_Ok case_prod_unfold Let_def pir_ack_def pir_transport_error_def map_ok_def
        split: if_splits dest: last)
qed

lemma nonce_parse_no_panic [simp]: "nonce_parse bs \<noteq> Panic"
  by (simp add: nonce_parse_def)

lemma nonce_parse_Ok: "nonce_parse bs = Ok (n, rest) \<longleftrightarrow> (\<exists>k. k = unat NONCE_LEN \<and> k \<le> length bs \<and> n = Nonce (take k bs) \<and> rest = drop k bs)"
  by (auto simp: nonce_parse_def split_first_chunk_def)

lemma fragmenter_single_safe:
  "safely (\<lambda>p. length p = length packet) (fragmenter_single r h sb payload packet)"
  by (simp add: safely_def fragmenter_single_length)

lemma raw_in_safe:
  assumes "channel_wf r ch" "header_wf h \<and> header_is_init h" "\<And>sb. header_control_byte r h sb \<noteq> None"
  shows "safely (channel_wf r) (raw_in ch h buf)"
  using assms raw_in_ext_safe [of r ch h buf False] by (simp add: raw_in_def)

lemma channel_wf_idle:
  "channel_wf r ch \<Longrightarrow> receive_state ch = Receiving x \<Longrightarrow> channel_wf r (ch\<lparr>receive_state := ReceiveIdle\<rparr>)"
  by (simp add: channel_wf_def)

text \<open>Packets do not touch the ciphers.\<close>

lemma raw_out_noise [simp]: "channel_noise (snd (raw_out ch buf)) = channel_noise ch"
  by (auto simp: raw_out_def Let_def case_prod_unfold split: receive_state.splits
      intro!: and_then_st_state [where P = "\<lambda>c. channel_noise c = channel_noise ch"])

lemma raw_in_noise [simp]: "channel_noise (snd (raw_in ch h buf)) = channel_noise ch"
  by (auto simp: raw_in_def raw_in_ext_def Let_def
      intro!: and_then_st_state [where P = "\<lambda>c. channel_noise c = channel_noise ch"])

lemma retransmit_noise [simp]: "channel_noise (snd (channel_message_retransmit ch)) = channel_noise ch"
  by (auto simp: channel_message_retransmit_def Let_def split: send_state.splits)

lemma handle_packet_noise: "channel_noise (fst (snd (handle_packet r ch packet buf))) = channel_noise ch"
proof -
  note st = and_then_st_state [where P = "\<lambda>st. channel_noise (fst st) = channel_noise ch"]
  have "channel_noise (snd (handle_ack r ch packet)) = channel_noise ch"
    by (auto simp: handle_ack_def Let_def case_prod_unfold
      intro!: and_then_st_state [where P = "\<lambda>c. channel_noise c = channel_noise ch"])
  moreover have "channel_noise (snd (handle_error r ch packet)) = channel_noise ch"
    by (auto simp: handle_error_def become_failed_def split: result.splits)
  moreover have "channel_noise (fst (snd (handle_cont r ch packet buf))) = channel_noise ch"
    by (auto simp: handle_cont_def Let_def case_prod_unfold split: receive_state.splits)
  moreover have "channel_noise (snd (handle_invalid_seq ch sb)) = channel_noise ch" for sb
    by (auto simp: handle_invalid_seq_def)
  moreover have "channel_noise (fst (snd (handle_init r c packet buf))) = channel_noise c" for c :: "'a channel"
    by (auto simp: handle_init_def Let_def case_prod_unfold
      intro!: and_then_st_state [where P = "\<lambda>st. channel_noise (fst st) = channel_noise c"])
  moreover have "channel_noise (snd (handle_last_packet c buf')) = channel_noise c" for c :: "'a channel" and buf'
    by (auto simp: handle_last_packet_def Let_def case_prod_unfold split: receive_state.splits result.splits)
  ultimately show ?thesis
    by (auto simp: handle_packet_def Let_def case_prod_unfold intro!: st)
qed

lemma channel_packet_in_noise [simp]: "channel_noise (fst (snd (channel_packet_in r ch packet buf))) = channel_noise ch"
  using handle_packet_noise [of r ch packet buf]
  by (auto simp: channel_packet_in_def Let_def case_prod_unfold become_failed_def split: result.splits packet_in_result.splits)

lemma channel_packet_out_noise [simp]: "channel_noise (fst (snd (channel_packet_out r ch packet buf))) = channel_noise ch"
proof -
  note st = and_then_st_state [where P = "\<lambda>st. channel_noise (fst st) = channel_noise ch"]
  show ?thesis
    by (cases "send_ack ch"; cases "send_state ch")
      (auto simp: channel_packet_out_def case_prod_unfold Let_def become_failed_def intro!: st)
qed

end
