(* ===== verification/Thp_Buffered.thy ===== *)
theory Thp_Buffered
  imports Thp_Channel_IO
begin

text \<open>
  The wrapper \<open>Buffered\<close> of \<open>channel/buffered.rs\<close>, which owns the send and receive buffers of
  an implementation of \<open>ChannelIO\<close>. It is generic in the implementation, so its operations take
  the record of the trait's methods, and its safety is proved once from the contract.
\<close>

section \<open>The wrapper\<close>

definition INITIAL_BUFFER_LEN :: nat where "INITIAL_BUFFER_LEN = 1024"
definition DEFAULT_PACKET_LEN :: nat where "DEFAULT_PACKET_LEN = 64"

record 's buffered =
  buf_channel :: 's
  buf_packet_len :: nat
  buf_send_buffer :: bytes
  buf_receive_buffer :: bytes

definition buffered_new :: "'s \<Rightarrow> 's buffered" where
  "buffered_new ch =
     \<lparr>buf_channel = ch, buf_packet_len = DEFAULT_PACKET_LEN, buf_send_buffer = [],
      buf_receive_buffer = replicate INITIAL_BUFFER_LEN 0\<rparr>"

definition set_packet_len :: "nat \<Rightarrow> 's buffered \<Rightarrow> 's buffered" where
  "set_packet_len n b = b\<lparr>buf_packet_len := n\<rparr>"

definition resize_for :: "bytes \<Rightarrow> bytes \<Rightarrow> bytes" where
  "resize_for packet_buffer receive_buffer =
     (case and_then (control_byte_parse packet_buffer) (\<lambda>(cb, _). parse_channel_length cb packet_buffer) of
        Ok (_, Some len) \<Rightarrow>
          if unat len > length receive_buffer
          then receive_buffer @ replicate (unat len - length receive_buffer) 0
          else receive_buffer
      | _ \<Rightarrow> receive_buffer)"

definition buffered_packet_in ::
  "'s channel_io \<Rightarrow> 's buffered \<Rightarrow> bytes \<Rightarrow> packet_in_result thp_result \<times> 's buffered" where
  "buffered_packet_in io b packet_buffer =
     (let receive_buffer = resize_for packet_buffer (buf_receive_buffer b);
          (res, (ch, receive_buffer)) = io_packet_in io (buf_channel b) packet_buffer receive_buffer
      in (res, b\<lparr>buf_channel := ch, buf_receive_buffer := receive_buffer\<rparr>))"

definition buffered_packet_out :: "'s channel_io \<Rightarrow> 's buffered \<Rightarrow> bytes thp_result \<times> 's buffered" where
  "buffered_packet_out io b =
     (let (res, (ch, packet)) =
        io_packet_out io (buf_channel b) (replicate (buf_packet_len b) 0) (buf_send_buffer b)
      in (map_ok (\<lambda>_. packet) res, b\<lparr>buf_channel := ch\<rparr>))"

definition buffered_message_in ::
  "'s channel_io \<Rightarrow> 's buffered \<Rightarrow> u8 \<Rightarrow> u16 \<Rightarrow> bytes \<Rightarrow> unit thp_result \<times> 's buffered" where
  "buffered_message_in io b session_id message_type message =
     (let (res, (ch, send_buffer)) =
        io_message_in_from io (buf_channel b) session_id message_type message
          (replicate (length message + SEND_BUFFER_OVERHEAD) 0);
          b = b\<lparr>buf_channel := ch\<rparr>
      in (res, case res of Ok _ \<Rightarrow> b\<lparr>buf_send_buffer := send_buffer\<rparr> | _ \<Rightarrow> b))"

definition buffered_message_out ::
  "'s channel_io \<Rightarrow> 's buffered \<Rightarrow> (u8 \<times> u16 \<times> bytes) thp_result \<times> 's buffered" where
  "buffered_message_out io b =
     (let (res, (ch, receive_buffer)) = io_message_out io (buf_channel b) (buf_receive_buffer b);
          b = b\<lparr>buf_channel := ch, buf_receive_buffer := receive_buffer\<rparr>
      in and_then_st (res, b) (\<lambda>(session_id, message_type, message) b.
         let len = length message in
         and_then_st (copy_within APP_HEADER_LEN (APP_HEADER_LEN + len) 0 (buf_receive_buffer b), b)
           (\<lambda>receive_buffer b.
         (Ok (session_id, message_type, take len receive_buffer),
          b\<lparr>buf_receive_buffer := replicate INITIAL_BUFFER_LEN 0\<rparr>))))"

definition buffered_message_retransmit :: "'s channel_io \<Rightarrow> 's buffered \<Rightarrow> unit thp_result \<times> 's buffered" where
  "buffered_message_retransmit io b =
     (let (res, ch) = io_message_retransmit io (buf_channel b) in (res, b\<lparr>buf_channel := ch\<rparr>))"

definition buffered_map :: "('s \<Rightarrow> 't thp_result) \<Rightarrow> 's buffered \<Rightarrow> 't buffered thp_result" where
  "buffered_map func b =
     and_then (func (buf_channel b)) (\<lambda>ch.
     Ok \<lparr>buf_channel = ch, buf_packet_len = buf_packet_len b, buf_send_buffer = buf_send_buffer b,
         buf_receive_buffer = buf_receive_buffer b\<rparr>)"

text \<open>The methods of the wrapper in any order.\<close>

datatype buffered_op =
    BufPacketIn bytes
  | BufPacketOut
  | BufMessageIn u8 u16 bytes
  | BufMessageOut
  | BufRetransmit
  | BufSetPacketLen nat

fun buffered_exec :: "'s channel_io \<Rightarrow> 's buffered \<Rightarrow> buffered_op \<Rightarrow> 's buffered option" where
  "buffered_exec io b (BufPacketIn packet) = settle (buffered_packet_in io b packet)"
| "buffered_exec io b BufPacketOut = settle (buffered_packet_out io b)"
| "buffered_exec io b (BufMessageIn sid mt m) = settle (buffered_message_in io b sid mt m)"
| "buffered_exec io b BufMessageOut = settle (buffered_message_out io b)"
| "buffered_exec io b BufRetransmit = settle (buffered_message_retransmit io b)"
| "buffered_exec io b (BufSetPacketLen n) = Some (set_packet_len n b)"

fun buffered_exec_all :: "'s channel_io \<Rightarrow> 's buffered \<Rightarrow> buffered_op list \<Rightarrow> 's buffered option" where
  "buffered_exec_all io b [] = Some b"
| "buffered_exec_all io b (x # xs) =
     (case buffered_exec io b x of None \<Rightarrow> None | Some b \<Rightarrow> buffered_exec_all io b xs)"

definition buffered_wf :: "('s \<Rightarrow> bool) \<Rightarrow> 's buffered \<Rightarrow> bool" where
  "buffered_wf invar b \<longleftrightarrow> invar (buf_channel b) \<and> INITIAL_BUFFER_LEN \<le> length (buf_receive_buffer b)"

lemma buffered_wf_new [simp]: "buffered_wf invar (buffered_new s) = invar s"
  by (simp add: buffered_wf_def buffered_new_def)

lemma buffered_wf_packet_len [simp]: "buffered_wf invar (set_packet_len n b) = buffered_wf invar b"
  by (simp add: buffered_wf_def set_packet_len_def)

lemma length_resize_for: "length buf \<le> length (resize_for packet buf)"
  by (auto simp: resize_for_def split: result.splits option.splits)

section \<open>Safety from the contract\<close>

context channel_io_contract
begin

lemma buffered_packet_in_safe:
  assumes "buffered_wf invar b"
  shows "safely (buffered_wf invar) (buffered_packet_in io b packet)"
proof -
  have "safely (\<lambda>(s', buf'). invar s' \<and> length buf' = length (resize_for packet (buf_receive_buffer b)))
      (io_packet_in io (buf_channel b) packet (resize_for packet (buf_receive_buffer b)))"
    using assms by (intro packet_in_safe) (simp add: buffered_wf_def)
  then show ?thesis
    using assms length_resize_for [of "buf_receive_buffer b" packet]
    by (auto simp: buffered_packet_in_def buffered_wf_def safely_def case_prod_unfold Let_def)
qed

lemma buffered_packet_out_safe:
  assumes "buffered_wf invar b"
  shows "safely (buffered_wf invar) (buffered_packet_out io b)"
  using packet_out_safe [of "buf_channel b" "replicate (buf_packet_len b) 0" "buf_send_buffer b"] assms
  by (auto simp: buffered_packet_out_def buffered_wf_def safely_def case_prod_unfold Let_def map_ok_def and_then_eq_Panic)

lemma buffered_message_in_safe:
  assumes "buffered_wf invar b"
  shows "safely (buffered_wf invar) (buffered_message_in io b sid mt m)"
  using message_in_from_safe [of "buf_channel b" "replicate (length m + SEND_BUFFER_OVERHEAD) 0" sid mt m] assms
  by (auto simp: buffered_message_in_def buffered_wf_def safely_def case_prod_unfold Let_def split: result.splits)

text \<open>
  The wrapper hands out the very message that the implementation found in its buffer.
\<close>

lemma buffered_message_out_same:
  assumes "buffered_wf invar b" "io_message_out io (buf_channel b) (buf_receive_buffer b) = (Ok (sid, mt, m), (s', buf'))"
  shows "buffered_message_out io b =
    (Ok (sid, mt, m), b\<lparr>buf_channel := s', buf_receive_buffer := replicate INITIAL_BUFFER_LEN 0\<rparr>)"
proof -
  have len: "length buf' = length (buf_receive_buffer b)"
    using message_out_safe [of "buf_channel b" "buf_receive_buffer b"] assms
    by (auto simp: buffered_wf_def safely_def)
  have "APP_HEADER_LEN + length m \<le> length buf' \<and> m = take (length m) (drop APP_HEADER_LEN buf')"
  proof (cases "m = []")
    case True
    then show ?thesis using assms(1) len by (simp add: buffered_wf_def INITIAL_BUFFER_LEN_def APP_HEADER_LEN_def)
  next
    case False
    then show ?thesis using message_out_slice [OF _ assms(2)] assms(1) len by (simp add: buffered_wf_def)
  qed
  then show ?thesis
    using assms(2) by (simp add: buffered_message_out_def copy_within_def)
qed

lemma buffered_message_out_safe:
  assumes "buffered_wf invar b"
  shows "safely (buffered_wf invar) (buffered_message_out io b)"
proof -
  obtain res s' buf' where out: "io_message_out io (buf_channel b) (buf_receive_buffer b) = (res, (s', buf'))"
    by (metis prod.exhaust)
  have s': "invar s'" "length buf' = length (buf_receive_buffer b)" "res \<noteq> Panic"
    using message_out_safe [of "buf_channel b" "buf_receive_buffer b"] assms out
    by (auto simp: buffered_wf_def safely_def)
  show ?thesis
  proof (cases res)
    case (Ok x)
    then show ?thesis
      using buffered_message_out_same [OF assms, of "fst x" "fst (snd x)" "snd (snd x)"] out s' by (simp add: buffered_wf_def)
  next
    case (Err e)
    then show ?thesis using out s' assms by (simp add: buffered_message_out_def buffered_wf_def)
  qed (use s' in simp)
qed

lemma buffered_retransmit_safe:
  "buffered_wf invar b \<Longrightarrow> safely (buffered_wf invar) (buffered_message_retransmit io b)"
  using retransmit_safe [of "buf_channel b"]
  by (auto simp: buffered_message_retransmit_def buffered_wf_def safely_def case_prod_unfold Let_def)

lemma buffered_exec_safe:
  assumes "buffered_wf invar b"
  shows "\<exists>b'. buffered_exec io b x = Some b' \<and> buffered_wf invar b'"
  by (cases x) (use assms in \<open>simp_all add: settle_safely buffered_packet_in_safe buffered_packet_out_safe
    buffered_message_in_safe buffered_message_out_safe buffered_retransmit_safe\<close>)

lemma buffered_exec_all_safe:
  "buffered_wf invar b \<Longrightarrow> \<exists>b'. buffered_exec_all io b xs = Some b' \<and> buffered_wf invar b'"
proof (induction xs arbitrary: b)
  case (Cons x xs)
  then obtain b1 where "buffered_exec io b x = Some b1" "buffered_wf invar b1" using buffered_exec_safe by blast
  then show ?case using Cons.IH by simp
qed simp

end

end
