(* ===== verification/Thp_Device.thy ===== *)
theory Thp_Device
  imports Thp_Channel_IO
begin

text \<open>
  The device's side of opening channels, \<open>channel/device.rs\<close>: the multiplexer \<open>Mux\<close> that
  routes packets and serves the broadcast channel, the channel in the handshake phase
  \<open>ChannelOpen\<close>, and the allocator of channel ids. The static and the ephemeral key are
  arguments of the operations that use them.
\<close>

section \<open>Multiplexer\<close>

definition BROADCAST_OUTGOING_QUEUE_LEN :: nat where "BROADCAST_OUTGOING_QUEUE_LEN = 8"

definition CODEC_V1_RESPONSE :: bytes where
  "CODEC_V1_RESPONSE = [0x3F, 0x23, 0x23, 0x00, 0x03, 0x00, 0x00, 0x00, 0x02, 0x08, 0x11]"

datatype mux_outgoing = OutError u16 transport_error | OutPong nonce | OutCodecV1Response

fun mux_outgoing_to_str :: "mux_outgoing \<Rightarrow> string" where
  "mux_outgoing_to_str (OutError _ _) = ''transport_error''"
| "mux_outgoing_to_str (OutPong _) = ''pong''"
| "mux_outgoing_to_str OutCodecV1Response = ''codec_v1_response''"

record device_mux =
  dm_outgoing :: "mux_outgoing list"
  dm_new_channel :: "nonce option"
  dm_device_properties :: bytes

definition device_mux_new :: "bytes \<Rightarrow> device_mux thp_result" where
  "device_mux_new device_properties =
     and_then (ok_or InsufficientBuffer (vec_from_slice MAX_DEVICE_PROPERTIES_LEN device_properties)) (\<lambda>props.
     Ok \<lparr>dm_outgoing = [], dm_new_channel = None, dm_device_properties = props\<rparr>)"

definition device_mux_reset :: "device_mux \<Rightarrow> device_mux" where
  "device_mux_reset m = m\<lparr>dm_outgoing := [], dm_new_channel := None\<rparr>"

definition device_channel_alloc_ready :: "device_mux \<Rightarrow> bool" where
  "device_channel_alloc_ready m \<longleftrightarrow> dm_new_channel m \<noteq> None"

definition mux_enqueue :: "device_mux \<Rightarrow> mux_outgoing \<Rightarrow> unit thp_result \<times> device_mux" where
  "mux_enqueue m out =
     (case deque_push_back BROADCAST_OUTGOING_QUEUE_LEN (dm_outgoing m) out of
        Some q \<Rightarrow> (Ok (), m\<lparr>dm_outgoing := q\<rparr>)
      | None \<Rightarrow> (Err NotReady, m))"

definition send_transport_busy :: "device_mux \<Rightarrow> u16 \<Rightarrow> unit thp_result \<times> device_mux" where
  "send_transport_busy m cid = mux_enqueue m (OutError cid TransportBusy)"

definition send_unallocated_channel :: "device_mux \<Rightarrow> u16 \<Rightarrow> unit thp_result \<times> device_mux" where
  "send_unallocated_channel m cid = mux_enqueue m (OutError cid UnallocatedChannel)"

text \<open>The result says whether an allocation request has been received.\<close>

definition device_handle_broadcast :: "device_mux \<Rightarrow> bytes \<Rightarrow> bool thp_result \<times> device_mux" where
  "device_handle_broadcast m packet =
     and_then_st (reassembler_single Device packet, m) (\<lambda>(h, payload) m.
     if h = Ping \<and> length payload = unat NONCE_LEN then
       and_then_st (nonce_parse payload, m) (\<lambda>(nonce, _) m.
       let (res, m) = mux_enqueue m (OutPong nonce) in (map_ok (\<lambda>_. False) res, m))
     else if h = ChannelAllocationRequest \<and> length payload = unat NONCE_LEN then
       and_then_st (nonce_parse payload, m) (\<lambda>(nonce, _) m. (Ok True, m\<lparr>dm_new_channel := Some nonce\<rparr>))
     else (Err MalformedData, m))"

definition device_handle_v1 :: "device_mux \<Rightarrow> bytes \<Rightarrow> packet_in_result thp_result \<times> device_mux" where
  "device_handle_v1 m packet =
     (case header_parse Device packet of
        Ok (CodecV1Request False, _) \<Rightarrow>
          let (res, m) = mux_enqueue m OutCodecV1Response
          in (pir_from_result (map_ok (\<lambda>_. pir_accept False) res), m)
      | Panic \<Rightarrow> (Panic, m)
      | _ \<Rightarrow> (Ok (pir_ignore MalformedData), m))"

definition device_mux_packet_in :: "device_mux \<Rightarrow> bytes \<Rightarrow> packet_in_result thp_result \<times> device_mux" where
  "device_mux_packet_in m packet_buffer =
     (case control_byte_parse packet_buffer of
        Ok (cb, _) \<Rightarrow>
          if cb_is_codec_v1 cb then device_handle_v1 m packet_buffer
          else
            (case parse_channel_length cb packet_buffer of
               Ok (cid, len) \<Rightarrow>
                 if cid \<noteq> BROADCAST_CHANNEL_ID then (Ok (pir_route cid len), m)
                 else
                   let (res, m) = device_handle_broadcast m packet_buffer
                   in (pir_from_result (map_ok (\<lambda>is_allocation.
                         if is_allocation then pir_channel_allocation else pir_accept False) res), m)
             | Err _ \<Rightarrow> (Ok (pir_ignore MalformedData), m)
             | Panic \<Rightarrow> (Panic, m))
      | Err _ \<Rightarrow> (Ok (pir_ignore MalformedData), m)
      | Panic \<Rightarrow> (Panic, m))"

definition device_mux_packet_in_ready :: "device_mux \<Rightarrow> bool" where
  "device_mux_packet_in_ready m \<longleftrightarrow> length (dm_outgoing m) \<noteq> BROADCAST_OUTGOING_QUEUE_LEN"

definition device_mux_packet_out :: "device_mux \<Rightarrow> bytes \<Rightarrow> unit thp_result \<times> (device_mux \<times> bytes)" where
  "device_mux_packet_out m packet_buffer =
     (case dm_outgoing m of
        [] \<Rightarrow> (Err NotReady, (m, packet_buffer))
      | out # rest \<Rightarrow>
          let m = m\<lparr>dm_outgoing := rest\<rparr>; sb = sync_bits_new in
          (case out of
             OutError cid e \<Rightarrow>
               and_then_st (new_error cid, (m, packet_buffer)) (\<lambda>h (m, packet_buffer).
               let (res, packet_buffer) = fragmenter_single Device h sb [transport_error_to_u8 e] packet_buffer
               in (res, (m, packet_buffer)))
           | OutPong nonce \<Rightarrow>
               let (res, packet_buffer) = fragmenter_single Device new_pong sb (nonce_bytes nonce) packet_buffer
               in (res, (m, packet_buffer))
           | OutCodecV1Response \<Rightarrow>
               let n = length CODEC_V1_RESPONSE in
               if n \<le> length packet_buffer
               then (Ok (), (m, CODEC_V1_RESPONSE @ replicate (length packet_buffer - n) 0))
               else (Err InsufficientBuffer, (m, packet_buffer))))"

definition device_mux_packet_out_ready :: "device_mux \<Rightarrow> bool" where
  "device_mux_packet_out_ready m \<longleftrightarrow> dm_outgoing m \<noteq> []"

text \<open>The remaining methods of the trait do nothing; the buffers of the caller are not used.\<close>

definition device_mux_io :: "device_mux channel_io" where
  "device_mux_io =
     \<lparr>io_packet_in = (\<lambda>m packet buf. let (res, m) = device_mux_packet_in m packet in (res, (m, buf))),
      io_packet_in_ready = device_mux_packet_in_ready,
      io_packet_out = (\<lambda>m packet _. device_mux_packet_out m packet),
      io_packet_out_ready = device_mux_packet_out_ready,
      io_message_in = (\<lambda>m _ buf. (Ok (), (m, buf))), io_message_in_ready = (\<lambda>_. False),
      io_message_out = (\<lambda>m buf. (Ok (0, 0, []), (m, buf))), io_message_out_ready = (\<lambda>_. False),
      io_message_retransmit = (\<lambda>m. (Ok (), m)), io_channel_id = (\<lambda>_. BROADCAST_CHANNEL_ID)\<rparr>"

section \<open>Channel in the handshake phase\<close>

datatype device_handshake_state =
    SendingChannelResponse
  | StaticKeyRequired bool
  | SendingInitiationResponse
  | SendingCompletionResponse pairing_state
  | SendingDeviceLocked
  | DeviceFailed

record ('c, 'h) device_open =
  do_channel :: "'c channel"
  do_state :: device_handshake_state
  do_noise :: 'h
  do_send_buffer :: bytes
  do_receive_buffer :: bytes
  do_cred_verif :: credential_verifier

definition device_open_new ::
  "('c, 'h) backend \<Rightarrow> u16 \<Rightarrow> nonce \<Rightarrow> bytes \<Rightarrow> credential_verifier \<Rightarrow> ('c, 'h) device_open thp_result" where
  "device_open_new B cid nonce device_properties cred_verif =
     and_then (ok_or InsufficientBuffer (vec_extend HANDSHAKE_BUFFER_DTH_LEN [] (nonce_bytes nonce))) (\<lambda>send_buffer.
     and_then (ok_or InsufficientBuffer (vec_extend HANDSHAKE_BUFFER_DTH_LEN send_buffer (u16_to_be cid))) (\<lambda>send_buffer.
     and_then (ok_or InsufficientBuffer (vec_extend HANDSHAKE_BUFFER_DTH_LEN send_buffer device_properties)) (\<lambda>send_buffer.
     and_then (new_channel_response send_buffer) (\<lambda>h.
     let (res, ch) = raw_in (channel_new cid) h send_buffer in
     and_then res (\<lambda>_.
     Ok \<lparr>do_channel = ch, do_state = SendingChannelResponse, do_noise = prepare_responder B device_properties,
         do_send_buffer = send_buffer, do_receive_buffer = prepare_zeroed HANDSHAKE_BUFFER_HTD_LEN,
         do_cred_verif = cred_verif\<rparr>)))))"

definition device_channel_alloc ::
  "('c, 'h) backend \<Rightarrow> device_mux \<Rightarrow> u16 \<Rightarrow> credential_verifier
     \<Rightarrow> ('c, 'h) device_open thp_result \<times> device_mux" where
  "device_channel_alloc B m cid cred_verif =
     (if \<not> channel_id_valid cid \<or> cid = BROADCAST_CHANNEL_ID then (Err UnexpectedInput, m)
      else case dm_new_channel m of
        None \<Rightarrow> (Err NotReady, m)
      | Some nonce \<Rightarrow>
          (device_open_new B cid nonce (dm_device_properties m) cred_verif, m\<lparr>dm_new_channel := None\<rparr>))"

definition enable_ack_piggybacking_if_requested :: "sync_bits \<Rightarrow> ('c, 'h) device_open \<Rightarrow> ('c, 'h) device_open" where
  "enable_ack_piggybacking_if_requested sb d =
     (if ack_bit sb
      then d\<lparr>do_channel := (do_channel d)\<lparr>channel_sync_state := allow_ack_piggybacking (channel_sync_state (do_channel d))\<rparr>\<rparr>
      else d)"

text \<open>Submit the first bytes of the send buffer as a handshake message.\<close>

definition device_send_handshake ::
  "('c, 'h) device_open \<Rightarrow> handshake_message \<Rightarrow> unit thp_result \<times> ('c, 'h) device_open" where
  "device_send_handshake d phase =
     and_then_st (new_handshake (channel_id (do_channel d)) phase (do_send_buffer d), d) (\<lambda>h d.
     let (res, ch) = raw_in (do_channel d) h (do_send_buffer d) in (res, d\<lparr>do_channel := ch\<rparr>))"

definition send_initiation_response ::
  "('c, 'h) backend \<Rightarrow> ('c, 'h) device_open \<Rightarrow> bytes \<Rightarrow> bytes \<Rightarrow> unit thp_result \<times> ('c, 'h) device_open" where
  "send_initiation_response B d static_privkey ephemeral_privkey =
     (let d = d\<lparr>do_send_buffer := prepare_zeroed HANDSHAKE_BUFFER_DTH_LEN\<rparr>;
          (res, (hss, send_buffer)) =
            write_initiation_response B (do_noise d) static_privkey ephemeral_privkey (do_send_buffer d);
          d = d\<lparr>do_noise := hss, do_send_buffer := send_buffer\<rparr>
      in and_then_st (res, d) (\<lambda>len d.
         device_send_handshake (d\<lparr>do_send_buffer := take len (do_send_buffer d)\<rparr>) InitiationResponse))"

definition send_completion_response ::
  "('c, 'h) backend \<Rightarrow> ('c, 'h) device_open \<Rightarrow> pairing_state thp_result \<times> ('c, 'h) device_open" where
  "send_completion_response B d =
     (let d = d\<lparr>do_send_buffer := prepare_zeroed HANDSHAKE_BUFFER_DTH_LEN\<rparr>;
          (res, (hss, send_buffer)) =
            write_completion_response B (do_noise d) (do_receive_buffer d) (do_cred_verif d) (do_send_buffer d);
          d = d\<lparr>do_noise := hss, do_send_buffer := send_buffer\<rparr>
      in and_then_st (res, d) (\<lambda>(nc, ps, len) d.
         let d = d\<lparr>do_send_buffer := take len (do_send_buffer d),
                   do_channel := (do_channel d)\<lparr>channel_noise := Some nc\<rparr>\<rparr>
         in and_then_st (device_send_handshake d CompletionResponse) (\<lambda>_ d. (Ok ps, d))))"

definition device_handle_message ::
  "('c, 'h) backend \<Rightarrow> ('c, 'h) device_open \<Rightarrow> sync_bits \<Rightarrow> header \<Rightarrow> unit thp_result \<times> ('c, 'h) device_open" where
  "device_handle_message B d sb h =
     (case (do_state d, header_handshake_phase h) of
        (SendingChannelResponse, Some InitiationRequest) \<Rightarrow>
          let d = enable_ack_piggybacking_if_requested sb d;
              (res, hss) = read_initiation_request B (do_noise d) (do_receive_buffer d)
          in and_then_st (res, d\<lparr>do_noise := hss\<rparr>) (\<lambda>try_to_unlock d.
             (Ok (), d\<lparr>do_state := StaticKeyRequired try_to_unlock\<rparr>))
      | (SendingInitiationResponse, Some CompletionRequest) \<Rightarrow>
          and_then_st (send_completion_response B d) (\<lambda>ps d.
          (Ok (), d\<lparr>do_state := SendingCompletionResponse ps\<rparr>))
      | _ \<Rightarrow> (Err UnexpectedInput, d))"

definition device_incoming_internal ::
  "('c, 'h) backend \<Rightarrow> ('c, 'h) device_open \<Rightarrow> unit thp_result \<times> ('c, 'h) device_open" where
  "device_incoming_internal B d =
     (case receive_state (do_channel d) of
        Receiving x \<Rightarrow>
          let (res, ch) = raw_out (do_channel d) (do_receive_buffer d) in
          and_then_st (res, d\<lparr>do_channel := ch\<rparr>) (\<lambda>(h, len) d.
          and_then_st
            (device_handle_message B (d\<lparr>do_receive_buffer := take len (do_receive_buffer d)\<rparr>) (reas_sync_bits x) h)
            (\<lambda>_ d. (Ok (), d\<lparr>do_receive_buffer := prepare_zeroed HANDSHAKE_BUFFER_HTD_LEN\<rparr>)))
      | _ \<Rightarrow> (Err NotReady, d))"

definition device_handshake_done :: "('c, 'h) device_open \<Rightarrow> bool" where
  "device_handshake_done d \<longleftrightarrow>
     (case do_state d of SendingCompletionResponse _ \<Rightarrow> send_state (do_channel d) = SendIdle | _ \<Rightarrow> False)"

definition device_handshake_failed :: "('c, 'h) device_open \<Rightarrow> bool" where
  "device_handshake_failed d \<longleftrightarrow> do_state d = DeviceFailed \<or> is_failed (do_channel d)"

definition static_key_required :: "('c, 'h) device_open \<Rightarrow> bool" where
  "static_key_required d \<longleftrightarrow> (case do_state d of StaticKeyRequired _ \<Rightarrow> True | _ \<Rightarrow> False)"

definition device_complete :: "('c, 'h) device_open \<Rightarrow> 'c channel thp_result" where
  "device_complete d =
     (if channel_noise (do_channel d) = None then Err UnexpectedInput
      else if \<not> device_handshake_done d then Err NotReady
      else case do_state d of
        SendingCompletionResponse ps \<Rightarrow> Ok ((do_channel d)\<lparr>channel_phase := PairingCredential ps\<rparr>)
      | _ \<Rightarrow> Err UnexpectedInput)"

definition device_sending_retry :: "('c, 'h) device_open \<Rightarrow> u8 option" where
  "device_sending_retry d = sending_retry (do_channel d)"

definition send_device_locked :: "('c, 'h) device_open \<Rightarrow> unit thp_result \<times> ('c, 'h) device_open" where
  "send_device_locked d =
     (if \<not> static_key_required d then (Err NotReady, d)
      else (Ok (), d\<lparr>do_channel := send_error DeviceLocked (do_channel d), do_state := SendingDeviceLocked\<rparr>))"

definition set_static_key ::
  "('c, 'h) backend \<Rightarrow> ('c, 'h) device_open \<Rightarrow> bytes \<Rightarrow> bytes \<Rightarrow> unit thp_result \<times> ('c, 'h) device_open" where
  "set_static_key B d static_privkey ephemeral_privkey =
     (if \<not> static_key_required d then (Err NotReady, d)
      else case send_initiation_response B d static_privkey ephemeral_privkey of
        (Err e, d) \<Rightarrow> (Err e, d\<lparr>do_state := DeviceFailed\<rparr>)
      | (Ok _, d) \<Rightarrow> (Ok (), d\<lparr>do_state := SendingInitiationResponse\<rparr>)
      | (Panic, d) \<Rightarrow> (Panic, d))"

definition device_message_received ::
  "('c, 'h) backend \<Rightarrow> ('c, 'h) device_open \<Rightarrow> packet_in_result \<Rightarrow> packet_in_result thp_result \<times> ('c, 'h) device_open" where
  "device_message_received B d res =
     (case device_incoming_internal B d of
        (Err e, d) \<Rightarrow>
          if e = InvalidChecksum then (Ok (pir_ignore e), d)
          else (Ok (pir_fail e), d\<lparr>do_state := DeviceFailed\<rparr>)
      | (Ok _, d) \<Rightarrow>
          (case do_state d of
             StaticKeyRequired try_to_unlock \<Rightarrow> (Ok (HandshakeKeyRequired try_to_unlock), d)
           | _ \<Rightarrow> (Ok res, d))
      | (Panic, d) \<Rightarrow> (Panic, d))"

definition device_open_packet_in ::
  "('c, 'h) backend \<Rightarrow> ('c, 'h) device_open \<Rightarrow> bytes \<Rightarrow> packet_in_result thp_result \<times> ('c, 'h) device_open" where
  "device_open_packet_in B d packet_buffer =
     (let (res, (ch, receive_buffer)) = channel_packet_in Device (do_channel d) packet_buffer (do_receive_buffer d);
          d = d\<lparr>do_channel := ch, do_receive_buffer := receive_buffer\<rparr>
      in and_then_st (res, d) (\<lambda>res d.
         if (case res of Accepted _ _ _ (Some _) \<Rightarrow> True | _ \<Rightarrow> False)
         then (Ok (pir_ignore MalformedData), d\<lparr>do_channel := (do_channel d)\<lparr>receive_state := ReceiveIdle\<rparr>\<rparr>)
         else if got_message res then device_message_received B d res
         else (Ok res, d)))"

definition device_open_packet_out :: "('c, 'h) device_open \<Rightarrow> bytes \<Rightarrow> unit thp_result \<times> (('c, 'h) device_open \<times> bytes)" where
  "device_open_packet_out d packet_buffer =
     (let (res, (ch, packet_buffer)) = channel_packet_out Device (do_channel d) packet_buffer (do_send_buffer d)
      in (res, (d\<lparr>do_channel := ch\<rparr>, packet_buffer)))"

definition device_open_retransmit :: "('c, 'h) device_open \<Rightarrow> unit thp_result \<times> ('c, 'h) device_open" where
  "device_open_retransmit d =
     (let (res, ch) = channel_message_retransmit (do_channel d) in (res, d\<lparr>do_channel := ch\<rparr>))"

definition device_open_io :: "('c, 'h) backend \<Rightarrow> ('c, 'h) device_open channel_io" where
  "device_open_io B =
     \<lparr>io_packet_in = (\<lambda>d packet buf. let (res, d) = device_open_packet_in B d packet in (res, (d, buf))),
      io_packet_in_ready = (\<lambda>_. True),
      io_packet_out = (\<lambda>d packet _. device_open_packet_out d packet),
      io_packet_out_ready = (\<lambda>d. channel_packet_out_ready (do_channel d)),
      io_message_in = (\<lambda>d _ buf. (Ok (), (d, buf))),
      io_message_in_ready = (\<lambda>d. \<not> (device_handshake_done d \<or> device_handshake_failed d)),
      io_message_out = (\<lambda>d buf. (Ok (0, 0, []), (d, buf))),
      io_message_out_ready = (\<lambda>d. channel_message_out_ready (do_channel d)),
      io_message_retransmit = device_open_retransmit, io_channel_id = (\<lambda>d. channel_id (do_channel d))\<rparr>"

section \<open>Channel ids\<close>

record channel_id_allocator =
  next_channel_id :: u16

definition id_allocator_new_from :: "u16 \<Rightarrow> channel_id_allocator" where
  "id_allocator_new_from init_val = \<lparr>next_channel_id = init_val\<rparr>"

text \<open>The two bytes come from the random generator of the backend.\<close>

definition id_allocator_new_random :: "bytes \<Rightarrow> channel_id_allocator" where
  "id_allocator_new_random bs = id_allocator_new_from (u16_from_be bs)"

function id_allocator_loop :: "u16 \<Rightarrow> u16 \<times> u16" where
  "id_allocator_loop counter =
     (if MIN_CHANNEL_ID \<le> counter \<and> counter \<le> MAX_CHANNEL_ID then (counter, counter + 1)
      else id_allocator_loop (counter + 1))"
  by auto

text \<open>
  The counter skips the values that are no channel ids and wraps around; it comes closer to
  the smallest id with every step.
\<close>

termination id_allocator_loop
proof (relation "measure (\<lambda>counter. unat (MIN_CHANNEL_ID - counter))")
  fix counter :: u16
  assume "\<not> (MIN_CHANNEL_ID \<le> counter \<and> counter \<le> MAX_CHANNEL_ID)"
  then have "MIN_CHANNEL_ID - counter \<noteq> 0" by (auto simp: header_consts)
  then have "unat (MIN_CHANNEL_ID - counter - 1) < unat (MIN_CHANNEL_ID - counter)"
    by (simp add: unat_minus_one unat_gt_0)
  then show "(counter + 1, counter) \<in> measure (\<lambda>counter. unat (MIN_CHANNEL_ID - counter))"
    by (simp add: diff_diff_add)
qed simp

declare id_allocator_loop.simps [simp del]

definition id_allocator_get :: "channel_id_allocator \<Rightarrow> u16 \<times> channel_id_allocator" where
  "id_allocator_get a =
     (let (cid, counter) = id_allocator_loop (next_channel_id a) in (cid, a\<lparr>next_channel_id := counter\<rparr>))"

section \<open>Safety\<close>

lemma mux_enqueue_no_panic [simp]: "fst (mux_enqueue m out) \<noteq> Panic"
  by (simp add: mux_enqueue_def split: option.splits)

definition device_mux_wf :: "device_mux \<Rightarrow> bool" where
  "device_mux_wf m \<longleftrightarrow>
     length (dm_outgoing m) \<le> BROADCAST_OUTGOING_QUEUE_LEN
     \<and> (\<forall>n \<in> set_option (dm_new_channel m). length (nonce_bytes n) = unat NONCE_LEN)
     \<and> (\<forall>n. OutPong n \<in> set (dm_outgoing m) \<longrightarrow> length (nonce_bytes n) = unat NONCE_LEN)
     \<and> length (dm_device_properties m) \<le> MAX_DEVICE_PROPERTIES_LEN"

lemma device_mux_new_wf: "device_mux_new props = Ok m \<Longrightarrow> device_mux_wf m"
  by (auto simp: device_mux_new_def device_mux_wf_def vec_from_slice_Some and_then_eq_Ok)

lemma mux_enqueue_wf:
  assumes "device_mux_wf m" "\<And>n. out = OutPong n \<Longrightarrow> length (nonce_bytes n) = unat NONCE_LEN"
  shows "device_mux_wf (snd (mux_enqueue m out))"
  using assms by (auto simp: mux_enqueue_def device_mux_wf_def deque_push_back_Some split: option.splits)

lemma device_handle_broadcast_safe:
  assumes "device_mux_wf m" "parse_cb_channel packet = Ok (cb, c, tail)" "\<not> cb_is_codec_v1 cb"
  shows "safely device_mux_wf (device_handle_broadcast m packet)"
  using assms(1) reassembler_not_codec_no_panic(1) [OF assms(2,3), of Device]
    mux_enqueue_wf [OF assms(1), of "OutPong (Nonce b)" for b]
  by (auto simp: device_handle_broadcast_def case_prod_unfold Let_def map_ok_def and_then_eq_Panic nonce_parse_Ok
      device_mux_wf_def [of "_\<lparr>dm_new_channel := _\<rparr>"] device_mux_wf_def [of m]
      intro!: safely_and_then safely_pair)

lemma device_mux_packet_in_safe:
  assumes "device_mux_wf m"
  shows "safely device_mux_wf (device_mux_packet_in m packet)"
proof (cases "control_byte_parse packet")
  case (Ok p)
  then obtain cb rest where p: "control_byte_parse packet = Ok (cb, rest)" by (cases p) auto
  have pir: "pir_from_result res \<noteq> Panic" if "res \<noteq> Panic" for res using that by (cases res) auto
  show ?thesis
  proof (cases "cb_is_codec_v1 cb")
    case True
    then show ?thesis
      using p assms header_parse_no_panic [of Device packet] mux_enqueue_wf [OF assms, of OutCodecV1Response]
      by (auto simp: device_mux_packet_in_def device_handle_v1_def safely_def case_prod_unfold Let_def map_ok_def and_then_eq_Panic
          split: result.splits header.splits bool.splits intro!: pir)
  next
    case False
    then show ?thesis
      using p assms control_byte_parse_cb_channel [OF p] device_handle_broadcast_safe [OF assms, of packet cb]
      by (auto simp: device_mux_packet_in_def safely_def case_prod_unfold Let_def map_ok_def and_then_eq_Panic
          split: result.splits intro!: pir)
  qed
qed (use assms in \<open>simp_all add: device_mux_packet_in_def\<close>)

lemma device_mux_packet_out_safe:
  assumes "device_mux_wf m"
  shows "safely (\<lambda>(m', packet'). device_mux_wf m' \<and> length packet' = length packet) (device_mux_packet_out m packet)"
proof (cases "dm_outgoing m")
  case (Cons out rest)
  have wf: "device_mux_wf (m\<lparr>dm_outgoing := rest\<rparr>)"
    using assms Cons by (auto simp: device_mux_wf_def)
  then show ?thesis
    using Cons fragmenter_single_safe [of packet Device]
    by (cases out)
      (auto simp: device_mux_packet_out_def Let_def case_prod_unfold safely_def [of "\<lambda>p. length p = length packet"]
        intro!: safely_and_then safely_pair)
qed (use assms in \<open>simp add: device_mux_packet_out_def\<close>)

interpretation device_mux: channel_io_contract device_mux_io device_mux_wf
proof
  fix m packet and buf :: bytes
  assume "device_mux_wf m"
  then show "safely (\<lambda>(s', buf'). device_mux_wf s' \<and> length buf' = length buf) (io_packet_in device_mux_io m packet buf)"
    using device_mux_packet_in_safe [of m packet]
    by (simp add: device_mux_io_def safely_def case_prod_unfold Let_def)
qed (auto simp: device_mux_io_def device_mux_packet_out_safe)

subsection \<open>The handshake object\<close>

definition device_open_wf :: "('c, 'h) device_open \<Rightarrow> bool" where
  "device_open_wf d \<longleftrightarrow> channel_wf Device (do_channel d)"

lemma device_handshake_control_byte:
  "header_control_byte Device (Handshake InitiationResponse c l) sb \<noteq> None"
  "header_control_byte Device (Handshake CompletionResponse c l) sb \<noteq> None"
  "header_control_byte Device (ChannelAllocationResponse l) sb \<noteq> None"
  by (simp_all add: header_control_byte_def)

lemma device_send_handshake_safe:
  assumes "device_open_wf d" "phase = InitiationResponse \<or> phase = CompletionResponse"
  shows "safely device_open_wf (device_send_handshake d phase)"
proof -
  have "safely (channel_wf Device) (raw_in (do_channel d) h (do_send_buffer d))"
    if "new_handshake (channel_id (do_channel d)) phase (do_send_buffer d) = Ok h" for h
    using assms that new_header_wf(4) [OF that] device_handshake_control_byte
    by (intro raw_in_safe) (auto simp: device_open_wf_def new_header_Ok)
  then show ?thesis
    using assms(1)
    by (auto simp: device_send_handshake_def case_prod_unfold Let_def safely_def [of "channel_wf Device"] device_open_wf_def
        intro!: safely_and_then safely_pair)
qed

lemma send_initiation_response_safe:
  assumes "device_open_wf d" "backend_ok B"
  shows "safely device_open_wf (send_initiation_response B d static ephemeral)"
proof -
  let ?w = "write_initiation_response B (do_noise d) static ephemeral (prepare_zeroed HANDSHAKE_BUFFER_DTH_LEN)"
  have "fst ?w \<noteq> Panic" using write_initiation_response_safe [OF assms(2)] by (rule safelyD(1))
  then show ?thesis
    using assms(1)
    by (auto simp: send_initiation_response_def case_prod_unfold Let_def device_open_wf_def [of "_\<lparr>do_noise := _, do_send_buffer := _\<rparr>"]
        device_open_wf_def [of "d"] intro!: safely_and_then safely_pair device_send_handshake_safe)
qed

lemma send_completion_response_safe:
  assumes "device_open_wf d" "backend_ok B"
  shows "safely device_open_wf (send_completion_response B d)"
proof -
  let ?w = "write_completion_response B (do_noise d) (do_receive_buffer d) (do_cred_verif d)
    (prepare_zeroed HANDSHAKE_BUFFER_DTH_LEN)"
  have "fst ?w \<noteq> Panic" using write_completion_response_safe [OF assms(2)] by (rule safelyD(1))
  then show ?thesis
    using assms(1)
    by (auto simp: send_completion_response_def case_prod_unfold Let_def device_open_wf_def [of "_\<lparr>do_noise := _, do_send_buffer := _\<rparr>"]
        device_open_wf_def [of "_\<lparr>do_channel := _\<rparr>"] device_open_wf_def [of "d"]
        intro!: safely_and_then safely_pair device_send_handshake_safe)
qed

lemma device_handle_message_safe:
  assumes "device_open_wf d" "backend_ok B"
  shows "safely device_open_wf (device_handle_message B d sb h)"
proof -
  let ?d = "enable_ack_piggybacking_if_requested sb d"
  have piggy: "device_open_wf ?d"
    using assms(1) by (simp add: enable_ack_piggybacking_if_requested_def device_open_wf_def)
  then have req: "safely device_open_wf (let d = ?d;
              (res, hss) = read_initiation_request B (do_noise d) (do_receive_buffer d)
          in and_then_st (res, d\<lparr>do_noise := hss\<rparr>) (\<lambda>try_to_unlock d.
             (Ok (), d\<lparr>do_state := StaticKeyRequired try_to_unlock\<rparr>)))"
    using read_initiation_request_safe [OF assms(2)]
    by (auto simp: case_prod_unfold Let_def device_open_wf_def intro!: safely_and_then safely_pair)
  have comp: "safely device_open_wf (and_then_st (send_completion_response B d) (\<lambda>ps d.
          (Ok (), d\<lparr>do_state := SendingCompletionResponse ps\<rparr>)))"
    by (rule safely_and_then [OF send_completion_response_safe [OF assms]]) (simp add: device_open_wf_def)
  show ?thesis
    using req comp assms(1) unfolding device_handle_message_def
    by (auto split: device_handshake_state.split option.split handshake_message.split)
qed

lemma device_incoming_internal_safe:
  assumes "device_open_wf d" "backend_ok B"
  shows "safely device_open_wf (device_incoming_internal B d)"
proof -
  have "safely (channel_wf Device) (raw_out (do_channel d) (do_receive_buffer d))"
    using assms(1) by (simp add: raw_out_safe device_open_wf_def)
  then show ?thesis
    using assms
    by (auto simp: device_incoming_internal_def case_prod_unfold Let_def device_open_wf_def safely_def [of "channel_wf Device"]
        intro!: safely_and_then safely_pair device_handle_message_safe
        split: receive_state.splits)
qed

lemma device_message_received_safe:
  assumes "device_open_wf d" "backend_ok B"
  shows "safely device_open_wf (device_message_received B d res)"
  using device_incoming_internal_safe [OF assms]
  by (cases "device_incoming_internal B d"; cases "fst (device_incoming_internal B d)")
    (auto simp: device_message_received_def device_open_wf_def split: device_handshake_state.splits)

lemma device_open_packet_in_safe:
  assumes "device_open_wf d" "backend_ok B"
  shows "safely device_open_wf (device_open_packet_in B d packet)"
proof -
  obtain res ch' buf' where pin: "channel_packet_in Device (do_channel d) packet (do_receive_buffer d) = (Ok res, (ch', buf'))"
    and wf: "channel_wf Device ch'"
    using channel_packet_in_Ok [of Device "do_channel d" packet "do_receive_buffer d"] assms(1)
    by (metis device_open_wf_def)
  have idle: "channel_wf Device (ch'\<lparr>receive_state := ReceiveIdle\<rparr>)" if "res = Accepted a b c (Some n)" for a b c n
    using accepted_receiving [of Device "do_channel d" packet "do_receive_buffer d" a b c n ch' buf'] pin that wf channel_wf_idle
    by blast
  show ?thesis
    using pin wf idle device_message_received_safe [OF _ assms(2)]
    by (auto simp: device_open_packet_in_def device_open_wf_def split: packet_in_result.splits option.splits)
qed

interpretation device_open: channel_io_contract "device_open_io B" "\<lambda>d. backend_ok B \<and> device_open_wf d" for B
proof
  fix d :: "('a, 'b) device_open" and packet and buf :: bytes
  assume d: "backend_ok B \<and> device_open_wf d"
  show "safely (\<lambda>(s', buf'). (backend_ok B \<and> device_open_wf s') \<and> length buf' = length buf)
      (io_packet_in (device_open_io B) d packet buf)"
    using device_open_packet_in_safe [of d B packet] d
    by (simp add: device_open_io_def safely_def case_prod_unfold Let_def)
  show "safely (\<lambda>(s', packet'). (backend_ok B \<and> device_open_wf s') \<and> length packet' = length packet)
      (io_packet_out (device_open_io B) d packet buf)"
    using channel_packet_out_safe [of Device "do_channel d" packet "do_send_buffer d"] d
      channel_packet_out_length [of Device "do_channel d" packet "do_send_buffer d"]
    by (simp add: device_open_io_def device_open_packet_out_def device_open_wf_def safely_def case_prod_unfold Let_def)
  show "safely (\<lambda>s'. backend_ok B \<and> device_open_wf s') (io_message_retransmit (device_open_io B) d)"
    using channel_message_retransmit_wf [of Device "do_channel d"] d
    by (simp add: device_open_io_def device_open_retransmit_def device_open_wf_def safely_def case_prod_unfold Let_def)
qed (auto simp: device_open_io_def)

section \<open>Allocated ids\<close>

text \<open>The ids that an allocator hands out one after the other.\<close>

fun id_allocator_take :: "nat \<Rightarrow> channel_id_allocator \<Rightarrow> u16 list" where
  "id_allocator_take 0 a = []"
| "id_allocator_take (Suc n) a = (let (cid, a) = id_allocator_get a in cid # id_allocator_take n a)"

abbreviation allocatable :: "u16 \<Rightarrow> bool" where
  "allocatable c \<equiv> MIN_CHANNEL_ID \<le> c \<and> c \<le> MAX_CHANNEL_ID"

lemma allocatable_nat: "allocatable c \<longleftrightarrow> 1 \<le> unat c \<and> unat c \<le> 65519"
  by (simp add: header_consts word_le_nat_alt)

lemma id_allocator_loop_eq:
  "id_allocator_loop c = (if allocatable c then (c, c + 1) else (MIN_CHANNEL_ID, MIN_CHANNEL_ID + 1))"
proof (induction c rule: id_allocator_loop.induct)
  case (1 c)
  show ?case
  proof (cases "allocatable c \<or> allocatable (c + 1)")
    case True
    have "c + 1 = MIN_CHANNEL_ID" if "\<not> allocatable c" "allocatable (c + 1)"
    proof -
      have "unat c = 0 \<or> 65519 < unat c" "unat (c + 1) = (unat c + 1) mod 65536" "1 \<le> unat (c + 1)" "unat (c + 1) \<le> 65519"
        "unat c < 65536"
        using that unsigned_less [of c, where ?'a = nat] by (auto simp: allocatable_nat unat_word_ariths)
      then have "unat (c + 1) = 1" by (cases "unat c = 65535") auto
      then show ?thesis by (simp add: header_consts word_unat_eq_iff)
    qed
    with True show ?thesis by (subst id_allocator_loop.simps, subst id_allocator_loop.simps) (auto simp: add.commute)
  next
    case False
    then show ?thesis using 1 by (subst id_allocator_loop.simps) auto
  qed
qed

lemma id_allocator_get_eq:
  "id_allocator_get a = (let c = next_channel_id a; cid = if allocatable c then c else MIN_CHANNEL_ID
     in (cid, a\<lparr>next_channel_id := cid + 1\<rparr>))"
  by (simp add: id_allocator_get_def id_allocator_loop_eq Let_def)

text \<open>The values that the loop skips before it finds an id.\<close>

definition skipped :: "u16 \<Rightarrow> nat" where
  "skipped c = (if allocatable c then 0 else unat (MIN_CHANNEL_ID - c))"

lemma skipped_values:
  "skipped c \<le> 17 \<and> fst (id_allocator_loop c) = c + of_nat (skipped c) \<and> (\<forall>i < skipped c. \<not> allocatable (c + of_nat i))"
proof (cases "allocatable c")
  case False
  define k where "k = unat (MIN_CHANNEL_ID - c)"
  have c: "unat c < 65536" using unsigned_less [of c, where ?'a = nat] by simp
  have c': "unat c = 0 \<or> 65519 < unat c" using False by (auto simp: allocatable_nat)
  have k: "k = (1 + (65536 - unat c)) mod 65536"
    unfolding k_def by (simp add: header_consts unat_sub_if' word_le_nat_alt)
       (use c c' in auto)
  have "unat (c + of_nat i) = (unat c + i) mod 65536" for i
    by (simp add: unat_word_ariths unat_of_nat mod_simps)
  then have "\<not> allocatable (c + of_nat i)" if "i < k" for i
    using that k c c' unfolding allocatable_nat by (cases "unat c + i = 65536") auto
  moreover have "MIN_CHANNEL_ID = c + of_nat k" by (simp add: k_def)
  moreover have "k \<le> 17" using k c c' by auto
  ultimately show ?thesis using False unfolding skipped_def id_allocator_loop_eq k_def [symmetric] by auto
qed (simp add: skipped_def id_allocator_loop_eq)

lemma id_allocator_take_eq:
  "id_allocator_take n \<lparr>next_channel_id = of_nat (x mod 65519 + 1) + 1\<rparr> = map (\<lambda>i. of_nat ((x + 1 + i) mod 65519 + 1)) [0..<n]"
proof (induction n arbitrary: x)
  case (Suc n)
  define c where "c = (of_nat (x mod 65519 + 1) + 1 :: u16)"
  have c: "unat c = x mod 65519 + 2" by (simp add: c_def unat_word_ariths unat_of_nat)
  have "(if allocatable c then c else MIN_CHANNEL_ID) = of_nat ((x + 1) mod 65519 + 1)"
  proof (cases "x mod 65519 = 65518")
    case True
    then have "(x + 1) mod 65519 = 0" by (simp add: mod_Suc)
    then show ?thesis using c True by (simp add: allocatable_nat) (simp add: header_consts)
  next
    case False
    then have "(x + 1) mod 65519 = x mod 65519 + 1" by (simp add: mod_Suc)
    moreover have "allocatable c" using c False by (simp add: allocatable_nat) 
    ultimately show ?thesis by (simp add: c_def)
  qed
  then have "id_allocator_get \<lparr>next_channel_id = c\<rparr>
      = (of_nat ((x + 1) mod 65519 + 1), \<lparr>next_channel_id = of_nat ((x + 1) mod 65519 + 1) + 1\<rparr>)"
    by (simp add: id_allocator_get_eq Let_def)
  then have "id_allocator_take (Suc n) \<lparr>next_channel_id = c\<rparr> =
      of_nat ((x + 1) mod 65519 + 1) # map (\<lambda>i. of_nat ((x + 1 + 1 + i) mod 65519 + 1)) [0..<n]"
    using Suc.IH [of "x + 1"] by simp
  also have "\<dots> = map (\<lambda>i. of_nat ((x + 1 + i) mod 65519 + 1)) [0..<Suc n]"
    by (simp add: upt_conv_Cons map_Suc_upt [symmetric] del: upt_Suc)
  finally show ?case by (simp only: c_def)
qed simp

lemma id_allocator_take_start:
  "\<exists>x. id_allocator_take n a = id_allocator_take n \<lparr>next_channel_id = of_nat (x mod 65519 + 1) + 1\<rparr>"
proof -
  define c where "c = next_channel_id a"
  define x where "x = (if 2 \<le> unat c \<and> unat c \<le> 65519 then unat c - 2 else 65518)"
  define v where "v = (of_nat (x mod 65519 + 1) + 1 :: u16)"
  have v: "unat v = x mod 65519 + 2" by (simp add: v_def unat_word_ariths unat_of_nat)
  have "(if allocatable v then v else MIN_CHANNEL_ID) = (if allocatable c then c else MIN_CHANNEL_ID)"
  proof (cases "2 \<le> unat c \<and> unat c \<le> 65519")
    case True
    then have x: "x = unat c - 2" and "x < 65519" by (auto simp: x_def)
    then have "x mod 65519 = unat c - 2" by (metis mod_less)
    then have "unat v = unat c" using v True by linarith
    then show ?thesis by (simp add: word_unat_eq_iff [symmetric])
  next
    case False
    then have "x = 65518" unfolding x_def by argo
    then have "\<not> allocatable v" using v by (simp add: allocatable_nat)
    moreover have "c = MIN_CHANNEL_ID" if "allocatable c"
    proof -
      have "unat c = 1" using False that unfolding allocatable_nat by linarith
      then show ?thesis by (simp add: header_consts word_unat_eq_iff)
    qed
    ultimately show ?thesis by auto
  qed
  then have "id_allocator_get a = id_allocator_get \<lparr>next_channel_id = v\<rparr>"
    by (simp add: id_allocator_get_eq Let_def c_def)
  then have "id_allocator_take n a = id_allocator_take n \<lparr>next_channel_id = v\<rparr>"
    by (cases n) simp_all
  then show ?thesis by (auto simp: v_def)
qed

lemma mod_add_cancel_less:
  fixes i j k n :: nat
  assumes "(k + i) mod n = (k + j) mod n" "i < n" "j < n"
  shows "i = j"
proof -
  have "j = i" if "i \<le> j" "(k + j) mod n = (k + i) mod n" "j < n" for i j
    using that mod_eq_dvd_iff_nat [of "k + i" "k + j" n] by (auto dest: dvd_imp_le)
  then show ?thesis using assms by (cases "i \<le> j") (metis nat_le_linear)+
qed

lemma id_allocator_take_distinct:
  assumes "n \<le> 65519"
  shows "distinct (id_allocator_take n a)"
proof -
  obtain x where x: "id_allocator_take n a = map (\<lambda>i. of_nat ((x + 1 + i) mod 65519 + 1)) [0..<n]"
    using id_allocator_take_start [of n a] id_allocator_take_eq by metis
  have "i = j" if "i < 65519" "j < 65519" "(of_nat ((x + 1 + i) mod 65519 + 1) :: u16) = of_nat ((x + 1 + j) mod 65519 + 1)" for i j
  proof -
    have "(x + 1 + i) mod 65519 = (x + 1 + j) mod 65519"
      using arg_cong [OF that(3), of unat] by (simp add: unat_of_nat unat_word_ariths)
    then show ?thesis using mod_add_cancel_less that(1,2) by blast
  qed
  then show ?thesis unfolding x using assms by (auto simp: distinct_map inj_on_def)
qed

lemma unicast_valid_allocatable: "unicast_valid c = allocatable c"
  by (auto simp: unicast_valid_def channel_id_valid_def header_consts)

lemma id_allocator_get_valid: "unicast_valid (fst (id_allocator_get a))"
  unfolding unicast_valid_allocatable by (auto simp: id_allocator_get_eq Let_def header_consts)

text \<open>
  C29. The search for a channel id ends: at most 17 values are skipped, none of which is a
  channel id, before one is found, whatever the counter holds. As many ids as there are,
  handed out in a row, are all valid and pairwise different.
\<close>

theorem id_allocator_terminates:
  "(case id_allocator_get a of (cid, a') \<Rightarrow>
      unicast_valid cid \<and> (\<exists>k \<le> 17. cid = next_channel_id a + of_nat k
        \<and> (\<forall>i < k. \<not> unicast_valid (next_channel_id a + of_nat i))) \<and> next_channel_id a' = cid + 1)
   \<and> (n \<le> 65519 \<longrightarrow> distinct (id_allocator_take n a))"
proof -
  have "skipped (next_channel_id a) \<le> 17 \<and>
      fst (id_allocator_get a) = next_channel_id a + of_nat (skipped (next_channel_id a))
      \<and> (\<forall>i < skipped (next_channel_id a). \<not> unicast_valid (next_channel_id a + of_nat i))"
    using skipped_values [of "next_channel_id a"]
    by (simp add: id_allocator_get_def case_prod_unfold unicast_valid_allocatable)
  moreover have "next_channel_id (snd (id_allocator_get a)) = fst (id_allocator_get a) + 1"
    by (simp add: id_allocator_get_eq Let_def)
  ultimately show ?thesis
    using id_allocator_get_valid [of a] id_allocator_take_distinct [of n a] unfolding case_prod_unfold by blast
qed

theorem id_allocator_terminates_witness:
  "distinct (id_allocator_take 1000 (id_allocator_new_from 0xFFFA))"
  using id_allocator_terminates [of "id_allocator_new_from 0xFFFA" 1000] by simp

section \<open>Operations of the handshake object in any order\<close>

datatype device_op = DevIo io_op | DevSetStaticKey bytes bytes | DevSendLocked

fun device_exec :: "('c, 'h) backend \<Rightarrow> ('c, 'h) device_open \<Rightarrow> device_op \<Rightarrow> ('c, 'h) device_open option" where
  "device_exec B d (DevIo x) = io_exec (device_open_io B) d x"
| "device_exec B d (DevSetStaticKey static ephemeral) = settle (set_static_key B d static ephemeral)"
| "device_exec B d DevSendLocked = settle (send_device_locked d)"

fun device_exec_all :: "('c, 'h) backend \<Rightarrow> ('c, 'h) device_open \<Rightarrow> device_op list \<Rightarrow> ('c, 'h) device_open option" where
  "device_exec_all B d [] = Some d"
| "device_exec_all B d (x # xs) =
     (case device_exec B d x of None \<Rightarrow> None | Some d \<Rightarrow> device_exec_all B d xs)"

lemma set_static_key_safe:
  assumes "device_open_wf d" "backend_ok B"
  shows "safely device_open_wf (set_static_key B d static ephemeral)"
  using send_initiation_response_safe [OF assms, of static ephemeral] assms(1)
  by (cases "send_initiation_response B d static ephemeral"; cases "fst (send_initiation_response B d static ephemeral)")
    (auto simp: set_static_key_def device_open_wf_def)

lemma device_exec_safe:
  assumes "device_open_wf d" "backend_ok B"
  shows "\<exists>d'. device_exec B d x = Some d' \<and> device_open_wf d'"
proof (cases x)
  case (DevIo y)
  then show ?thesis using device_open.exec_safe [of B d y] assms by simp
next
  case (DevSetStaticKey s e)
  then show ?thesis using settle_safely [OF set_static_key_safe [OF assms]] by simp
next
  case DevSendLocked
  then show ?thesis using assms(1) by (simp add: send_device_locked_def settle_def device_open_wf_def)
qed

lemma device_exec_all_safe:
  "device_open_wf d \<Longrightarrow> backend_ok B \<Longrightarrow> \<exists>d'. device_exec_all B d xs = Some d' \<and> device_open_wf d'"
proof (induction xs arbitrary: d)
  case (Cons x xs)
  then obtain d1 where "device_exec B d x = Some d1" "device_open_wf d1" using device_exec_safe by blast
  then show ?case using Cons by simp
qed simp

lemma device_channel_alloc_Ok:
  fixes B :: "('c, 'h) backend"
  assumes "device_mux_wf m" "dm_new_channel m = Some nonce" "unicast_valid cid"
  obtains d where "device_channel_alloc B m cid verify = (Ok d, m\<lparr>dm_new_channel := None\<rparr>)"
    "device_open_wf d" "do_state d = SendingChannelResponse" "do_cred_verif d = verify"
    "do_send_buffer d = nonce_bytes nonce @ u16_to_be cid @ dm_device_properties m"
proof -
  let ?buf = "nonce_bytes nonce @ u16_to_be cid @ dm_device_properties m"
  have len: "length (nonce_bytes nonce) = 8" "length (dm_device_properties m) \<le> 64"
    using assms(1,2) by (auto simp: device_mux_wf_def header_consts noise_consts)
  have cap: "74 \<le> HANDSHAKE_BUFFER_DTH_LEN"
    by (simp add: HANDSHAKE_BUFFER_DTH_LEN_def max_usize_def MAX_ALLOC_RESPONSE_LEN_def noise_consts header_consts CHECKSUM_LEN_def)
  obtain l where l: "validate_len ?buf = Ok l" "unat l = length ?buf + 4"
    using len validate_len_Ok [of ?buf] validate_len_wf [of ?buf] by (auto simp: unat_of_nat)
  define h where "h = ChannelAllocationResponse l"
  have h: "new_channel_response ?buf = Ok h" using l by (simp add: new_header_Ok h_def)
  obtain sb f where raw: "send_start channel_sync_new = Some sb" "fragmenter_new h sb ?buf = Ok f"
    using l by (auto simp: send_start_def channel_sync_new_def Let_def fragmenter_new_def h_def CHECKSUM_LEN_def)
  then have in_: "raw_in (channel_new cid :: 'c channel) h ?buf = (Ok (), (channel_new cid)\<lparr>send_state := Sending f 0\<rparr>)"
    by (simp add: raw_in_def raw_in_ext_def channel_new_def channel_sync_new_def is_ack_piggybacking_allowed_def)
  have "channel_wf Device (channel_new cid :: 'c channel)" using assms(3) by simp
  then have "channel_wf Device ((channel_new cid :: 'c channel)\<lparr>send_state := Sending f 0\<rparr>)"
    using raw_in_safe [of Device "channel_new cid :: 'c channel" h ?buf] new_header_wf(5) [OF h] device_handshake_control_byte(3) in_
    by (simp add: h_def safely_def)
  then show thesis
    using that assms h in_ len cap
    by (simp add: device_channel_alloc_def unicast_valid_def device_open_new_def vec_extend_def device_open_wf_def)
qed

section \<open>The verdict on the credential\<close>

lemma write_completion_response_verdict:
  assumes "write_completion_response B hss incoming verify dest = (Ok (nc, ps, len), st)"
  shows "\<exists>cred. ps = verify (nc_remote_static_pubkey nc) cred"
  using assms
  by (auto simp: write_completion_response_def Let_def case_prod_unfold and_then_st_eq_Ok noise_encrypt_def split: if_splits)

definition device_verdict :: "credential_verifier \<Rightarrow> ('c, 'h) device_open \<Rightarrow> bool" where
  "device_verdict verify d \<longleftrightarrow>
     do_cred_verif d = verify
     \<and> (\<forall>ps. do_state d = SendingCompletionResponse ps \<longrightarrow>
          (\<exists>nc cred. channel_noise (do_channel d) = Some nc \<and> ps = verify (nc_remote_static_pubkey nc) cred))"

lemma device_send_handshake_noise [simp]:
  "channel_noise (do_channel (snd (device_send_handshake d phase))) = channel_noise (do_channel d)
   \<and> do_state (snd (device_send_handshake d phase)) = do_state d
   \<and> do_cred_verif (snd (device_send_handshake d phase)) = do_cred_verif d"
  unfolding device_send_handshake_def
  by (rule and_then_st_state [where P = "\<lambda>s. channel_noise (do_channel s) = channel_noise (do_channel d)
      \<and> do_state s = do_state d \<and> do_cred_verif s = do_cred_verif d"])
    (auto simp: case_prod_unfold Let_def)

lemma send_initiation_response_verdict:
  "do_state (snd (send_initiation_response B d s e)) = do_state d
   \<and> do_cred_verif (snd (send_initiation_response B d s e)) = do_cred_verif d"
  unfolding send_initiation_response_def Let_def case_prod_unfold
  by (rule and_then_st_state [where P = "\<lambda>s. do_state s = do_state d \<and> do_cred_verif s = do_cred_verif d"])
    auto

lemma send_completion_response_verdict:
  "do_state (snd (send_completion_response B d)) = do_state d
   \<and> do_cred_verif (snd (send_completion_response B d)) = do_cred_verif d
   \<and> (\<forall>ps. fst (send_completion_response B d) = Ok ps \<longrightarrow>
        (\<exists>nc cred. channel_noise (do_channel (snd (send_completion_response B d))) = Some nc
          \<and> ps = do_cred_verif d (nc_remote_static_pubkey nc) cred))"
proof -
  obtain res hss buf where w: "write_completion_response B (do_noise d) (do_receive_buffer d) (do_cred_verif d)
      (prepare_zeroed HANDSHAKE_BUFFER_DTH_LEN) = (res, (hss, buf))" by (metis prod.exhaust)
  show ?thesis
  proof (cases res)
    case (Ok x)
    obtain nc ps len where x: "x = (nc, ps, len)" by (cases x)
    let ?d = "d\<lparr>do_noise := hss, do_send_buffer := take len buf, do_channel := (do_channel d)\<lparr>channel_noise := Some nc\<rparr>\<rparr>"
    have "send_completion_response B d = and_then_st (device_send_handshake ?d CompletionResponse) (\<lambda>_ d. (Ok ps, d))"
      using w Ok x by (simp add: send_completion_response_def)
    then show ?thesis
      using write_completion_response_verdict [of B "do_noise d" "do_receive_buffer d" "do_cred_verif d"] w Ok x
        device_send_handshake_noise [of ?d CompletionResponse]
      by (cases "device_send_handshake ?d CompletionResponse"; cases "fst (device_send_handshake ?d CompletionResponse)") auto
  qed (use w in \<open>simp_all add: send_completion_response_def\<close>)
qed

lemma device_handle_message_verdict:
  assumes "device_verdict verify d"
  shows "device_verdict verify (snd (device_handle_message B d sb h))"
proof -
  have "device_verdict verify (snd (and_then_st (send_completion_response B d) (\<lambda>ps d.
          (Ok (), d\<lparr>do_state := SendingCompletionResponse ps\<rparr>))))" if "do_state d = SendingInitiationResponse"
    using that assms send_completion_response_verdict [of B d]
    by (cases "send_completion_response B d"; cases "fst (send_completion_response B d)")
      (auto simp: device_verdict_def)
  moreover have "device_verdict verify (snd (let d = enable_ack_piggybacking_if_requested sb d;
              (res, hss) = read_initiation_request B (do_noise d) (do_receive_buffer d)
          in and_then_st (res, d\<lparr>do_noise := hss\<rparr>) (\<lambda>try_to_unlock d.
             (Ok (), d\<lparr>do_state := StaticKeyRequired try_to_unlock\<rparr>))))"
    unfolding Let_def case_prod_unfold
    by (rule and_then_st_state [where P = "device_verdict verify"])
      (use assms in \<open>auto simp: device_verdict_def enable_ack_piggybacking_if_requested_def\<close>)
  ultimately show ?thesis
    using assms unfolding device_handle_message_def
    by (auto split: device_handshake_state.split option.split handshake_message.split)
qed

lemma device_incoming_internal_verdict:
  assumes "device_verdict verify d"
  shows "device_verdict verify (snd (device_incoming_internal B d))"
proof (cases "receive_state (do_channel d)")
  case (Receiving x)
  note st = and_then_st_state [where P = "device_verdict verify"]
  have keep: "device_verdict verify (d\<lparr>do_channel := snd (raw_out (do_channel d) buf)\<rparr>)" for buf
    using assms by (simp add: device_verdict_def)
  have upd: "device_verdict verify (d'\<lparr>do_receive_buffer := b\<rparr>) = device_verdict verify d'" for d' :: "('a, 'b) device_open" and b
    by (simp add: device_verdict_def)
  show ?thesis
    using Receiving keep
    by (auto simp: device_incoming_internal_def Let_def case_prod_unfold upd
        intro!: st device_handle_message_verdict)
qed (use assms in \<open>simp_all add: device_incoming_internal_def\<close>)

lemma device_message_received_verdict:
  assumes "device_verdict verify d"
  shows "device_verdict verify (snd (device_message_received B d res))"
  using device_incoming_internal_verdict [OF assms, of B]
  by (cases "device_incoming_internal B d"; cases "fst (device_incoming_internal B d)")
    (auto simp: device_message_received_def device_verdict_def split: device_handshake_state.splits)

lemma device_open_packet_in_verdict:
  assumes "device_verdict verify d"
  shows "device_verdict verify (snd (device_open_packet_in B d packet))"
proof -
  have keep: "device_verdict verify (d\<lparr>do_channel := ch, do_receive_buffer := b\<rparr>)"
    if "channel_noise ch = channel_noise (do_channel d)" for ch b
    using assms that by (simp add: device_verdict_def)
  have idle: "device_verdict verify (d\<lparr>do_receive_buffer := b, do_channel := ch\<rparr>)"
    if "channel_noise ch = channel_noise (do_channel d)" for ch b
    using assms that by (simp add: device_verdict_def)
  show ?thesis
    unfolding device_open_packet_in_def Let_def case_prod_unfold
    by (intro and_then_st_state [where P = "device_verdict verify"])
      (auto intro: device_message_received_verdict keep idle)
qed

lemma device_exec_verdict:
  assumes "device_verdict verify d" "device_exec B d x = Some d'"
  shows "device_verdict verify d'"
proof (cases x)
  case (DevIo y)
  show ?thesis
    using assms DevIo device_open_packet_in_verdict [OF assms(1), of B]
    by (cases y) (auto simp: device_open_io_def settle_def case_prod_unfold Let_def device_open_packet_out_def
        device_open_retransmit_def io_message_in_from_def message_in_from_def device_verdict_def split: result.splits if_splits)
next
  case (DevSetStaticKey s e)
  then show ?thesis
    using assms send_initiation_response_verdict [of B d s e]
    by (cases "send_initiation_response B d s e"; cases "fst (send_initiation_response B d s e)")
      (auto simp: settle_def set_static_key_def device_verdict_def split: if_splits)
next
  case DevSendLocked
  then show ?thesis using assms by (auto simp: settle_def send_device_locked_def device_verdict_def split: if_splits)
qed

lemma device_exec_all_verdict:
  "device_verdict verify d \<Longrightarrow> device_exec_all B d xs = Some d' \<Longrightarrow> device_verdict verify d'"
proof (induction xs arbitrary: d)
  case (Cons x xs)
  then show ?case by (auto split: option.splits dest: device_exec_verdict)
qed simp

section \<open>Properties\<close>

text \<open>
  C21. Once the multiplexer has a request for a channel, a channel can be opened for any valid
  id, and no sequence of packets, keys and other calls makes the handshake panic.
\<close>

theorem device_handshake_never_panics:
  assumes "device_mux_wf m" "dm_new_channel m = Some nonce" "unicast_valid cid" "backend_ok B"
  shows "\<exists>d. device_channel_alloc B m cid verify = (Ok d, m\<lparr>dm_new_channel := None\<rparr>)
    \<and> do_send_buffer d = nonce_bytes nonce @ u16_to_be cid @ dm_device_properties m
    \<and> (\<exists>d'. device_exec_all B d xs = Some d' \<and> channel_wf Device (do_channel d'))"
  by (rule device_channel_alloc_Ok [OF assms(1-3), of B verify])
    (use device_exec_all_safe [OF _ assms(4)] in \<open>auto simp: device_open_wf_def\<close>)

definition demo_device_mux :: device_mux where
  "demo_device_mux = \<lparr>dm_outgoing = [], dm_new_channel = Some (Nonce [1, 2, 3, 4, 5, 6, 7, 8]), dm_device_properties = [9, 9]\<rparr>"

lemma demo_device_mux_wf: "device_mux_wf demo_device_mux"
  by (simp add: demo_device_mux_def device_mux_wf_def header_consts BROADCAST_OUTGOING_QUEUE_LEN_def noise_consts)

theorem device_handshake_never_panics_witness:
  "\<exists>d. device_channel_alloc plain_backend demo_device_mux 0x1234 (\<lambda>_ _. Unpaired) =
        (Ok d, demo_device_mux\<lparr>dm_new_channel := None\<rparr>)
    \<and> (\<exists>d'. device_exec_all plain_backend d [DevIo (IoPacketIn [1, 2, 3] []), DevSendLocked, DevIo IoRetransmit] = Some d')"
  using device_handshake_never_panics [OF demo_device_mux_wf _ _ plain_backend_ok,
      where nonce = "Nonce [1, 2, 3, 4, 5, 6, 7, 8]" and cid = "0x1234" and verify = "\<lambda>_ _. Unpaired"
        and xs = "[DevIo (IoPacketIn [1, 2, 3] []), DevSendLocked, DevIo IoRetransmit]"]
  by (auto simp: demo_device_mux_def unicast_valid_def channel_id_valid_def header_consts)

text \<open>The methods of the multiplexer in any order.\<close>

datatype mux_op = MuxIo io_op | MuxReset | MuxBusy u16 | MuxUnallocated u16 | MuxAlloc u16

fun mux_exec :: "('c, 'h) backend \<Rightarrow> credential_verifier \<Rightarrow> device_mux \<Rightarrow> mux_op \<Rightarrow> device_mux option" where
  "mux_exec B verify m (MuxIo x) = io_exec device_mux_io m x"
| "mux_exec B verify m MuxReset = Some (device_mux_reset m)"
| "mux_exec B verify m (MuxBusy cid) = settle (send_transport_busy m cid)"
| "mux_exec B verify m (MuxUnallocated cid) = settle (send_unallocated_channel m cid)"
| "mux_exec B verify m (MuxAlloc cid) = settle (device_channel_alloc B m cid verify)"

fun mux_exec_all :: "('c, 'h) backend \<Rightarrow> credential_verifier \<Rightarrow> device_mux \<Rightarrow> mux_op list \<Rightarrow> device_mux option" where
  "mux_exec_all B verify m [] = Some m"
| "mux_exec_all B verify m (x # xs) =
     (case mux_exec B verify m x of None \<Rightarrow> None | Some m \<Rightarrow> mux_exec_all B verify m xs)"

lemma device_channel_alloc_wf:
  assumes "device_mux_wf m"
  shows "safely device_mux_wf (device_channel_alloc B m cid verify)"
proof (cases "unicast_valid cid \<and> dm_new_channel m \<noteq> None")
  case True
  then obtain nonce where "unicast_valid cid" "dm_new_channel m = Some nonce" by auto
  then obtain d where "device_channel_alloc B m cid verify = (Ok d, m\<lparr>dm_new_channel := None\<rparr>)"
    using device_channel_alloc_Ok [OF assms] by metis
  then show ?thesis using assms by (simp add: device_mux_wf_def)
qed (use assms in \<open>auto simp: device_channel_alloc_def unicast_valid_def\<close>)

lemma mux_exec_safe:
  assumes "device_mux_wf m"
  shows "\<exists>m'. mux_exec B verify m x = Some m' \<and> device_mux_wf m'"
proof (cases x)
  case (MuxIo y)
  then show ?thesis using device_mux.exec_safe [OF assms] by simp
next
  case (MuxAlloc cid)
  then show ?thesis using settle_safely [OF device_channel_alloc_wf [OF assms]] by simp
next
  case (MuxBusy cid)
  then show ?thesis
    using mux_enqueue_wf [OF assms, of "OutError cid TransportBusy"]
    by (simp add: send_transport_busy_def settle_def split: result.split)
next
  case (MuxUnallocated cid)
  then show ?thesis
    using mux_enqueue_wf [OF assms, of "OutError cid UnallocatedChannel"]
    by (simp add: send_unallocated_channel_def settle_def split: result.split)
qed (use assms in \<open>simp add: device_mux_reset_def device_mux_wf_def\<close>)

lemma mux_exec_all_safe:
  "device_mux_wf m \<Longrightarrow> \<exists>m'. mux_exec_all B verify m xs = Some m' \<and> device_mux_wf m'"
proof (induction xs arbitrary: m)
  case (Cons x xs)
  then obtain m1 where "mux_exec B verify m x = Some m1" "device_mux_wf m1" using mux_exec_safe by blast
  then show ?case using Cons.IH by simp
qed simp

text \<open>
  C22. The multiplexer of the device stays well-typed: whatever packets arrive and whatever
  the application calls, no method panics, the queue of outgoing messages never exceeds its
  capacity of eight, and every stored nonce has eight bytes.
\<close>
theorem device_mux_stays_typed:
  assumes "device_mux_new props = Ok m"
  shows "\<exists>m'. mux_exec_all B verify m xs = Some m' \<and> length (dm_outgoing m') \<le> 8
    \<and> (\<forall>nonce. dm_new_channel m' = Some nonce \<or> OutPong nonce \<in> set (dm_outgoing m') \<longrightarrow> length (nonce_bytes nonce) = 8)"
  using mux_exec_all_safe [OF device_mux_new_wf [OF assms], of B verify xs]
  by (fastforce simp: device_mux_wf_def BROADCAST_OUTGOING_QUEUE_LEN_def header_consts)

theorem device_mux_stays_typed_witness:
  "\<exists>m m'. device_mux_new [9, 9] = Ok m \<and> mux_exec_all plain_backend (\<lambda>_ _. Unpaired) m
      [MuxBusy 0x1234, MuxIo (IoPacketIn [0x3F, 0x23, 0x23, 0, 0] []), MuxAlloc 0x1234, MuxReset] = Some m'
    \<and> length (dm_outgoing m') \<le> 8"
proof -
  have m: "device_mux_new [9, 9] = Ok \<lparr>dm_outgoing = [], dm_new_channel = None, dm_device_properties = [9, 9]\<rparr>"
    by (simp add: device_mux_new_def vec_from_slice_def vec_extend_def noise_consts)
  show ?thesis using device_mux_stays_typed [OF m] m by blast
qed

end
