(* ===== verification/Thp_Host.thy ===== *)
theory Thp_Host
  imports Thp_Channel_IO
begin

text \<open>
  The host's side of opening channels, \<open>channel/host.rs\<close>: the multiplexer \<open>Mux\<close> that requests
  channels and keeps the connection alive, and the channel in the handshake phase
  \<open>ChannelOpen\<close>. The random generator of the backend is a parameter, and its state travels
  with the object that draws from it.
\<close>

section \<open>Randomness\<close>

record 'r generator =
  random_bytes :: "'r \<Rightarrow> nat \<Rightarrow> bytes \<times> 'r"
  dh_genkey :: "'r \<Rightarrow> bytes \<times> 'r"

text \<open>The destination is filled entirely, and a key has the size of a private key.\<close>

definition generator_ok :: "'r generator \<Rightarrow> bool" where
  "generator_ok G \<longleftrightarrow> (\<forall>s n. length (fst (random_bytes G s n)) = n)
     \<and> (\<forall>s. length (fst (dh_genkey G s)) = PRIVKEY_LEN)"

definition nonce_random :: "'r generator \<Rightarrow> 'r \<Rightarrow> nonce \<times> 'r" where
  "nonce_random G s = (let (bs, s) = random_bytes G s (unat NONCE_LEN) in (Nonce bs, s))"

section \<open>Multiplexer\<close>

datatype allocation_state =
    AllocNone
  | SendingRequest bool
  | SentRequest bool nonce
  | ReceivingResponse bool nonce reassembler
  | ReceivedId bool u16

datatype ping_state = PingNone | SendingPing | AwaitingPong nonce

record 'r host_mux =
  hm_internal_buffer :: bytes
  hm_channel_allocation :: allocation_state
  hm_ping :: ping_state
  hm_random :: 'r

definition host_mux_new :: "'r \<Rightarrow> 'r host_mux" where
  "host_mux_new s =
     \<lparr>hm_internal_buffer = prepare_zeroed MAX_ALLOC_RESPONSE_LEN, hm_channel_allocation = AllocNone,
      hm_ping = PingNone, hm_random = s\<rparr>"

definition host_mux_reset :: "'r host_mux \<Rightarrow> 'r host_mux" where
  "host_mux_reset m = host_mux_new (hm_random m)"

definition host_mux_ping :: "'r host_mux \<Rightarrow> 'r host_mux" where
  "host_mux_ping m = m\<lparr>hm_ping := SendingPing\<rparr>"

definition request_channel :: "bool \<Rightarrow> 'r host_mux \<Rightarrow> 'r host_mux" where
  "request_channel try_to_unlock m = m\<lparr>hm_channel_allocation := SendingRequest try_to_unlock\<rparr>"

definition host_channel_alloc_ready :: "'r host_mux \<Rightarrow> bool" where
  "host_channel_alloc_ready m \<longleftrightarrow> (case hm_channel_allocation m of ReceivedId _ _ \<Rightarrow> True | _ \<Rightarrow> False)"

definition handle_allocation_response :: "'r host_mux \<Rightarrow> packet_in_result thp_result \<times> 'r host_mux" where
  "handle_allocation_response m =
     (case hm_channel_allocation m of
        ReceivingResponse try_to_unlock nonce x \<Rightarrow>
          if \<not> reassembler_is_done x then (Ok (pir_accept False), m)
          else
            and_then_st (reassembler_verify x (hm_internal_buffer m), m) (\<lambda>len m.
            and_then_st (slice_to len (hm_internal_buffer m), m) (\<lambda>payload m.
            and_then_st (nonce_parse payload, m) (\<lambda>(received_nonce, payload) m.
            if received_nonce \<noteq> nonce then (Ok (pir_accept False), m)
            else
              and_then_st (parse_u16 payload, m) (\<lambda>(cid, device_properties) m.
              and_then_st (copy_within (unat NONCE_LEN + 2) len 0 (hm_internal_buffer m), m) (\<lambda>buffer m.
              (Ok pir_channel_allocation,
               m\<lparr>hm_internal_buffer := take (length device_properties) buffer,
                 hm_channel_allocation := ReceivedId try_to_unlock cid\<rparr>))))))
      | _ \<Rightarrow> (Ok (pir_accept False), m))"

definition pending_request :: "allocation_state \<Rightarrow> (bool \<times> nonce) option" where
  "pending_request a =
     (case a of
        SentRequest try_to_unlock nonce \<Rightarrow> Some (try_to_unlock, nonce)
      | ReceivingResponse try_to_unlock nonce _ \<Rightarrow> Some (try_to_unlock, nonce)
      | _ \<Rightarrow> None)"

definition handle_pong :: "'r host_mux \<Rightarrow> bytes \<Rightarrow> packet_in_result thp_result \<times> 'r host_mux" where
  "handle_pong m packet =
     and_then_st (reassembler_single Host packet, m) (\<lambda>(_, payload) m.
     and_then_st (nonce_parse payload, m) (\<lambda>(nonce, _) m.
     if AwaitingPong nonce \<noteq> hm_ping m then (Err MalformedData, m)
     else (Ok pir_pong, m\<lparr>hm_ping := PingNone\<rparr>)))"

definition host_handle_broadcast :: "'r host_mux \<Rightarrow> bytes \<Rightarrow> packet_in_result thp_result \<times> 'r host_mux" where
  "host_handle_broadcast m packet =
     and_then_st (header_parse Host packet, m) (\<lambda>(h, _) m.
     case h of
       Pong \<Rightarrow> handle_pong m packet
     | ChannelAllocationResponse _ \<Rightarrow>
         and_then_st (ok_or MalformedData (pending_request (hm_channel_allocation m)), m) (\<lambda>(try_to_unlock, nonce) m.
         let buffer = replicate (length (hm_internal_buffer m)) 0;
             (res, buffer) = reassembler_new Host packet buffer
         in and_then_st (res, m\<lparr>hm_internal_buffer := buffer\<rparr>) (\<lambda>x m.
            handle_allocation_response (m\<lparr>hm_channel_allocation := ReceivingResponse try_to_unlock nonce x\<rparr>)))
     | Continuation cid \<Rightarrow>
         if cid = BROADCAST_CHANNEL_ID then
           (case hm_channel_allocation m of
              ReceivingResponse try_to_unlock nonce x \<Rightarrow>
                let (res, (x, buffer)) = reassembler_update Host x packet (hm_internal_buffer m)
                in and_then_st
                     (res, m\<lparr>hm_internal_buffer := buffer,
                             hm_channel_allocation := ReceivingResponse try_to_unlock nonce x\<rparr>)
                     (\<lambda>_ m. handle_allocation_response m)
            | _ \<Rightarrow> (Err MalformedData, m))
         else (Err MalformedData, m)
     | _ \<Rightarrow> (Err MalformedData, m))"

definition host_mux_packet_in :: "'r host_mux \<Rightarrow> bytes \<Rightarrow> packet_in_result thp_result \<times> 'r host_mux" where
  "host_mux_packet_in m packet_buffer =
     (case control_byte_parse packet_buffer of
        Ok (cb, _) \<Rightarrow>
          if cb_is_codec_v1 cb then (Ok (pir_ignore MalformedData), m)
          else
            (case parse_channel_length cb packet_buffer of
               Ok (cid, len) \<Rightarrow>
                 if cid \<noteq> BROADCAST_CHANNEL_ID then (Ok (pir_route cid len), m)
                 else let (res, m) = host_handle_broadcast m packet_buffer in (pir_from_result res, m)
             | Err _ \<Rightarrow> (Ok (pir_ignore MalformedData), m)
             | Panic \<Rightarrow> (Panic, m))
      | Err _ \<Rightarrow> (Ok (pir_ignore MalformedData), m)
      | Panic \<Rightarrow> (Panic, m))"

definition host_mux_packet_out ::
  "'r generator \<Rightarrow> 'r host_mux \<Rightarrow> bytes \<Rightarrow> unit thp_result \<times> ('r host_mux \<times> bytes)" where
  "host_mux_packet_out G m packet_buffer =
     (case hm_channel_allocation m of
        SendingRequest try_to_unlock \<Rightarrow>
          let (nonce, s) = nonce_random G (hm_random m);
              (res, packet_buffer) =
                fragmenter_single Host new_channel_request sync_bits_new (nonce_bytes nonce) packet_buffer
          in and_then_st (res, (m\<lparr>hm_random := s\<rparr>, packet_buffer)) (\<lambda>_ (m, packet_buffer).
             (Ok (), (m\<lparr>hm_channel_allocation := SentRequest try_to_unlock nonce\<rparr>, packet_buffer)))
      | _ \<Rightarrow>
          if hm_ping m = SendingPing then
            let (nonce, s) = nonce_random G (hm_random m);
                (res, packet_buffer) =
                  fragmenter_single Host new_ping sync_bits_new (nonce_bytes nonce) packet_buffer
            in and_then_st (res, (m\<lparr>hm_random := s\<rparr>, packet_buffer)) (\<lambda>_ (m, packet_buffer).
               (Ok (), (m\<lparr>hm_ping := AwaitingPong nonce\<rparr>, packet_buffer)))
          else (Err NotReady, (m, packet_buffer)))"

definition host_mux_packet_out_ready :: "'r host_mux \<Rightarrow> bool" where
  "host_mux_packet_out_ready m \<longleftrightarrow>
     hm_ping m = SendingPing \<or> (case hm_channel_allocation m of SendingRequest _ \<Rightarrow> True | _ \<Rightarrow> False)"

definition host_mux_io :: "'r generator \<Rightarrow> 'r host_mux channel_io" where
  "host_mux_io G =
     \<lparr>io_packet_in = (\<lambda>m packet buf. let (res, m) = host_mux_packet_in m packet in (res, (m, buf))),
      io_packet_in_ready = (\<lambda>_. True),
      io_packet_out = (\<lambda>m packet _. host_mux_packet_out G m packet),
      io_packet_out_ready = host_mux_packet_out_ready,
      io_message_in = (\<lambda>m _ buf. (Ok (), (m, buf))), io_message_in_ready = (\<lambda>_. True),
      io_message_out = (\<lambda>m buf. (Ok (0, 0, []), (m, buf))), io_message_out_ready = (\<lambda>_. False),
      io_message_retransmit = (\<lambda>m. (Ok (), m)), io_channel_id = (\<lambda>_. BROADCAST_CHANNEL_ID)\<rparr>"

section \<open>Channel in the handshake phase\<close>

datatype host_handshake_state =
    HostInitial
  | SendingInitiationRequest
  | SendingCompletionRequest
  | HostFinished pairing_state
  | HostFailed

record ('c, 'h, 'r) host_open =
  ho_channel :: "'c channel"
  ho_state :: host_handshake_state
  ho_noise :: 'h
  ho_send_buffer :: bytes
  ho_receive_buffer :: bytes
  ho_device_properties :: bytes
  ho_cred_store :: credential_store
  ho_random :: 'r

definition host_open_new ::
  "('c, 'h) backend \<Rightarrow> u16 \<Rightarrow> credential_store \<Rightarrow> bytes \<Rightarrow> bool \<Rightarrow> 'r \<Rightarrow> ('c, 'h, 'r) host_open thp_result" where
  "host_open_new B cid cred_store device_properties try_to_unlock s =
     and_then (ok_or InsufficientBuffer (vec_from_slice MAX_DEVICE_PROPERTIES_LEN device_properties)) (\<lambda>props.
     let (res, send_buffer) =
       write_initiation_request B props try_to_unlock (prepare_zeroed HANDSHAKE_BUFFER_HTD_LEN)
     in and_then res (\<lambda>(hss, len).
        Ok \<lparr>ho_channel = channel_new cid, ho_state = HostInitial, ho_noise = hss,
            ho_send_buffer = take len send_buffer, ho_receive_buffer = prepare_zeroed HANDSHAKE_BUFFER_DTH_LEN,
            ho_device_properties = props, ho_cred_store = cred_store, ho_random = s\<rparr>))"

definition host_channel_alloc ::
  "('c, 'h) backend \<Rightarrow> 'r host_mux \<Rightarrow> credential_store \<Rightarrow> ('c, 'h, 'r) host_open thp_result \<times> 'r host_mux" where
  "host_channel_alloc B m cred_store =
     (case hm_channel_allocation m of
        ReceivedId try_to_unlock cid \<Rightarrow>
          and_then_st (host_open_new B cid cred_store (hm_internal_buffer m) try_to_unlock (hm_random m), m) (\<lambda>ch m.
          (Ok ch, m\<lparr>hm_channel_allocation := AllocNone,
                    hm_internal_buffer := prepare_zeroed MAX_ALLOC_RESPONSE_LEN\<rparr>))
      | _ \<Rightarrow> (Err NotReady, m))"

definition host_mux_complete ::
  "('c, 'h) backend \<Rightarrow> 'r host_mux \<Rightarrow> credential_store \<Rightarrow> ('c, 'h, 'r) host_open thp_result" where
  "host_mux_complete B m cred_store = fst (host_channel_alloc B m cred_store)"

text \<open>The key for the case that no credential is found is drawn in advance.\<close>

definition continue_handshake ::
  "('c, 'h) backend \<Rightarrow> 'r generator \<Rightarrow> ('c, 'h, 'r) host_open \<Rightarrow> unit thp_result \<times> ('c, 'h, 'r) host_open" where
  "continue_handshake B G h =
     (let h = h\<lparr>ho_send_buffer := prepare_zeroed HANDSHAKE_BUFFER_HTD_LEN\<rparr>;
          (new_key, s) = dh_genkey G (ho_random h);
          (res, (hss, send_buffer)) =
            write_completion_request B (ho_noise h) (ho_cred_store h) new_key (ho_receive_buffer h) (ho_send_buffer h);
          h = h\<lparr>ho_noise := hss, ho_send_buffer := send_buffer, ho_random := s\<rparr>
      in and_then_st (res, h) (\<lambda>(nc, len) h.
         let h = h\<lparr>ho_send_buffer := take len (ho_send_buffer h),
                   ho_channel := (ho_channel h)\<lparr>channel_noise := Some nc\<rparr>\<rparr>
         in and_then_st (new_handshake (channel_id (ho_channel h)) CompletionRequest (ho_send_buffer h), h) (\<lambda>hdr h.
            let (res, ch) = raw_in (ho_channel h) hdr (ho_send_buffer h) in (res, h\<lparr>ho_channel := ch\<rparr>))))"

definition finish_handshake ::
  "('c, 'h) backend \<Rightarrow> ('c, 'h, 'r) host_open \<Rightarrow> pairing_state thp_result \<times> ('c, 'h, 'r) host_open" where
  "finish_handshake B h =
     and_then_st (ok_or UnexpectedInput (channel_noise (ho_channel h)), h) (\<lambda>nc h.
     let (res, (nc, buffer)) = noise_decrypt B nc (ho_receive_buffer h);
         h = h\<lparr>ho_channel := (ho_channel h)\<lparr>channel_noise := Some nc\<rparr>, ho_receive_buffer := buffer\<rparr>
     in and_then_st (res, h) (\<lambda>len h.
        and_then_st (slice_to len (ho_receive_buffer h), h) (\<lambda>payload h.
        (pairing_state_from_bytes payload, h))))"

definition host_handle_message ::
  "('c, 'h) backend \<Rightarrow> 'r generator \<Rightarrow> ('c, 'h, 'r) host_open \<Rightarrow> header
     \<Rightarrow> unit thp_result \<times> ('c, 'h, 'r) host_open" where
  "host_handle_message B G h hdr =
     (case (ho_state h, header_handshake_phase hdr) of
        (SendingInitiationRequest, Some InitiationResponse) \<Rightarrow>
          and_then_st (continue_handshake B G h) (\<lambda>_ h. (Ok (), h\<lparr>ho_state := SendingCompletionRequest\<rparr>))
      | (SendingCompletionRequest, Some CompletionResponse) \<Rightarrow>
          and_then_st (finish_handshake B h) (\<lambda>ps h. (Ok (), h\<lparr>ho_state := HostFinished ps\<rparr>))
      | _ \<Rightarrow> (Err UnexpectedInput, h))"

definition host_incoming_internal ::
  "('c, 'h) backend \<Rightarrow> 'r generator \<Rightarrow> ('c, 'h, 'r) host_open \<Rightarrow> unit thp_result \<times> ('c, 'h, 'r) host_open" where
  "host_incoming_internal B G h =
     (let (res, ch) = raw_out (ho_channel h) (ho_receive_buffer h) in
      and_then_st (res, h\<lparr>ho_channel := ch\<rparr>) (\<lambda>(hdr, len) h.
      and_then_st (host_handle_message B G (h\<lparr>ho_receive_buffer := take len (ho_receive_buffer h)\<rparr>) hdr) (\<lambda>_ h.
      (Ok (), h\<lparr>ho_receive_buffer := prepare_zeroed HANDSHAKE_BUFFER_DTH_LEN\<rparr>))))"

definition set_device_protocol_version :: "u8 \<Rightarrow> u8 \<Rightarrow> ('c, 'h, 'r) host_open \<Rightarrow> ('c, 'h, 'r) host_open" where
  "set_device_protocol_version major minor h =
     (if ho_state h \<noteq> HostInitial then h
      else if major > 2 \<or> (major = 2 \<and> minor \<ge> 1)
      then h\<lparr>ho_channel := (ho_channel h)\<lparr>channel_sync_state := allow_ack_piggybacking (channel_sync_state (ho_channel h))\<rparr>\<rparr>
      else h)"

definition host_handshake_done :: "('c, 'h, 'r) host_open \<Rightarrow> bool" where
  "host_handshake_done h \<longleftrightarrow> (case ho_state h of HostFinished _ \<Rightarrow> True | _ \<Rightarrow> False)"

definition host_handshake_failed :: "('c, 'h, 'r) host_open \<Rightarrow> bool" where
  "host_handshake_failed h \<longleftrightarrow> ho_state h = HostFailed \<or> is_failed (ho_channel h)"

definition host_complete :: "('c, 'h, 'r) host_open \<Rightarrow> 'c channel thp_result" where
  "host_complete h =
     (if channel_noise (ho_channel h) = None then Err UnexpectedInput
      else case ho_state h of
        HostFinished ps \<Rightarrow> Ok ((ho_channel h)\<lparr>channel_phase := PairingCredential ps\<rparr>)
      | _ \<Rightarrow> Err UnexpectedInput)"

definition host_sending_retry :: "('c, 'h, 'r) host_open \<Rightarrow> u8 option" where
  "host_sending_retry h = sending_retry (ho_channel h)"

definition host_message_received ::
  "('c, 'h) backend \<Rightarrow> 'r generator \<Rightarrow> ('c, 'h, 'r) host_open \<Rightarrow> packet_in_result
     \<Rightarrow> packet_in_result thp_result \<times> ('c, 'h, 'r) host_open" where
  "host_message_received B G h res =
     (case host_incoming_internal B G h of
        (Err e, h) \<Rightarrow>
          if e = InvalidChecksum then (Ok (pir_ignore e), h)
          else (Ok (pir_fail e), h\<lparr>ho_state := HostFailed\<rparr>)
      | (Ok _, h) \<Rightarrow> (Ok res, h)
      | (Panic, h) \<Rightarrow> (Panic, h))"

definition host_open_packet_in ::
  "('c, 'h) backend \<Rightarrow> 'r generator \<Rightarrow> ('c, 'h, 'r) host_open \<Rightarrow> bytes
     \<Rightarrow> packet_in_result thp_result \<times> ('c, 'h, 'r) host_open" where
  "host_open_packet_in B G h packet_buffer =
     (if ho_state h = HostInitial then (Ok (pir_ignore MalformedData), h)
      else
        let (res, (ch, receive_buffer)) = channel_packet_in Host (ho_channel h) packet_buffer (ho_receive_buffer h);
            h = h\<lparr>ho_channel := ch, ho_receive_buffer := receive_buffer\<rparr>
        in and_then_st (res, h) (\<lambda>res h.
           if (case res of Accepted _ _ _ (Some _) \<Rightarrow> True | _ \<Rightarrow> False)
           then (Ok (pir_ignore MalformedData), h\<lparr>ho_channel := (ho_channel h)\<lparr>receive_state := ReceiveIdle\<rparr>\<rparr>)
           else if got_message res then host_message_received B G h res
           else (Ok res, h)))"

definition host_open_start :: "('c, 'h, 'r) host_open \<Rightarrow> unit thp_result \<times> ('c, 'h, 'r) host_open" where
  "host_open_start h =
     (if ho_state h = HostInitial then
        and_then_st (new_handshake (channel_id (ho_channel h)) InitiationRequest (ho_send_buffer h), h) (\<lambda>hdr h.
        let (res, ch) = raw_in_ext (ho_channel h) hdr (ho_send_buffer h) True in
        and_then_st (res, h\<lparr>ho_channel := ch\<rparr>) (\<lambda>_ h. (Ok (), h\<lparr>ho_state := SendingInitiationRequest\<rparr>)))
      else (Ok (), h))"

definition host_open_packet_out ::
  "('c, 'h, 'r) host_open \<Rightarrow> bytes \<Rightarrow> unit thp_result \<times> (('c, 'h, 'r) host_open \<times> bytes)" where
  "host_open_packet_out h packet_buffer =
     (let (res, h) = host_open_start h in
      and_then_st (res, (h, packet_buffer)) (\<lambda>_ (h, packet_buffer).
      let (res, (ch, packet_buffer)) = channel_packet_out Host (ho_channel h) packet_buffer (ho_send_buffer h)
      in (res, (h\<lparr>ho_channel := ch\<rparr>, packet_buffer))))"

definition host_open_packet_out_ready :: "('c, 'h, 'r) host_open \<Rightarrow> bool" where
  "host_open_packet_out_ready h \<longleftrightarrow> ho_state h = HostInitial \<or> channel_packet_out_ready (ho_channel h)"

definition host_open_retransmit :: "('c, 'h, 'r) host_open \<Rightarrow> unit thp_result \<times> ('c, 'h, 'r) host_open" where
  "host_open_retransmit h =
     (let (res, ch) = channel_message_retransmit (ho_channel h) in (res, h\<lparr>ho_channel := ch\<rparr>))"

definition host_open_io :: "('c, 'h) backend \<Rightarrow> 'r generator \<Rightarrow> ('c, 'h, 'r) host_open channel_io" where
  "host_open_io B G =
     \<lparr>io_packet_in = (\<lambda>h packet buf. let (res, h) = host_open_packet_in B G h packet in (res, (h, buf))),
      io_packet_in_ready = (\<lambda>_. True),
      io_packet_out = (\<lambda>h packet _. host_open_packet_out h packet),
      io_packet_out_ready = host_open_packet_out_ready,
      io_message_in = (\<lambda>h _ buf. (Ok (), (h, buf))),
      io_message_in_ready = (\<lambda>h. \<not> (host_handshake_done h \<or> host_handshake_failed h)),
      io_message_out = (\<lambda>h buf. (Ok (0, 0, []), (h, buf))),
      io_message_out_ready = (\<lambda>h. channel_message_out_ready (ho_channel h)),
      io_message_retransmit = host_open_retransmit, io_channel_id = (\<lambda>h. channel_id (ho_channel h))\<rparr>"

section \<open>Safety\<close>

text \<open>The multiplexer while it waits for a response keeps a reassembler that fits its buffer.\<close>

definition alloc_wf :: "allocation_state \<Rightarrow> bool" where
  "alloc_wf a \<longleftrightarrow> (case a of ReceivingResponse _ _ x \<Rightarrow> reas_wf x | _ \<Rightarrow> True)"

definition host_mux_wf :: "'r host_mux \<Rightarrow> bool" where
  "host_mux_wf m \<longleftrightarrow> length (hm_internal_buffer m) \<le> MAX_ALLOC_RESPONSE_LEN \<and> alloc_wf (hm_channel_allocation m)"

lemma handle_allocation_response_safe:
  assumes "host_mux_wf m"
  shows "safely host_mux_wf (handle_allocation_response m)"
proof (cases "hm_channel_allocation m")
  case (ReceivingResponse t n x)
  have step: "unat NONCE_LEN + 2 \<le> len \<and> len \<le> length buf \<and> length props \<le> length buf"
    if "reassembler_verify x buf = Ok len" "nonce_parse (take len buf) = Ok (n', rest)"
      "parse_u16 rest = Ok (c, props)" for len n' rest c props buf
    using reassembler_verify_length [OF that(1)] arg_cong [OF that(3) [unfolded parse_u16_Ok], of length] that(2)
    by (auto simp: nonce_parse_Ok)
  show ?thesis
    using ReceivingResponse assms
    by (auto simp: handle_allocation_response_def host_mux_wf_def alloc_wf_def copy_within_def
        intro!: safely_and_then safely_pair dest!: step [rotated -1] dest: reassembler_verify_length split: if_splits)
qed (use assms in \<open>simp_all add: handle_allocation_response_def\<close>)

lemma handle_pong_safe:
  assumes "host_mux_wf m" "parse_cb_channel packet = Ok (cb, c, tail)" "\<not> cb_is_codec_v1 cb"
  shows "safely host_mux_wf (handle_pong m packet)"
  using assms(1) reassembler_not_codec_no_panic(1) [OF assms(2,3)]
  by (auto simp: handle_pong_def host_mux_wf_def intro!: safely_and_then safely_pair)

lemma host_handle_broadcast_safe:
  assumes wf: "host_mux_wf m" and p: "parse_cb_channel packet = Ok (cb, c, tail)" "\<not> cb_is_codec_v1 cb"
  shows "safely host_mux_wf (host_handle_broadcast m packet)"
proof (cases "header_parse Host packet")
  case (Ok x)
  then obtain h rest where h: "header_parse Host packet = Ok (h, rest)" by (cases x) auto
  have resp: "safely host_mux_wf (let (res, buffer) = reassembler_new Host packet (replicate (length (hm_internal_buffer m)) 0)
      in and_then_st (res, m\<lparr>hm_internal_buffer := buffer\<rparr>) (\<lambda>x m.
            handle_allocation_response (m\<lparr>hm_channel_allocation := ReceivingResponse t n x\<rparr>)))" for t n
  proof -
    let ?z = "replicate (length (hm_internal_buffer m)) 0"
    obtain res buffer where new: "reassembler_new Host packet ?z = (res, buffer)" by fastforce
    have "res \<noteq> Panic" "length buffer = length (hm_internal_buffer m)"
      using reassembler_not_codec_no_panic(2) [OF p, of Host ?z] reassembler_new_length [of Host packet ?z] new by simp_all
    moreover have "reas_wf x" if "res = Ok x" for x
      using reassembler_new_wf [of Host packet ?z x buffer] reassembler_new_Ok [of Host packet ?z x buffer]
        header_parse_not_codec(1) [OF _ p] new that by metis
    ultimately show ?thesis
      using wf new
      by (auto simp: host_mux_wf_def alloc_wf_def intro!: safely_and_then safely_pair handle_allocation_response_safe)
  qed
  have cont: "safely host_mux_wf (let (res, (x, buffer)) = reassembler_update Host x packet (hm_internal_buffer m)
      in and_then_st (res, m\<lparr>hm_internal_buffer := buffer, hm_channel_allocation := ReceivingResponse t n x\<rparr>)
           (\<lambda>_ m. handle_allocation_response m))" if "hm_channel_allocation m = ReceivingResponse t n x" for t n x
  proof -
    have "reas_wf x" using wf that by (simp add: host_mux_wf_def alloc_wf_def)
    from reassembler_update_safe [OF this, of "hm_internal_buffer m" Host packet]
    have "fst (reassembler_update Host x packet (hm_internal_buffer m)) \<noteq> Panic"
      "reas_wf (fst (snd (reassembler_update Host x packet (hm_internal_buffer m))))"
      "length (snd (snd (reassembler_update Host x packet (hm_internal_buffer m)))) = length (hm_internal_buffer m)"
      by (simp_all add: safely_def case_prod_unfold)
    then show ?thesis
      using wf
      by (auto simp: case_prod_unfold Let_def host_mux_wf_def alloc_wf_def
          intro!: safely_and_then safely_pair handle_allocation_response_safe)
  qed
  show ?thesis
    using h wf resp cont handle_pong_safe [OF wf p]
    by (auto simp: host_handle_broadcast_def Let_def intro!: safely_and_then safely_pair
        split: header.split allocation_state.split)
qed (use wf in \<open>simp_all add: host_handle_broadcast_def\<close>)

lemma host_mux_packet_in_safe:
  assumes "host_mux_wf m"
  shows "safely host_mux_wf (host_mux_packet_in m packet)"
proof (cases "control_byte_parse packet")
  case (Ok p)
  then obtain cb rest where p: "control_byte_parse packet = Ok (cb, rest)" by (cases p) auto
  have pir: "pir_from_result res \<noteq> Panic" if "res \<noteq> Panic" for res using that by (cases res) auto
  show ?thesis
  proof (cases "cb_is_codec_v1 cb")
    case False
    have "safely host_mux_wf (host_handle_broadcast m packet)"
      if "parse_channel_length cb packet = Ok (c, len)" for c len
      using control_byte_parse_cb_channel [OF p that] host_handle_broadcast_safe [OF assms _ False] by blast
    then show ?thesis
      using p False assms
      by (auto simp: host_mux_packet_in_def case_prod_unfold Let_def safely_def [of _ "host_handle_broadcast m packet"]
          intro!: safely_pair pir split: result.split)
  qed (use p assms in \<open>simp add: host_mux_packet_in_def\<close>)
qed (use assms in \<open>simp_all add: host_mux_packet_in_def\<close>)

lemma host_mux_packet_out_safe:
  assumes "host_mux_wf m"
  shows "safely (\<lambda>(m', packet'). host_mux_wf m' \<and> length packet' = length packet) (host_mux_packet_out G m packet)"
  using assms
  by (cases "hm_channel_allocation m"; cases "hm_ping m = SendingPing")
    (auto simp: host_mux_packet_out_def host_mux_wf_def alloc_wf_def case_prod_unfold Let_def fragmenter_single_length
      intro!: safely_and_then safely_pair)

interpretation host_mux: channel_io_contract "host_mux_io G" host_mux_wf for G
proof
  fix m :: "'a host_mux" and packet and buf :: bytes
  assume "host_mux_wf m"
  then show "safely (\<lambda>(s', buf'). host_mux_wf s' \<and> length buf' = length buf) (io_packet_in (host_mux_io G) m packet buf)"
    using host_mux_packet_in_safe [of m packet]
    by (simp add: host_mux_io_def safely_def case_prod_unfold Let_def)
qed (auto simp: host_mux_io_def host_mux_packet_out_safe)

subsection \<open>The handshake object\<close>

text \<open>
  The device chooses the channel id, and until the first packet is sent nothing has checked
  that it is one.
\<close>

definition host_open_wf :: "('c, 'h, 'r) host_open \<Rightarrow> bool" where
  "host_open_wf h \<longleftrightarrow>
     (if ho_state h = HostInitial
      then send_state (ho_channel h) = SendIdle \<and> receive_state (ho_channel h) = ReceiveIdle
        \<and> send_ack (ho_channel h) = None
      else channel_wf Host (ho_channel h))"

lemma host_open_wfI: "ho_state h \<noteq> HostInitial \<Longrightarrow> channel_wf Host (ho_channel h) \<Longrightarrow> host_open_wf h"
  by (simp add: host_open_wf_def)

lemma host_handshake_control_byte:
  "header_control_byte Host (Handshake InitiationRequest c l) sb \<noteq> None"
  "header_control_byte Host (Handshake CompletionRequest c l) sb \<noteq> None"
  by (simp_all add: header_control_byte_def)

lemma continue_handshake_safe:
  assumes "channel_wf Host (ho_channel h)" "backend_ok B"
  shows "safely (\<lambda>h'. channel_wf Host (ho_channel h') \<and> ho_state h' = ho_state h) (continue_handshake B G h)"
proof -
  have "safely (channel_wf Host) (raw_in ch hdr buf)"
    if "new_handshake c CompletionRequest p = Ok hdr" "channel_wf Host ch" for ch :: "'a channel" and hdr buf c p
    using that new_header_wf(4) [OF that(1)] host_handshake_control_byte(2)
    by (intro raw_in_safe) (auto simp: new_header_Ok)
  then have raw: "fst (raw_in ch hdr buf) \<noteq> Panic" "channel_wf Host (snd (raw_in ch hdr buf))"
    if "new_handshake c CompletionRequest p = Ok hdr" "channel_wf Host ch" for ch :: "'a channel" and hdr buf c p
    using that by (simp_all add: safely_def)
  have "fst (write_completion_request B (ho_noise h) (ho_cred_store h) k (ho_receive_buffer h)
      (prepare_zeroed HANDSHAKE_BUFFER_HTD_LEN)) \<noteq> Panic" for k
    using write_completion_request_safe [OF assms(2)] by (rule safelyD(1))
  then show ?thesis
    using assms(1)
    by (auto simp: continue_handshake_def case_prod_unfold Let_def raw intro!: safely_and_then safely_pair)
qed

lemma finish_handshake_safe:
  assumes "channel_wf Host (ho_channel h)" "backend_ok B"
  shows "safely (\<lambda>h'. channel_wf Host (ho_channel h') \<and> ho_state h' = ho_state h) (finish_handshake B h)"
proof (cases "channel_noise (ho_channel h)")
  case (Some nc)
  obtain res nc' buf' where d: "noise_decrypt B nc (ho_receive_buffer h) = (res, (nc', buf'))" by (metis prod.exhaust)
  then show ?thesis
    using Some assms(1) noise_decrypt_no_panic [of B nc "ho_receive_buffer h"] noise_decrypt_length [OF assms(2) d]
    by (auto simp: finish_handshake_def intro!: safely_and_then safely_pair)
qed (use assms(1) in \<open>simp add: finish_handshake_def\<close>)

lemma host_handle_message_safe:
  assumes "channel_wf Host (ho_channel h)" "ho_state h \<noteq> HostInitial" "backend_ok B"
  shows "safely (\<lambda>h'. channel_wf Host (ho_channel h') \<and> ho_state h' \<noteq> HostInitial) (host_handle_message B G h hdr)"
proof -
  have "safely (\<lambda>h'. channel_wf Host (ho_channel h') \<and> ho_state h' \<noteq> HostInitial)
      (and_then_st (continue_handshake B G h) (\<lambda>_ h. (Ok (), h\<lparr>ho_state := SendingCompletionRequest\<rparr>)))"
    by (rule safely_bind [OF continue_handshake_safe [OF assms(1,3)]]) (use assms(2) in auto)
  moreover have "safely (\<lambda>h'. channel_wf Host (ho_channel h') \<and> ho_state h' \<noteq> HostInitial)
      (and_then_st (finish_handshake B h) (\<lambda>ps h. (Ok (), h\<lparr>ho_state := HostFinished ps\<rparr>)))"
    by (rule safely_bind [OF finish_handshake_safe [OF assms(1,3)]]) (use assms(2) in auto)
  ultimately show ?thesis
    using assms(1,2) unfolding host_handle_message_def
    by (auto split: host_handshake_state.split option.split handshake_message.split)
qed

lemma host_incoming_internal_safe:
  assumes "channel_wf Host (ho_channel h)" "ho_state h \<noteq> HostInitial" "backend_ok B"
  shows "safely (\<lambda>h'. channel_wf Host (ho_channel h') \<and> ho_state h' \<noteq> HostInitial) (host_incoming_internal B G h)"
  using safelyD(1,2) [OF raw_out_safe [OF assms(1), of "ho_receive_buffer h"]] assms(2,3)
  by (auto simp: host_incoming_internal_def case_prod_unfold Let_def
      intro!: safely_and_then safely_pair host_handle_message_safe)

lemma host_message_received_safe:
  assumes "channel_wf Host (ho_channel h)" "ho_state h \<noteq> HostInitial" "backend_ok B"
  shows "safely host_open_wf (host_message_received B G h res)"
  using host_incoming_internal_safe [OF assms, of G]
  by (cases "host_incoming_internal B G h"; cases "fst (host_incoming_internal B G h)")
    (auto simp: host_message_received_def host_open_wf_def)

lemma host_open_packet_in_safe:
  assumes "host_open_wf h" "backend_ok B"
  shows "safely host_open_wf (host_open_packet_in B G h packet)"
proof (cases "ho_state h = HostInitial")
  case False
  obtain res ch' buf' where pin: "channel_packet_in Host (ho_channel h) packet (ho_receive_buffer h) = (Ok res, (ch', buf'))"
    and wf: "channel_wf Host ch'"
    using channel_packet_in_Ok [of Host "ho_channel h" packet "ho_receive_buffer h"] assms(1) False
    by (metis host_open_wf_def)
  have idle: "channel_wf Host (ch'\<lparr>receive_state := ReceiveIdle\<rparr>)" if "res = Accepted a b c (Some n)" for a b c n
    using accepted_receiving [of Host "ho_channel h" packet "ho_receive_buffer h" a b c n ch' buf'] pin that wf channel_wf_idle
    by blast
  show ?thesis
    using False pin wf idle assms(2)
    by (auto simp: host_open_packet_in_def split: packet_in_result.splits option.splits
        intro!: host_open_wfI host_message_received_safe)
qed (use assms in \<open>simp add: host_open_packet_in_def\<close>)

lemma raw_in_ext_idle:
  assumes "raw_in_ext ch h buf b = (Err e, ch')"
  shows "ch' = ch \<or> ch' = ch\<lparr>send_ack := None\<rparr>"
proof (cases "send_start (channel_sync_state ch)")
  case (Some sb)
  then show ?thesis
    using assms by (auto simp: raw_in_ext_def Let_def fragmenter_new_def split: if_splits)
qed (use assms in \<open>auto simp: raw_in_ext_def split: if_splits\<close>)

lemma host_open_start_safe:
  assumes wf: "host_open_wf h"
  shows "safely host_open_wf (host_open_start h)"
proof (cases "ho_state h = HostInitial")
  case True
  then have ch: "send_state (ho_channel h) = SendIdle" "receive_state (ho_channel h) = ReceiveIdle"
    "send_ack (ho_channel h) = None" using wf by (simp_all add: host_open_wf_def)
  show ?thesis
  proof (cases "new_handshake (channel_id (ho_channel h)) InitiationRequest (ho_send_buffer h)")
    case (Ok hdr)
    have "channel_wf Host (ho_channel h)"
      using ch Ok by (simp add: channel_wf_def new_header_Ok)
    then have safe: "safely (channel_wf Host) (raw_in_ext (ho_channel h) hdr (ho_send_buffer h) True)"
      using new_header_wf(4) [OF Ok] Ok host_handshake_control_byte(1)
      by (intro raw_in_ext_safe) (auto simp: new_header_Ok)
    obtain res ch' where raw: "raw_in_ext (ho_channel h) hdr (ho_send_buffer h) True = (res, ch')" by fastforce
    show ?thesis
      using True Ok raw safe ch raw_in_ext_idle [of "ho_channel h" hdr "ho_send_buffer h" True _ ch']
      by (cases res) (auto simp: host_open_start_def host_open_wf_def)
  qed (use True wf in \<open>simp_all add: host_open_start_def\<close>)
qed (use wf in \<open>simp add: host_open_start_def\<close>)

lemma host_open_packet_out_safe:
  assumes wf: "host_open_wf h"
  shows "safely (\<lambda>(h', packet'). host_open_wf h' \<and> length packet' = length packet) (host_open_packet_out h packet)"
proof -
  obtain res h1 where st: "host_open_start h = (res, h1)" by fastforce
  have h1: "host_open_wf h1" "res \<noteq> Panic" using host_open_start_safe [OF wf] st by (simp_all add: safely_def)
  have "ho_state h1 \<noteq> HostInitial" if "res = Ok ()"
    using st that by (auto simp: host_open_start_def and_then_st_eq_Ok case_prod_unfold Let_def split: if_splits)
  then have "channel_wf Host (ho_channel h1)" if "res = Ok ()" using h1(1) that by (simp add: host_open_wf_def)
  then show ?thesis
    using st h1 channel_packet_out_safe [of Host "ho_channel h1" packet "ho_send_buffer h1"]
      channel_packet_out_length [of Host "ho_channel h1" packet "ho_send_buffer h1"] \<open>res = Ok () \<Longrightarrow> ho_state h1 \<noteq> HostInitial\<close>
    by (cases res) (auto simp: host_open_packet_out_def host_open_wf_def safely_def case_prod_unfold Let_def)
qed

lemma host_open_retransmit_safe:
  assumes "host_open_wf h"
  shows "safely host_open_wf (host_open_retransmit h)"
  using assms channel_message_retransmit_wf [of Host "ho_channel h"]
  by (cases "ho_state h = HostInitial")
    (auto simp: host_open_retransmit_def host_open_wf_def safely_def case_prod_unfold Let_def channel_message_retransmit_def)

interpretation host_open: channel_io_contract "host_open_io B G" "\<lambda>h. backend_ok B \<and> host_open_wf h" for B G
proof
  fix h :: "('a, 'b, 'c) host_open" and packet and buf :: bytes
  assume h: "backend_ok B \<and> host_open_wf h"
  show "safely (\<lambda>(s', buf'). (backend_ok B \<and> host_open_wf s') \<and> length buf' = length buf)
      (io_packet_in (host_open_io B G) h packet buf)"
    using host_open_packet_in_safe [of h B G packet] h
    by (simp add: host_open_io_def safely_def case_prod_unfold Let_def)
  show "safely (\<lambda>(s', packet'). (backend_ok B \<and> host_open_wf s') \<and> length packet' = length packet)
      (io_packet_out (host_open_io B G) h packet buf)"
    using host_open_packet_out_safe [of h packet] h
    by (simp add: host_open_io_def safely_def case_prod_unfold)
  show "safely (\<lambda>s'. backend_ok B \<and> host_open_wf s') (io_message_retransmit (host_open_io B G) h)"
    using host_open_retransmit_safe [of h] h by (simp add: host_open_io_def safely_def)
qed (auto simp: host_open_io_def)

section \<open>Any sequence of calls\<close>

datatype host_mux_op = HmIo io_op | HmReset | HmPing | HmRequest bool | HmAlloc

fun host_mux_exec ::
  "('c, 'h) backend \<Rightarrow> 'r generator \<Rightarrow> credential_store \<Rightarrow> 'r host_mux \<Rightarrow> host_mux_op \<Rightarrow> 'r host_mux option" where
  "host_mux_exec B G store m (HmIo x) = io_exec (host_mux_io G) m x"
| "host_mux_exec B G store m HmReset = Some (host_mux_reset m)"
| "host_mux_exec B G store m HmPing = Some (host_mux_ping m)"
| "host_mux_exec B G store m (HmRequest u) = Some (request_channel u m)"
| "host_mux_exec B G store m HmAlloc = settle (host_channel_alloc B m store)"

fun host_mux_exec_all ::
  "('c, 'h) backend \<Rightarrow> 'r generator \<Rightarrow> credential_store \<Rightarrow> 'r host_mux \<Rightarrow> host_mux_op list \<Rightarrow> 'r host_mux option" where
  "host_mux_exec_all B G store m [] = Some m"
| "host_mux_exec_all B G store m (x # xs) =
     (case host_mux_exec B G store m x of None \<Rightarrow> None | Some m \<Rightarrow> host_mux_exec_all B G store m xs)"

datatype host_op = HostIo io_op | HostVersion u8 u8

fun host_exec ::
  "('c, 'h) backend \<Rightarrow> 'r generator \<Rightarrow> ('c, 'h, 'r) host_open \<Rightarrow> host_op \<Rightarrow> ('c, 'h, 'r) host_open option" where
  "host_exec B G h (HostIo x) = io_exec (host_open_io B G) h x"
| "host_exec B G h (HostVersion major minor) = Some (set_device_protocol_version major minor h)"

fun host_exec_all ::
  "('c, 'h) backend \<Rightarrow> 'r generator \<Rightarrow> ('c, 'h, 'r) host_open \<Rightarrow> host_op list \<Rightarrow> ('c, 'h, 'r) host_open option" where
  "host_exec_all B G h [] = Some h"
| "host_exec_all B G h (x # xs) = (case host_exec B G h x of None \<Rightarrow> None | Some h \<Rightarrow> host_exec_all B G h xs)"

lemma host_open_new_safe:
  assumes "backend_ok B"
  shows "host_open_new B cid store props u s \<noteq> Panic" "host_open_new B cid store props u s = Ok h \<Longrightarrow> host_open_wf h"
  using write_initiation_request_safe [OF assms, of "prepare_zeroed HANDSHAKE_BUFFER_HTD_LEN"]
  by (auto simp: host_open_new_def case_prod_unfold Let_def and_then_eq_Panic and_then_eq_Ok safely_def
      host_open_wf_def channel_new_def)

lemma host_channel_alloc_safe:
  assumes "backend_ok B" "host_mux_wf m"
  shows "safely host_mux_wf (host_channel_alloc B m store)"
  using assms(2)
  by (cases "hm_channel_allocation m")
    (auto simp: host_open_new_safe(1) [OF assms(1)] host_channel_alloc_def host_mux_wf_def alloc_wf_def prepare_zeroed_def intro!: safely_and_then safely_pair)

lemma host_channel_alloc_wf:
  "backend_ok B \<Longrightarrow> host_channel_alloc B m store = (Ok h, m') \<Longrightarrow> host_open_wf h"
  by (auto simp: host_channel_alloc_def and_then_st_eq_Ok dest: host_open_new_safe(2) split: allocation_state.splits)

lemma host_mux_exec_safe:
  assumes B: "backend_ok B" and wf: "host_mux_wf m"
  shows "\<exists>m'. host_mux_exec B G store m x = Some m' \<and> host_mux_wf m'"
proof (cases x)
  case (HmIo y)
  then show ?thesis using host_mux.exec_safe [OF wf] by simp
next
  case HmAlloc
  then show ?thesis using settle_safely [OF host_channel_alloc_safe [OF assms]] by simp
qed (use wf in \<open>simp_all add: host_mux_wf_def alloc_wf_def host_mux_reset_def host_mux_new_def host_mux_ping_def
    request_channel_def prepare_zeroed_def\<close>)

lemma host_mux_exec_all_safe:
  "backend_ok B \<Longrightarrow> host_mux_wf m \<Longrightarrow> \<exists>m'. host_mux_exec_all B G store m xs = Some m' \<and> host_mux_wf m'"
proof (induction xs arbitrary: m)
  case (Cons x xs)
  then obtain m1 where "host_mux_exec B G store m x = Some m1" "host_mux_wf m1" using host_mux_exec_safe by blast
  then show ?case using Cons by simp
qed simp

lemma host_exec_all_safe:
  "backend_ok B \<Longrightarrow> host_open_wf h \<Longrightarrow> \<exists>h'. host_exec_all B G h xs = Some h' \<and> host_open_wf h'"
proof (induction xs arbitrary: h)
  case (Cons x xs)
  have "\<exists>h1. host_exec B G h x = Some h1 \<and> host_open_wf h1"
  proof (cases x)
    case (HostIo y)
    then show ?thesis using host_open.exec_safe [of B h G y] Cons.prems by simp
  qed (use Cons.prems(2) in \<open>auto simp: set_device_protocol_version_def host_open_wf_def\<close>)
  then show ?case using Cons by fastforce
qed simp

section \<open>Properties\<close>

text \<open>
  C20. The host never panics, whatever the device sends: no sequence of packets and calls
  breaks the multiplexer, and no sequence of packets and calls breaks a handshake that is
  started from what the multiplexer has received.
\<close>
theorem host_never_panics:
  assumes "backend_ok B"
  shows "\<exists>m. host_mux_exec_all B G store (host_mux_new s) xs = Some m \<and> host_mux_wf m
    \<and> (\<exists>res m'. host_channel_alloc B m store = (res, m') \<and> res \<noteq> Panic
        \<and> (\<forall>h. res = Ok h \<longrightarrow> (\<exists>h'. host_exec_all B G h ys = Some h' \<and> host_open_wf h')))"
proof -
  have "host_mux_wf (host_mux_new s)"
    by (simp add: host_mux_wf_def host_mux_new_def alloc_wf_def prepare_zeroed_def)
  then obtain m where m: "host_mux_exec_all B G store (host_mux_new s) xs = Some m" "host_mux_wf m"
    using host_mux_exec_all_safe [OF assms] by blast
  obtain res m' where al: "host_channel_alloc B m store = (res, m')" by fastforce
  then have "res \<noteq> Panic" using host_channel_alloc_safe [OF assms m(2), of store] by (simp add: safely_def)
  then show ?thesis
    using m al host_exec_all_safe [OF assms host_channel_alloc_wf [OF assms]] by blast
qed

definition demo_generator :: "u8 generator" where
  "demo_generator = \<lparr>random_bytes = (\<lambda>s n. (replicate n s, s + 1)), dh_genkey = (\<lambda>s. (replicate PRIVKEY_LEN s, s + 1))\<rparr>"

lemma demo_generator_ok: "generator_ok demo_generator"
  by (simp add: generator_ok_def demo_generator_def)

theorem host_never_panics_witness:
  "\<exists>m. host_mux_exec_all plain_backend demo_generator null_credential_store (host_mux_new 7)
      [HmRequest True, HmIo (IoPacketOut (replicate 64 0) []), HmIo (IoPacketIn [0x41, 0xFF, 0xFF, 0, 4, 1, 2, 3, 4] []), HmAlloc] = Some m
    \<and> host_mux_wf m"
  using host_never_panics [OF plain_backend_ok, of demo_generator null_credential_store 7
      "[HmRequest True, HmIo (IoPacketOut (replicate 64 0) []), HmIo (IoPacketIn [0x41, 0xFF, 0xFF, 0, 4, 1, 2, 3, 4] []), HmAlloc]"]
  by blast

end
