(* ===== verification/Thp_Exchange.thy ===== *)
theory Thp_Exchange
  imports Thp_Buffered Thp_Device Thp_Host
begin

text \<open>
  Driving two implementations of \<open>ChannelIO\<close> against each other over a link that delivers:
  the loops of an event loop that fetches packets and hands them over, how the loops of the
  handshake objects reduce to those of the channel inside, and one turn of an exchange in
  which each message also acknowledges the previous one.
\<close>

section \<open>The loops\<close>

fun io_drain :: "'s channel_io \<Rightarrow> nat \<Rightarrow> 's \<Rightarrow> bytes \<Rightarrow> nat \<Rightarrow> bytes list \<times> 's" where
  "io_drain io 0 s send_buffer sz = ([], s)"
| "io_drain io (Suc n) s send_buffer sz =
     (if io_packet_out_ready io s then
        (case io_packet_out io s (replicate sz 0) send_buffer of
           (Ok _, (s, packet)) \<Rightarrow>
             let (packets, s) = io_drain io n s send_buffer sz in (packet # packets, s)
         | (_, (s, _)) \<Rightarrow> ([], s))
      else ([], s))"

fun io_feed ::
  "'s channel_io \<Rightarrow> 's \<Rightarrow> bytes list \<Rightarrow> bytes \<Rightarrow> packet_in_result thp_result list \<times> ('s \<times> bytes)" where
  "io_feed io s [] receive_buffer = ([], (s, receive_buffer))"
| "io_feed io s (packet # packets) receive_buffer =
     (let (res, (s, receive_buffer)) = io_packet_in io s packet receive_buffer;
          (results, st) = io_feed io s packets receive_buffer
      in (res # results, st))"

lemma io_drain_channel: "io_drain (channel_channel_io B r) n ch buf sz = channel_drain r n ch buf sz"
  by (induction n arbitrary: ch) (auto simp: channel_channel_io_def split: prod.splits result.splits)

lemma io_feed_channel: "io_feed (channel_channel_io B r) ch packets buf = channel_feed r ch packets buf"
  by (induction packets arbitrary: ch buf) (auto simp: split: prod.splits)

text \<open>A loop is a sequence of calls of the trait, so that it keeps the invariant of the contract.\<close>

lemma io_exec_all_Cons:
  "io_exec io s x = Some s1 \<Longrightarrow> io_exec_all io s1 xs = Some s2 \<Longrightarrow> io_exec_all io s (x # xs) = Some s2"
  by simp

context channel_io_contract
begin

lemma drain_exec: "invar s \<Longrightarrow> \<exists>xs. io_exec_all io s xs = Some (snd (io_drain io n s buf sz)) \<and> invar (snd (io_drain io n s buf sz))"
proof (induction n arbitrary: s)
  case (Suc n)
  show ?case
  proof (cases "io_packet_out_ready io s")
    case True
    obtain res s1 packet where out: "io_packet_out io s (replicate sz 0) buf = (res, (s1, packet))" by (metis prod.exhaust)
    have "res \<noteq> Panic" "invar s1" using packet_out_safe [OF Suc.prems, of "replicate sz 0" buf] out by (auto simp: safely_def)
    then have exec: "io_exec io s (IoPacketOut (replicate sz 0) buf) = Some s1"
      using out by (cases res) (simp_all add: settle_def)
    obtain xs where "io_exec_all io s1 xs = Some (snd (io_drain io n s1 buf sz))" "invar (snd (io_drain io n s1 buf sz))"
      using Suc.IH [OF \<open>invar s1\<close>] by blast
    then have "\<exists>xs. io_exec_all io s1 xs = Some (snd (io_drain io (Suc n) s buf sz)) \<and> invar (snd (io_drain io (Suc n) s buf sz))"
      using True out \<open>res \<noteq> Panic\<close> \<open>invar s1\<close>
      by (cases res) (auto simp: case_prod_unfold Let_def intro: exI [of _ "[]"])
    then obtain xs where "io_exec_all io s1 xs = Some (snd (io_drain io (Suc n) s buf sz))" "invar (snd (io_drain io (Suc n) s buf sz))"
      by blast
    then show ?thesis using io_exec_all_Cons [OF exec] by blast
  qed (use Suc.prems in \<open>auto intro: exI [of _ "[]"]\<close>)
qed (auto intro: exI [of _ "[]"])

lemma feed_exec: "invar s \<Longrightarrow> \<exists>xs. io_exec_all io s xs = Some (fst (snd (io_feed io s packets buf))) \<and> invar (fst (snd (io_feed io s packets buf)))"
proof (induction packets arbitrary: s buf)
  case (Cons p packets)
  obtain res s1 buf1 where pin: "io_packet_in io s p buf = (res, (s1, buf1))" by (metis prod.exhaust)
  have "res \<noteq> Panic" "invar s1" using packet_in_safe [OF Cons.prems, of buf p] pin by (auto simp: safely_def)
  then have exec: "io_exec io s (IoPacketIn p buf) = Some s1"
    using pin by (cases res) (simp_all add: settle_def)
  obtain xs where "io_exec_all io s1 xs = Some (fst (snd (io_feed io s1 packets buf1)))" "invar (fst (snd (io_feed io s1 packets buf1)))"
    using Cons.IH [OF \<open>invar s1\<close>] by blast
  moreover have "fst (snd (io_feed io s (p # packets) buf)) = fst (snd (io_feed io s1 packets buf1))"
    using pin by (simp add: case_prod_unfold Let_def)
  ultimately show ?case using io_exec_all_Cons [OF exec] by metis
qed (auto intro: exI [of _ "[]"])

end

subsection \<open>The handshake objects\<close>

lemma device_drain:
  "io_drain (device_open_io B) n d buf sz =
     (case channel_drain Device n (do_channel d) (do_send_buffer d) sz of (packets, ch) \<Rightarrow> (packets, d\<lparr>do_channel := ch\<rparr>))"
proof (induction n arbitrary: d)
  case (Suc n)
  show ?case
    using Suc.IH
    by (auto simp: device_open_io_def device_open_packet_out_def split: prod.splits result.splits)
qed simp

lemma host_drain:
  "ho_state h \<noteq> HostInitial \<Longrightarrow> io_drain (host_open_io B G) n h buf sz =
     (case channel_drain Host n (ho_channel h) (ho_send_buffer h) sz of (packets, ch) \<Rightarrow> (packets, h\<lparr>ho_channel := ch\<rparr>))"
proof (induction n arbitrary: h)
  case (Suc n)
  then show ?case
    by (auto simp: host_open_io_def host_open_packet_out_def host_open_start_def host_open_packet_out_ready_def
        split: prod.splits result.splits)
qed simp

lemma host_drain_start:
  assumes "ho_state h = HostInitial" "host_open_start h = (Ok (), h')" "channel_packet_out_ready (ho_channel h')"
  shows "io_drain (host_open_io B G) (Suc n) h buf sz = io_drain (host_open_io B G) (Suc n) h' buf sz"
proof -
  have h': "ho_state h' = SendingInitiationRequest"
    using assms(1,2) by (auto simp: host_open_start_def and_then_st_eq_Ok case_prod_unfold Let_def)
  then have "host_open_packet_out h p = host_open_packet_out h' p" for p
    using assms(2) by (simp add: host_open_packet_out_def host_open_start_def)
  then show ?thesis
    using assms h' by (simp add: host_open_io_def host_open_packet_out_ready_def)
qed

text \<open>Packets that complete no message pass through to the channel.\<close>

definition quiet :: "packet_in_result thp_result \<Rightarrow> bool" where
  "quiet x \<longleftrightarrow> x = Ok (pir_accept False) \<or> x = Ok pir_ack"

lemma device_feed:
  assumes "list_all quiet results"
    and "channel_feed Device (do_channel d) packets (do_receive_buffer d) = (results, (ch, rb))"
  shows "io_feed (device_open_io B) d packets buf = (results, (d\<lparr>do_channel := ch, do_receive_buffer := rb\<rparr>, buf))"
  using assms
proof (induction packets arbitrary: d results)
  case (Cons p packets)
  obtain res ch1 rb1 where p: "channel_packet_in Device (do_channel d) p (do_receive_buffer d) = (res, (ch1, rb1))"
    by (metis prod.exhaust)
  obtain rest where rest: "results = res # rest" "channel_feed Device ch1 packets rb1 = (rest, (ch, rb))"
    using Cons.prems(2) p by (auto split: prod.splits)
  have "quiet res" using Cons.prems(1) rest(1) by simp
  then have "device_open_packet_in B d p = (res, d\<lparr>do_channel := ch1, do_receive_buffer := rb1\<rparr>)"
    using p by (auto simp: device_open_packet_in_def quiet_def pir_accept_def pir_ack_def)
  then show ?case
    using Cons.IH [of rest "d\<lparr>do_channel := ch1, do_receive_buffer := rb1\<rparr>"] Cons.prems(1) rest
    by (simp add: device_open_io_def)
qed simp

lemma host_feed:
  assumes "list_all quiet results" "ho_state h \<noteq> HostInitial"
    and "channel_feed Host (ho_channel h) packets (ho_receive_buffer h) = (results, (ch, rb))"
  shows "io_feed (host_open_io B G) h packets buf = (results, (h\<lparr>ho_channel := ch, ho_receive_buffer := rb\<rparr>, buf))"
  using assms
proof (induction packets arbitrary: h results)
  case (Cons p packets)
  obtain res ch1 rb1 where p: "channel_packet_in Host (ho_channel h) p (ho_receive_buffer h) = (res, (ch1, rb1))"
    by (metis prod.exhaust)
  obtain rest where rest: "results = res # rest" "channel_feed Host ch1 packets rb1 = (rest, (ch, rb))"
    using Cons.prems(3) p by (auto split: prod.splits)
  have "quiet res" using Cons.prems(1) rest(1) by simp
  then have "host_open_packet_in B G h p = (res, h\<lparr>ho_channel := ch1, ho_receive_buffer := rb1\<rparr>)"
    using p Cons.prems(2) by (auto simp: host_open_packet_in_def quiet_def pir_accept_def pir_ack_def)
  then show ?case
    using Cons.IH [of rest "h\<lparr>ho_channel := ch1, ho_receive_buffer := rb1\<rparr>"] Cons.prems(1,2) rest
    by (simp add: host_open_io_def)
qed simp

lemma io_feed_append:
  "io_feed io s (xs @ ys) buf =
     (case io_feed io s xs buf of (res, (s, buf)) \<Rightarrow>
      case io_feed io s ys buf of (res', st) \<Rightarrow> (res @ res', st))"
  by (induction xs arbitrary: s buf) (auto split: prod.splits)

lemma channel_feed_append:
  "channel_feed r ch (xs @ ys) buf =
     (case channel_feed r ch xs buf of (res, (ch, buf)) \<Rightarrow>
      case channel_feed r ch ys buf of (res', st) \<Rightarrow> (res @ res', st))"
  by (induction xs arbitrary: ch buf) (auto split: prod.splits)

lemma channel_feed_length: "length (fst (channel_feed r ch packets buf)) = length packets"
  by (induction packets arbitrary: ch buf) (auto simp: case_prod_unfold Let_def)

lemma channel_feed_last:
  assumes "channel_feed r ch packets buf = (results @ [res], st)"
  obtains ps p ch1 buf1 where "packets = ps @ [p]" "channel_feed r ch ps buf = (results, (ch1, buf1))"
    "channel_packet_in r ch1 p buf1 = (res, st)"
proof -
  have "length packets = Suc (length results)"
    using channel_feed_length [of r ch packets buf] assms by simp
  then obtain ps p where ps: "packets = ps @ [p]" "length ps = length results"
    by (metis append_butlast_last_id diff_Suc_1 length_butlast length_greater_0_conv zero_less_Suc)
  obtain results1 ch1 buf1 where f: "channel_feed r ch ps buf = (results1, (ch1, buf1))" by (metis prod.exhaust)
  moreover have "length results1 = length results"
    using channel_feed_length [of r ch ps buf] f ps(2) by simp
  ultimately show thesis
    using that [of ps p ch1 buf1] assms ps by (auto simp: channel_feed_append split: prod.splits)
qed

lemma device_feed_message:
  assumes "channel_feed Device (do_channel d) packets (do_receive_buffer d) = (results @ [Ok (pir_accept True)], (ch, rb))"
    and "list_all quiet results"
    and "device_message_received B (d\<lparr>do_channel := ch, do_receive_buffer := rb\<rparr>) (pir_accept True) = (res, d')"
  shows "io_feed (device_open_io B) d packets buf = (results @ [res], (d', buf))"
proof -
  obtain ps p ch1 rb1 where ps: "packets = ps @ [p]"
    "channel_feed Device (do_channel d) ps (do_receive_buffer d) = (results, (ch1, rb1))"
    "channel_packet_in Device ch1 p rb1 = (Ok (pir_accept True), (ch, rb))"
    by (rule channel_feed_last [OF assms(1)])
  have "device_open_packet_in B (d\<lparr>do_channel := ch1, do_receive_buffer := rb1\<rparr>) p = (res, d')"
    using ps(3) assms(3) by (simp add: device_open_packet_in_def pir_accept_def)
  then show ?thesis
    using device_feed [OF assms(2) ps(2), of B buf] ps(1) by (simp add: io_feed_append device_open_io_def)
qed

lemma host_feed_message:
  assumes "channel_feed Host (ho_channel h) packets (ho_receive_buffer h) = (results @ [Ok (pir_accept True)], (ch, rb))"
    and "list_all quiet results" "ho_state h \<noteq> HostInitial"
    and "host_message_received B G (h\<lparr>ho_channel := ch, ho_receive_buffer := rb\<rparr>) (pir_accept True) = (res, h')"
  shows "io_feed (host_open_io B G) h packets buf = (results @ [res], (h', buf))"
proof -
  obtain ps p ch1 rb1 where ps: "packets = ps @ [p]"
    "channel_feed Host (ho_channel h) ps (ho_receive_buffer h) = (results, (ch1, rb1))"
    "channel_packet_in Host ch1 p rb1 = (Ok (pir_accept True), (ch, rb))"
    by (rule channel_feed_last [OF assms(1)])
  have "host_open_packet_in B G (h\<lparr>ho_channel := ch1, ho_receive_buffer := rb1\<rparr>) p = (res, h')"
    using ps(3) assms(3,4) by (simp add: host_open_packet_in_def pir_accept_def)
  then show ?thesis
    using host_feed [OF assms(2,3) ps(2), of B G buf] ps(1) by (simp add: io_feed_append host_open_io_def)
qed

section \<open>One turn\<close>

text \<open>A channel during the handshake, without piggybacking and between two messages.\<close>

definition hs_channel ::
  "u16 \<Rightarrow> bool \<Rightarrow> bool \<Rightarrow> bool \<Rightarrow> 'c noise_ciphers option \<Rightarrow> sync_bits option \<Rightarrow> send_state \<Rightarrow> 'c channel" where
  "hs_channel c can rq sq nc ack st =
     \<lparr>channel_id = c,
      channel_sync_state = \<lparr>can_send = can, sync_receive = rq, sync_send = sq, ack_piggybacking = False\<rparr>,
      channel_noise = nc, send_ack = ack, send_state = st, receive_state = ReceiveIdle,
      channel_phase = PairingCredential Unpaired\<rparr>"

lemma hs_channel_simps [simp]:
  "channel_id (hs_channel c can rq sq nc ack st) = c" "channel_noise (hs_channel c can rq sq nc ack st) = nc"
  "send_ack (hs_channel c can rq sq nc ack st) = ack" "send_state (hs_channel c can rq sq nc ack st) = st"
  "receive_state (hs_channel c can rq sq nc ack st) = ReceiveIdle"
  "is_failed (hs_channel c can rq sq nc ack st) = (st = SendFailed)"
  "is_sending (hs_channel c can rq sq nc ack st) = (\<exists>f n. st = Sending f n)"
  "(hs_channel c can rq sq nc ack st)\<lparr>channel_noise := nc'\<rparr> = hs_channel c can rq sq nc' ack st"
  "(hs_channel c can rq sq nc ack st)\<lparr>send_state := st'\<rparr> = hs_channel c can rq sq nc ack st'"
  by (auto simp: hs_channel_def is_failed_def is_sending_iff)

lemma channel_new_hs: "channel_new c = hs_channel c True False False None None SendIdle"
  by (simp add: channel_new_def hs_channel_def channel_sync_new_def)

abbreviation ack_of :: "bool \<Rightarrow> sync_bits" where
  "ack_of b \<equiv> with_ack_bit sync_bits_new b"

abbreviation seq_of :: "bool \<Rightarrow> sync_bits" where
  "seq_of b \<equiv> with_seq_bit sync_bits_new b"

abbreviation sent_all :: "role \<Rightarrow> header \<Rightarrow> sync_bits \<Rightarrow> bytes \<Rightarrow> send_state" where
  "sent_all r h sb payload \<equiv> Sending (frag_state r h sb payload (length payload + CHECKSUM_LEN)) 0"

lemma raw_in_hs:
  assumes "sendable r h (seq_of sq) payload"
  shows "raw_in_ext (hs_channel c True rq sq nc ack SendIdle) h payload b =
    (Ok (), hs_channel c True rq sq nc ack (Sending (frag_state r h (seq_of sq) payload 0) 0))"
  using fragmenter_new_state [OF assms]
  by (simp add: raw_in_ext_def hs_channel_def send_start_def is_ack_piggybacking_allowed_def Let_def)

lemma raw_out_hs:
  assumes "sendable r h sb payload"
  shows "raw_out ((hs_channel c can rq sq nc ack st)\<lparr>receive_state :=
        Receiving (reas_state r h sb payload (length payload + CHECKSUM_LEN))\<rparr>) (msg_stream r h sb payload @ rest) =
    (Ok (h, length payload), hs_channel c can (\<not> rq) sq nc (Some (ack_of rq)) st)"
  using reassembler_verify_state [OF assms] reassembler_done_state [OF assms]
  by (simp add: raw_out_def hs_channel_def receive_acknowledge_def get_ack_bit_def bool_previous_def bool_increment_def Let_def)
    (simp add: reas_state_def)

lemma drain_first:
  assumes s: "sendable r h sb payload" and sz: "MIN_PACKET_SIZE \<le> sz" and ne: "payload \<noteq> []"
    and uc: "header_channel_id h \<noteq> BROADCAST_CHANNEL_ID" and fuel: "length payload + CHECKSUM_LEN \<le> fuel"
  shows "channel_drain r fuel (hs_channel c True rq sq nc None (Sending (frag_state r h sb payload 0) 0)) payload sz =
    (packets_from r h sb payload sz 0, hs_channel c False rq sq nc None (sent_all r h sb payload))"
  by (subst channel_drain_sending [OF s sz ne _ _ uc, where p = 0 and n = 0])
    (use fuel in \<open>simp_all add: hs_channel_def send_finish_def CHECKSUM_LEN_def\<close>)

lemma drain_ack:
  assumes "unicast_valid c" "INIT_LEN + CHECKSUM_LEN \<le> sz"
  shows "channel_packet_out r (hs_channel c can rq sq nc (Some (ack_of k)) st) (replicate sz 0) buf =
    (Ok (), (hs_channel c can rq sq nc None st, packet_at r (Ack c) (ack_of k) [] sz 0))"
  using packet_out_ack(2) [of "hs_channel c can rq sq nc (Some (ack_of k)) st" "ack_of k" sz r buf] assms
  by (simp add: hs_channel_def)

lemma drain_turn:
  assumes s: "sendable r h sb payload" and sz: "INIT_LEN + CHECKSUM_LEN \<le> sz" and ne: "payload \<noteq> []"
    and uc: "header_channel_id h = c" "unicast_valid c" and fuel: "length payload + CHECKSUM_LEN \<le> fuel"
  shows "channel_drain r (Suc fuel)
      (hs_channel c True rq sq nc (Some (ack_of k)) (Sending (frag_state r h sb payload 0) 0)) payload sz =
    (packet_at r (Ack c) (ack_of k) [] sz 0 # packets_from r h sb payload sz 0,
     hs_channel c False rq sq nc None (sent_all r h sb payload))"
proof -
  have min: "MIN_PACKET_SIZE \<le> sz" using sz by (simp add: MIN_PACKET_SIZE_def new_ping_def header_consts CHECKSUM_LEN_def)
  have bc: "header_channel_id h \<noteq> BROADCAST_CHANNEL_ID" using uc by (simp add: unicast_valid_def)
  show ?thesis
    by (simp add: drain_ack [OF uc(2) sz] drain_first [OF s min ne bc fuel] channel_packet_out_ready_def)
qed


lemma feed_ack:
  assumes "unicast_valid c" "INIT_LEN + CHECKSUM_LEN \<le> sz"
  shows "channel_packet_in (peer r) (hs_channel c can rq k nc ack (Sending f n)) (packet_at r (Ack c) (ack_of k) [] sz 0) buf =
    (Ok pir_ack, (hs_channel c True rq (\<not> k) nc ack SendIdle, buf))"
proof -
  have "sendable r (Ack c) (ack_of k) []"
    using assms by (simp add: sendable_def header_control_byte_def header_consts CHECKSUM_LEN_def)
  then show ?thesis
    using packet_in_ack [of r c "ack_of k" sz "hs_channel c can rq k nc ack (Sending f n)" buf] assms(2)
    by (simp add: hs_channel_def is_failed_def is_sending_def)
qed

lemma feed_message:
  assumes s: "sendable r h (seq_of q) payload" and sz: "MIN_PACKET_SIZE \<le> sz" and h: "header_is_handshake h"
    and c: "header_channel_id h = c" and len: "length payload + CHECKSUM_LEN \<le> length buf"
  shows "\<exists>results rest. channel_feed (peer r) (hs_channel c True q sq nc ack SendIdle)
      (packets_from r h (seq_of q) payload sz 0) buf =
    (results @ [Ok (pir_accept True)],
     ((hs_channel c True q sq nc ack SendIdle)\<lparr>receive_state :=
        Receiving (reas_state r h (seq_of q) payload (length payload + CHECKSUM_LEN))\<rparr>,
      msg_stream r h (seq_of q) payload @ rest))
    \<and> list_all quiet results"
proof -
  have "receive_start (channel_sync_state (hs_channel c True q sq nc ack SendIdle)) (seq_of q)"
    by (simp add: hs_channel_def receive_start_iff)
  then have "\<exists>results. channel_feed (peer r) (hs_channel c True q sq nc ack SendIdle)
      (packets_from r h (seq_of q) payload sz 0) buf =
    (results @ [Ok (pir_accept True)],
     ((hs_channel c True q sq nc ack SendIdle)\<lparr>receive_state :=
        Receiving (reas_state r h (seq_of q) payload (length payload + CHECKSUM_LEN))\<rparr>,
      msg_stream r h (seq_of q) payload @ replicate (length buf - (length payload + CHECKSUM_LEN)) 0))
    \<and> list_all (\<lambda>x. x = Ok (pir_accept False)) results"
    by (intro channel_feed_message [OF s sz]) (use h c len in simp_all)
  then show ?thesis by (auto simp: quiet_def elim!: list.pred_mono_strong)
qed

lemma feed_turn:
  assumes s: "sendable r h (seq_of q) payload" and sz: "INIT_LEN + CHECKSUM_LEN \<le> sz" and h: "header_is_handshake h"
    and c: "header_channel_id h = c" "unicast_valid c" and len: "length payload + CHECKSUM_LEN \<le> length buf"
  shows "\<exists>results rest. channel_feed (peer r) (hs_channel c can q k nc ack (Sending f n))
      (packet_at r (Ack c) (ack_of k) [] sz 0 # packets_from r h (seq_of q) payload sz 0) buf =
    (results @ [Ok (pir_accept True)],
     ((hs_channel c True q (\<not> k) nc ack SendIdle)\<lparr>receive_state :=
        Receiving (reas_state r h (seq_of q) payload (length payload + CHECKSUM_LEN))\<rparr>,
      msg_stream r h (seq_of q) payload @ rest))
    \<and> list_all quiet results"
proof -
  have "MIN_PACKET_SIZE \<le> sz" using sz by (simp add: MIN_PACKET_SIZE_def new_ping_def header_consts CHECKSUM_LEN_def)
  then obtain results rest where "channel_feed (peer r) (hs_channel c True q (\<not> k) nc ack SendIdle)
      (packets_from r h (seq_of q) payload sz 0) buf =
    (results @ [Ok (pir_accept True)],
     ((hs_channel c True q (\<not> k) nc ack SendIdle)\<lparr>receive_state :=
        Receiving (reas_state r h (seq_of q) payload (length payload + CHECKSUM_LEN))\<rparr>,
      msg_stream r h (seq_of q) payload @ rest))" "list_all quiet results"
    using feed_message [OF s _ h c(1) len] by blast
  then show ?thesis
    using feed_ack [OF c(2) sz, of r can q k nc ack f n buf]
    by (intro exI [of _ "Ok pir_ack # results"] exI [of _ rest]) (simp add: quiet_def)
qed

section \<open>How the first bytes of a packet are read\<close>

lemma first_packet_bytes:
  assumes s: "sendable r h sb payload"
  obtains cb where "header_control_byte r h sb = Some cb" "control_byte_try_from (cb_byte cb) = Ok cb"
    "\<not> cb_is_codec_v1 cb"
    "packet_at r h sb payload sz 0 = cb_byte cb # u16_to_be (header_channel_id h)
      @ u16_to_be (header_payload_len h) @ packet_body r h sb payload sz 0"
proof -
  have sb: "sync_bits_wf sb" and init: "header_is_init h" using s by (auto simp: sendable_def)
  obtain cb where cb: "header_control_byte r h sb = Some cb" using s by (auto simp: sendable_def)
  show thesis
    using that [OF cb] header_bytes_Cons [OF cb init] header_control_byte_accepted(1,2) [OF cb init sb]
    by (simp add: packet_at_body packet_header_def)
qed

lemma parse_channel_length_first:
  assumes s: "sendable r h sb payload"
    and h: "header_channel_id h = BROADCAST_CHANNEL_ID \<or> header_is_encrypted h \<or> header_is_handshake h"
  obtains cb rest where "control_byte_parse (packet_at r h sb payload sz 0) = Ok (cb, rest)" "\<not> cb_is_codec_v1 cb"
    "parse_channel_length cb (packet_at r h sb payload sz 0) =
       Ok (header_channel_id h, if header_channel_id h = BROADCAST_CHANNEL_ID then None else Some (header_payload_len h))"
proof -
  obtain cb where cb: "header_control_byte r h sb = Some cb" "control_byte_try_from (cb_byte cb) = Ok cb"
    "\<not> cb_is_codec_v1 cb"
    "packet_at r h sb payload sz 0 = cb_byte cb # u16_to_be (header_channel_id h)
      @ u16_to_be (header_payload_len h) @ packet_body r h sb payload sz 0"
    by (rule first_packet_bytes [OF s])
  have wf: "channel_id_valid (header_channel_id h)" "length_valid (header_payload_len h)"
    using s by (simp_all add: sendable_def header_channel_valid init_payload_len_valid)
  have kind: "cb_is_encrypted_transport cb \<or> cb_is_handshake cb" if u: "header_channel_id h \<noteq> BROADCAST_CHANNEL_ID"
  proof -
    have "header_is_encrypted h \<or> header_is_handshake h" using h u by blast
    then obtain cb' where "parse_cb_channel (packet_at r h sb payload sz 0)
        = Ok (cb', header_channel_id h, drop CONT_LEN (packet_at r h sb payload sz 0))"
      "cb_is_handshake cb' \<or> cb_is_encrypted_transport cb'"
      using parse_first_packet [OF s] by metis
    then show ?thesis using cb(4) by (auto simp: parse_cb_channel_Ok dest!: control_byte.expand)
  qed
  have p: "control_byte_parse (packet_at r h sb payload sz 0) = Ok (cb, u16_to_be (header_channel_id h)
      @ u16_to_be (header_payload_len h) @ packet_body r h sb payload sz 0)"
    using cb(2,4) by (simp add: control_byte_parse_Ok)
  have len: "parse_length (u16_to_be (header_payload_len h) @ tl) = Ok (header_payload_len h, tl)" for tl
    using wf(2) by (auto simp: not_less parse_length_def length_valid_def parse_u16_Ok [THEN iffD2])
  show thesis
    using that [OF p cb(3)] kind wf len cb(4) by (simp add: parse_channel_length_def parse_u16_Ok [THEN iffD2])
qed

lemma parse_channel_length_later:
  assumes "0 < p" "channel_id_valid (header_channel_id h)"
  shows "\<exists>rest. control_byte_parse (packet_at r h sb payload sz p) = Ok (cb_continuation, rest)"
    "\<not> cb_is_codec_v1 cb_continuation"
    "parse_channel_length cb_continuation (packet_at r h sb payload sz p) = Ok (header_channel_id h, None)"
  using parse_later_packet [OF assms(1), of r h sb payload sz] assms(2)
  by (auto simp: parse_cb_channel_Ok control_byte_parse_Ok parse_channel_length_def parse_u16_Ok [THEN iffD2])
    (simp_all add: cb_tests cb_makers)

end
