(* ===== verification/Thp_Delivery.thy ===== *)
theory Thp_Delivery
  imports Thp_Exchange
begin

text \<open>
  Two channels in the wrapper \<open>Buffered\<close> against each other: the receive buffer grows with
  the announced length of a message, so that the wrapper delivers every message that the
  protocol can carry.
\<close>

section \<open>The loops of the wrapper\<close>

fun buffered_drain :: "'s channel_io \<Rightarrow> nat \<Rightarrow> 's buffered \<Rightarrow> bytes list \<times> 's buffered" where
  "buffered_drain io 0 b = ([], b)"
| "buffered_drain io (Suc n) b =
     (if io_packet_out_ready io (buf_channel b) then
        (case buffered_packet_out io b of
           (Ok packet, b) \<Rightarrow> let (packets, b) = buffered_drain io n b in (packet # packets, b)
         | (_, b) \<Rightarrow> ([], b))
      else ([], b))"

fun buffered_feed ::
  "'s channel_io \<Rightarrow> 's buffered \<Rightarrow> bytes list \<Rightarrow> packet_in_result thp_result list \<times> 's buffered" where
  "buffered_feed io b [] = ([], b)"
| "buffered_feed io b (packet # packets) =
     (let (res, b) = buffered_packet_in io b packet; (results, b) = buffered_feed io b packets in (res # results, b))"

context channel_io_contract
begin

lemma buffered_drain_wf: "buffered_wf invar b \<Longrightarrow> buffered_wf invar (snd (buffered_drain io n b))"
proof (induction n arbitrary: b)
  case (Suc n)
  obtain res b1 where out: "buffered_packet_out io b = (res, b1)" by fastforce
  have "buffered_wf invar b1" using buffered_packet_out_safe [OF Suc.prems] out by (simp add: safely_def)
  then show ?case using Suc out by (cases res) (simp_all add: case_prod_unfold Let_def)
qed simp

lemma buffered_feed_wf: "buffered_wf invar b \<Longrightarrow> buffered_wf invar (snd (buffered_feed io b packets))"
proof (induction packets arbitrary: b)
  case (Cons p packets)
  obtain res b1 where pin: "buffered_packet_in io b p = (res, b1)" by fastforce
  have "buffered_wf invar b1" using buffered_packet_in_safe [OF Cons.prems, of p] pin by (simp add: safely_def)
  then show ?case using Cons.IH [of b1] pin by (simp add: case_prod_unfold Let_def)
qed simp

end

lemma buffered_drain_io:
  "buffered_drain io n b =
     (case io_drain io n (buf_channel b) (buf_send_buffer b) (buf_packet_len b) of (packets, s) \<Rightarrow> (packets, b\<lparr>buf_channel := s\<rparr>))"
proof (induction n arbitrary: b)
  case (Suc n)
  obtain res s packet where out: "io_packet_out io (buf_channel b) (replicate (buf_packet_len b) 0) (buf_send_buffer b) = (res, (s, packet))"
    by (metis prod.exhaust)
  then show ?case
    using Suc.IH [of "b\<lparr>buf_channel := s\<rparr>"]
    by (cases res) (auto simp: buffered_packet_out_def map_ok_def split: prod.splits)
qed simp

text \<open>Later packets do not announce a length, so that the buffer is resized for the first one only.\<close>

lemma resize_for_later:
  assumes "0 < p" "channel_id_valid (header_channel_id h)"
  shows "resize_for (packet_at r h sb payload sz p) buf = buf"
proof -
  obtain rest where "control_byte_parse (packet_at r h sb payload sz p) = Ok (cb_continuation, rest)"
    using parse_channel_length_later(1) [OF assms] by blast
  then show ?thesis using parse_channel_length_later(3) [OF assms] by (simp add: resize_for_def)
qed

lemma resize_for_first:
  assumes s: "sendable r h sb payload" and h: "header_is_encrypted h" "header_channel_id h \<noteq> BROADCAST_CHANNEL_ID"
  shows "length payload + CHECKSUM_LEN \<le> length (resize_for (packet_at r h sb payload sz 0) buf)"
proof (rule parse_channel_length_first [OF s, where sz = sz])
  fix cb rest
  assume "control_byte_parse (packet_at r h sb payload sz 0) = Ok (cb, rest)"
    and "parse_channel_length cb (packet_at r h sb payload sz 0) = Ok (header_channel_id h,
      if header_channel_id h = BROADCAST_CHANNEL_ID then None else Some (header_payload_len h))"
  then show ?thesis using s h by (auto simp: resize_for_def sendable_def)
qed (use h in simp)

lemma buffered_feed_later:
  assumes "0 < p" "channel_id_valid (header_channel_id h)"
  shows "buffered_feed io b (packets_from r h sb payload sz p) =
    (case io_feed io (buf_channel b) (packets_from r h sb payload sz p) (buf_receive_buffer b) of
       (results, (s, buf)) \<Rightarrow> (results, b\<lparr>buf_channel := s, buf_receive_buffer := buf\<rparr>))"
  using assms(1)
proof (induction "length payload + CHECKSUM_LEN - p" arbitrary: p b rule: less_induct)
  case less
  show ?case
  proof (cases "length payload + CHECKSUM_LEN \<le> p \<or> sz < MIN_PACKET_SIZE")
    case False
    let ?q = "min (p + packet_room sz p) (length payload + CHECKSUM_LEN)"
    have q: "p < ?q" using False packet_room_pos [of sz p] by auto
    have pk: "packets_from r h sb payload sz p = packet_at r h sb payload sz p # packets_from r h sb payload sz ?q"
      using False by (subst packets_from.simps) simp
    obtain res s buf where pin: "io_packet_in io (buf_channel b) (packet_at r h sb payload sz p) (buf_receive_buffer b) = (res, (s, buf))"
      by (metis prod.exhaust)
    have "buffered_packet_in io b (packet_at r h sb payload sz p) = (res, b\<lparr>buf_channel := s, buf_receive_buffer := buf\<rparr>)"
      using pin by (simp add: buffered_packet_in_def resize_for_later [OF less.prems assms(2)])
    moreover have "buffered_feed io (b\<lparr>buf_channel := s, buf_receive_buffer := buf\<rparr>) (packets_from r h sb payload sz ?q) =
      (case io_feed io s (packets_from r h sb payload sz ?q) buf of
         (results, (s, buf)) \<Rightarrow> (results, b\<lparr>buf_channel := s, buf_receive_buffer := buf\<rparr>))"
      by (subst less.hyps) (use q False in auto)
    ultimately show ?thesis using pin pk by (simp split: prod.splits)
  qed (subst (1 2) packets_from.simps, simp)
qed

lemma buffered_feed_message:
  assumes "MIN_PACKET_SIZE \<le> sz" "channel_id_valid (header_channel_id h)"
  shows "buffered_feed io b (packets_from r h sb payload sz 0) =
    (case io_feed io (buf_channel b) (packets_from r h sb payload sz 0)
        (resize_for (packet_at r h sb payload sz 0) (buf_receive_buffer b)) of
       (results, (s, buf)) \<Rightarrow> (results, b\<lparr>buf_channel := s, buf_receive_buffer := buf\<rparr>))"
proof -
  let ?q = "min (0 + packet_room sz 0) (length payload + CHECKSUM_LEN)"
  have q: "0 < ?q" using packet_room_pos [OF assms(1), of 0] by (auto simp: CHECKSUM_LEN_def)
  have pk: "packets_from r h sb payload sz 0 = packet_at r h sb payload sz 0 # packets_from r h sb payload sz ?q"
    using assms(1) by (subst packets_from.simps) (simp add: CHECKSUM_LEN_def)
  obtain res s buf where pin: "io_packet_in io (buf_channel b) (packet_at r h sb payload sz 0)
      (resize_for (packet_at r h sb payload sz 0) (buf_receive_buffer b)) = (res, (s, buf))"
    by (metis prod.exhaust)
  then have "buffered_packet_in io b (packet_at r h sb payload sz 0) = (res, b\<lparr>buf_channel := s, buf_receive_buffer := buf\<rparr>)"
    by (simp add: buffered_packet_in_def)
  then show ?thesis
    using buffered_feed_later [OF q assms(2), of io "b\<lparr>buf_channel := s, buf_receive_buffer := buf\<rparr>" r sb payload sz] pin pk
    by (auto split: prod.splits)
qed

section \<open>Delivery\<close>

text \<open>
  One message: submitted at one end, sent and received, picked up at the other end and
  acknowledged.
\<close>

definition buffered_transfer ::
  "('c, 'h) backend \<Rightarrow> role \<Rightarrow> 'c channel buffered \<Rightarrow> 'c channel buffered \<Rightarrow> u8 \<times> u16 \<times> bytes
     \<Rightarrow> (u8 \<times> u16 \<times> bytes) thp_result \<times> ('c channel buffered \<times> 'c channel buffered)" where
  "buffered_transfer B r a b m =
     (case m of (session_id, message_type, message) \<Rightarrow>
      let (_, a) = buffered_message_in (channel_channel_io B r) a session_id message_type message;
          (packets, a) = buffered_drain (channel_channel_io B r) (length (buf_send_buffer a) + CHECKSUM_LEN) a;
          (_, b) = buffered_feed (channel_channel_io B (peer r)) b packets;
          (received, b) = buffered_message_out (channel_channel_io B (peer r)) b;
          (acks, b) = buffered_drain (channel_channel_io B (peer r)) 1 b;
          (_, a) = buffered_feed (channel_channel_io B r) a acks
      in (received, (a, b)))"

fun buffered_transfers ::
  "('c, 'h) backend \<Rightarrow> role \<Rightarrow> 'c channel buffered \<Rightarrow> 'c channel buffered \<Rightarrow> (u8 \<times> u16 \<times> bytes) list
     \<Rightarrow> (u8 \<times> u16 \<times> bytes) thp_result list \<times> ('c channel buffered \<times> 'c channel buffered)" where
  "buffered_transfers B r a b [] = ([], (a, b))"
| "buffered_transfers B r a b (m # ms) =
     (let (received, (a, b)) = buffered_transfer B r a b m; (rest, st) = buffered_transfers B r a b ms
      in (received # rest, st))"

definition buffered_synced ::
  "('c, 'h) backend \<Rightarrow> role \<Rightarrow> ('c \<Rightarrow> 'c \<Rightarrow> bool) \<Rightarrow> 'c channel buffered \<Rightarrow> 'c channel buffered \<Rightarrow> bool" where
  "buffered_synced B r R a b \<longleftrightarrow>
     channels_synced R (buf_channel a) (buf_channel b)
     \<and> buffered_wf (\<lambda>ch. backend_ok B \<and> channel_wf (peer r) ch) b
     \<and> INIT_LEN + CHECKSUM_LEN \<le> buf_packet_len a \<and> INIT_LEN + CHECKSUM_LEN \<le> buf_packet_len b"

text \<open>The size that the length field of a header can express.\<close>

definition message_admissible :: "u8 \<times> u16 \<times> bytes \<Rightarrow> bool" where
  "message_admissible m \<longleftrightarrow> length (snd (snd m)) + SEND_BUFFER_OVERHEAD + CHECKSUM_LEN \<le> 60000"

lemma buffered_feed_ack:
  assumes "\<And>buf. channel_feed r (buf_channel a) [p] buf = ([res], (ch, buf))"
  shows "buffered_feed (channel_channel_io B r) a [p] =
    ([res], a\<lparr>buf_channel := ch, buf_receive_buffer := resize_for p (buf_receive_buffer a)\<rparr>)"
  using assms [of "resize_for p (buf_receive_buffer a)"] by (auto simp: buffered_packet_in_def split: prod.splits)

lemma buffered_transfer_step:
  assumes aead: "aead_paired B R" and sync: "buffered_synced B r R a b" and fit: "message_admissible m"
  shows "\<exists>a' b'. buffered_transfer B r a b m = (Ok m, (a', b')) \<and> buffered_synced B r R a' b'"
proof -
  obtain sid mt msg where m: "m = (sid, mt, msg)" by (cases m)
  define len where "len = length msg + SEND_BUFFER_OVERHEAD"
  let ?a = "buf_channel a" and ?b = "buf_channel b" and ?sz = "buf_packet_len a" and ?sz' = "buf_packet_len b"
    and ?io = "channel_channel_io B r" and ?io' = "channel_channel_io B (peer r)"
  have cs: "channels_synced R ?a ?b" and wf: "buffered_wf (\<lambda>ch. backend_ok B \<and> channel_wf (peer r) ch) b"
    and sz: "INIT_LEN + CHECKSUM_LEN \<le> ?sz" "INIT_LEN + CHECKSUM_LEN \<le> ?sz'"
    using sync by (simp_all add: buffered_synced_def)
  have min: "MIN_PACKET_SIZE \<le> ?sz" using sz by (simp add: MIN_PACKET_SIZE_def new_ping_def header_consts CHECKSUM_LEN_def)
  have max: "len + CHECKSUM_LEN \<le> 60000" using fit by (simp add: message_admissible_def m len_def)
  show ?thesis
  proof (rule channel_transfer_phases [OF aead cs sz len_def max length_replicate [of len 0], of r sid mt])
    fix h sb ct f a1 na nb
    assume s: "sendable r h sb ct" "header_is_encrypted h" "header_channel_id h = channel_id ?a" "length ct = len"
      and send: "channel_message_in_from B ?a sid mt msg (replicate len 0) = (Ok (), (a1, ct))"
        "channel_drain r (len + CHECKSUM_LEN) a1 ct ?sz = (packets_from r h sb ct ?sz 0, waiting_state ?a na f)"
      and recv: "\<And>rbuf. len + CHECKSUM_LEN \<le> length rbuf \<Longrightarrow> \<exists>results b1 rbuf1 rbuf2.
        channel_feed (peer r) ?b (packets_from r h sb ct ?sz 0) rbuf = (results @ [Ok (pir_accept True)], (b1, rbuf1))
        \<and> list_all (\<lambda>x. x = Ok (pir_accept False)) results
        \<and> channel_message_out B (peer r) b1 rbuf1 = (Ok (sid, mt, msg), (received_state ?b nb, rbuf2))"
      and ack: "\<exists>p. (\<forall>buf. channel_drain (peer r) 1 (received_state ?b nb) buf ?sz' = ([p], (received_state ?b nb)\<lparr>send_ack := None\<rparr>))
        \<and> (\<forall>buf. channel_feed r (waiting_state ?a na f) [p] buf =
          ([Ok pir_ack], (acked_state (waiting_state ?a na f) (sync_send (channel_sync_state ?a)), buf)))"
      and synced: "channels_synced R (acked_state (waiting_state ?a na f) (sync_send (channel_sync_state ?a)))
        ((received_state ?b nb)\<lparr>send_ack := None\<rparr>)"
    let ?a1 = "a\<lparr>buf_channel := a1, buf_send_buffer := ct\<rparr>"
    let ?a2 = "a\<lparr>buf_channel := waiting_state ?a na f, buf_send_buffer := ct\<rparr>"
    have out: "buffered_message_in ?io a sid mt msg = (Ok (), ?a1)"
      "buffered_drain ?io (length ct + CHECKSUM_LEN) ?a1 = (packets_from r h sb ct ?sz 0, ?a2)"
      using send s(4) by (simp_all add: buffered_message_in_def len_def [symmetric] buffered_drain_io io_drain_channel)
    have uc: "header_channel_id h \<noteq> BROADCAST_CHANNEL_ID" "channel_id_valid (header_channel_id h)"
      using s(3) cs by (simp_all add: channels_synced_def unicast_valid_def)
    obtain results b1 rbuf1 rbuf2 where
      fd: "channel_feed (peer r) ?b (packets_from r h sb ct ?sz 0) (resize_for (packet_at r h sb ct ?sz 0) (buf_receive_buffer b)) =
        (results @ [Ok (pir_accept True)], (b1, rbuf1))"
      and mo: "channel_message_out B (peer r) b1 rbuf1 = (Ok (sid, mt, msg), (received_state ?b nb, rbuf2))"
      using recv resize_for_first [OF s(1,2) uc(1)] s(4) by metis
    let ?b1 = "b\<lparr>buf_channel := b1, buf_receive_buffer := rbuf1\<rparr>"
    let ?b2 = "b\<lparr>buf_channel := received_state ?b nb, buf_receive_buffer := replicate INITIAL_BUFFER_LEN 0\<rparr>"
    have feed: "buffered_feed ?io' b (packets_from r h sb ct ?sz 0) = (results @ [Ok (pir_accept True)], ?b1)"
      using fd by (simp add: buffered_feed_message [OF min uc(2)] io_feed_channel)
    then have "buffered_wf (\<lambda>ch. backend_ok B \<and> channel_wf (peer r) ch) ?b1"
      using chan.buffered_feed_wf [OF wf, of "packets_from r h sb ct ?sz 0"] by simp
    then have msg: "buffered_message_out ?io' ?b1 = (Ok (sid, mt, msg), ?b2)"
      and wf2: "buffered_wf (\<lambda>ch. backend_ok B \<and> channel_wf (peer r) ch) ?b2"
      using chan.buffered_message_out_same [of B "peer r" ?b1] chan.buffered_message_out_safe [of B "peer r" ?b1] mo
      by (simp_all add: safely_def)
    obtain p where drained: "\<And>buf. channel_drain (peer r) 1 (received_state ?b nb) buf ?sz' = ([p], (received_state ?b nb)\<lparr>send_ack := None\<rparr>)"
      and p: "\<And>buf. channel_feed r (waiting_state ?a na f) [p] buf =
          ([Ok pir_ack], (acked_state (waiting_state ?a na f) (sync_send (channel_sync_state ?a)), buf))"
      using ack by blast
    have acks: "buffered_drain ?io' 1 ?b2 = ([p], ?b2\<lparr>buf_channel := (received_state ?b nb)\<lparr>send_ack := None\<rparr>\<rparr>)"
      using drained by (simp add: buffered_drain_io io_drain_channel del: channel_drain.simps io_drain.simps One_nat_def)
    have fin: "buffered_feed ?io ?a2 [p] = ([Ok pir_ack],
        ?a2\<lparr>buf_channel := acked_state (waiting_state ?a na f) (sync_send (channel_sync_state ?a)),
          buf_receive_buffer := resize_for p (buf_receive_buffer ?a2)\<rparr>)"
      by (rule buffered_feed_ack) (use p in \<open>simp del: channel_feed.simps\<close>)
    have "buffered_wf (\<lambda>ch. backend_ok B \<and> channel_wf (peer r) ch) (?b2\<lparr>buf_channel := (received_state ?b nb)\<lparr>send_ack := None\<rparr>\<rparr>)"
      using chan.buffered_drain_wf [OF wf2, of 1] acks by simp
    then show ?thesis
      using out feed msg acks fin synced sz
      by (simp add: buffered_transfer_def m buffered_synced_def del: buffered_feed.simps buffered_drain.simps One_nat_def)
  qed
qed


section \<open>Properties\<close>

text \<open>
  The wrapper never panics: whatever packets, messages and other calls it is given, a
  channel in the wrapper keeps its invariant and the receive buffer never gets smaller than
  its initial size.
\<close>
theorem buffered_never_panics:
  assumes "backend_ok B" "channel_wf r ch"
  shows "\<exists>b. buffered_exec_all (channel_channel_io B r) (buffered_new ch) xs = Some b
    \<and> channel_wf r (buf_channel b) \<and> INITIAL_BUFFER_LEN \<le> length (buf_receive_buffer b)"
  using chan.buffered_exec_all_safe [of B r "buffered_new ch" xs] assms by (auto simp: buffered_wf_def buffered_new_def)

text \<open>
  C19. The wrapper delivers everything the protocol can carry: for any packet length that
  holds an acknowledgement, every sequence of messages of up to the admissible size arrives
  in order and unchanged, without any bound on the receive buffer on the side of the caller.
\<close>
theorem buffered_delivers_messages:
  assumes "aead_paired B R" "buffered_synced B r R a b" "list_all message_admissible ms"
  shows "\<exists>a' b'. buffered_transfers B r a b ms = (map Ok ms, (a', b')) \<and> buffered_synced B r R a' b'"
  using assms(2,3)
proof (induction ms arbitrary: a b)
  case (Cons m ms)
  then obtain a1 b1 where "buffered_transfer B r a b m = (Ok m, (a1, b1))" "buffered_synced B r R a1 b1"
    using buffered_transfer_step [OF assms(1), of r a b m] by auto
  then show ?case using Cons.IH [of a1 b1] Cons.prems(2) by auto
qed simp

lemma demo_channel_wf: "channel_wf r demo_channel"
  by (simp add: channel_wf_def demo_channel_def channel_new_def unicast_valid_def channel_id_valid_def header_consts ack_wf_def)

theorem buffered_never_panics_witness:
  "\<exists>b. buffered_exec_all (channel_channel_io plain_backend Host) (buffered_new demo_channel)
      [BufPacketIn [1, 2, 3], BufPacketOut, BufMessageIn 0 55 [1, 2], BufMessageOut] = Some b \<and> channel_wf Host (buf_channel b)"
  using buffered_never_panics [OF plain_backend_ok demo_channel_wf] by blast

theorem buffered_delivers_messages_witness:
  "\<exists>a b. buffered_transfers plain_backend Host (buffered_new demo_channel) (buffered_new demo_channel)
      [(0, 55, [1, 2, 3]), (1, 56, replicate 3000 7)] = ([Ok (0, 55, [1, 2, 3]), Ok (1, 56, replicate 3000 7)], (a, b))"
proof -
  have "buffered_synced plain_backend Host (=) (buffered_new demo_channel) (buffered_new demo_channel)"
    by (simp add: buffered_synced_def plain_backend_ok demo_channel_wf)
      (simp add: demo_synced buffered_new_def DEFAULT_PACKET_LEN_def header_consts CHECKSUM_LEN_def)
  moreover have "list_all message_admissible [(0, 55, [1, 2, 3]), (1, 56, replicate 3000 7)]"
    by (simp add: message_admissible_def SEND_BUFFER_OVERHEAD_def APP_HEADER_LEN_def noise_consts CHECKSUM_LEN_def)
  ultimately show ?thesis using buffered_delivers_messages [OF plain_aead, of Host] by fastforce
qed

end
