(* ===== verification/Thp_Allocation.thy ===== *)
theory Thp_Allocation
  imports Thp_Exchange
begin

text \<open>
  The two multiplexers against each other on the broadcast channel: the allocation of a
  channel up to the two handshake objects, and the keep-alive exchange.
\<close>

section \<open>The broadcast channel\<close>

subsection \<open>Single packets\<close>

lemma sendable_single:
  assumes "length n = unat NONCE_LEN"
  shows "sendable Host ChannelAllocationRequest sync_bits_new n" "sendable Host Ping sync_bits_new n"
    "sendable Device Pong sync_bits_new n"
  using assms by (simp_all add: sendable_def header_control_byte_def header_consts CHECKSUM_LEN_def)

text \<open>A packet on the broadcast channel is not routed, but read by the multiplexer.\<close>

lemma device_mux_broadcast:
  assumes "sendable Host h sb payload" "header_channel_id h = BROADCAST_CHANNEL_ID"
    and "device_handle_broadcast m (packet_at Host h sb payload sz 0) = (Ok b, m')"
  shows "device_mux_packet_in m (packet_at Host h sb payload sz 0) =
    (Ok (if b then pir_channel_allocation else pir_accept False), m')"
proof -
  obtain cb rest where "control_byte_parse (packet_at Host h sb payload sz 0) = Ok (cb, rest)" "\<not> cb_is_codec_v1 cb"
    "parse_channel_length cb (packet_at Host h sb payload sz 0) = Ok (header_channel_id h, None)"
    using parse_channel_length_first [OF assms(1), of sz] assms(2) by auto
  then show ?thesis using assms(2,3) by (simp add: device_mux_packet_in_def)
qed

lemma host_mux_broadcast:
  assumes "sendable Device h sb payload" "header_channel_id h = BROADCAST_CHANNEL_ID"
    and "host_handle_broadcast m (packet_at Device h sb payload sz 0) = (Ok b, m')"
  shows "host_mux_packet_in m (packet_at Device h sb payload sz 0) = (Ok b, m')"
proof -
  obtain cb rest where "control_byte_parse (packet_at Device h sb payload sz 0) = Ok (cb, rest)" "\<not> cb_is_codec_v1 cb"
    "parse_channel_length cb (packet_at Device h sb payload sz 0) = Ok (header_channel_id h, None)"
    using parse_channel_length_first [OF assms(1), of sz] assms(2) by auto
  then show ?thesis using assms(2,3) by (simp add: host_mux_packet_in_def)
qed

lemma packet_at_header:
  assumes "sendable r h sb payload"
  shows "\<exists>rest. header_parse (peer r) (packet_at r h sb payload sz 0) = Ok (h, rest)"
  using assms header_parse_bytes [of h sb r "packet_body r h sb payload sz 0"]
  by (auto simp: sendable_def packet_at_body packet_header_def)

lemma nonce_parse_bytes: "length n = unat NONCE_LEN \<Longrightarrow> nonce_parse (n @ rest) = Ok (Nonce n, rest)"
  by (simp add: nonce_parse_Ok)

subsection \<open>The allocation response\<close>

definition response_payload :: "nonce \<Rightarrow> u16 \<Rightarrow> bytes \<Rightarrow> bytes" where
  "response_payload nonce cid props = nonce_bytes nonce @ u16_to_be cid @ props"

text \<open>A message on the broadcast channel is forgotten once it is sent: there is no acknowledgement.\<close>

lemma drain_broadcast:
  assumes s: "sendable r h sb payload" and sz: "MIN_PACKET_SIZE \<le> sz" and ne: "payload \<noteq> []"
    and ch: "send_ack ch = None" "send_state ch = Sending (frag_state r h sb payload p) n"
    and bc: "header_channel_id h = BROADCAST_CHANNEL_ID"
    and p: "p < length payload + CHECKSUM_LEN" "length payload + CHECKSUM_LEN - p \<le> fuel"
  shows "channel_drain r fuel ch payload sz = (packets_from r h sb payload sz p, ch\<lparr>send_state := SendIdle\<rparr>)"
  using ch p
proof (induction fuel arbitrary: ch p)
  case (Suc fuel)
  define q where "q = min (p + packet_room sz p) (length payload + CHECKSUM_LEN)"
  have q: "p < q" "q \<le> length payload + CHECKSUM_LEN"
    using packet_room_pos [OF sz, of p] Suc.prems(3) by (auto simp: q_def)
  let ?ch = "ch\<lparr>send_state := Sending (frag_state r h sb payload q) n\<rparr>"
  have "frag_header (frag_state r h sb payload q) = h" by (simp add: frag_state_def)
  then have out: "channel_packet_out r ch (replicate sz 0) payload =
      (Ok (), (if q = length payload + CHECKSUM_LEN then ch\<lparr>send_state := SendIdle\<rparr> else ?ch, packet_at r h sb payload sz p))"
    using fragmenter_next_state [OF s _ Suc.prems(3), of "replicate sz 0"] Suc.prems(1,2) sz bc ne q_def
      fragmenter_done_state [OF s, of q]
    by (auto simp: channel_packet_out_def Let_def)
  have ready: "channel_packet_out_ready ch"
    using Suc.prems fragmenter_done_state [OF s, of p] by (simp add: channel_packet_out_ready_def)
  have pk: "packets_from r h sb payload sz p = packet_at r h sb payload sz p # packets_from r h sb payload sz q"
    using Suc.prems(3) sz by (subst packets_from.simps) (simp add: q_def)
  show ?case
  proof (cases "q = length payload + CHECKSUM_LEN")
    case True
    have "channel_drain r fuel (ch\<lparr>send_state := SendIdle\<rparr>) payload sz = ([], ch\<lparr>send_state := SendIdle\<rparr>)"
      using Suc.prems(1) by (cases fuel) (simp_all add: channel_packet_out_ready_def)
    then show ?thesis using ready out pk True by (simp add: packets_from.simps)
  next
    case False
    then show ?thesis
      using Suc.IH [of ?ch q] Suc.prems q ready out pk by simp
  qed
qed simp

lemma response_complete:
  assumes s: "sendable Device h sb (response_payload (Nonce n) cid props)" and n: "length n = unat NONCE_LEN"
    and m: "hm_channel_allocation m = ReceivingResponse u (Nonce n)
        (reas_state Device h sb (response_payload (Nonce n) cid props) (length (response_payload (Nonce n) cid props) + CHECKSUM_LEN))"
      "hm_internal_buffer m = msg_stream Device h sb (response_payload (Nonce n) cid props) @ rest"
  shows "handle_allocation_response m = (Ok pir_channel_allocation,
    m\<lparr>hm_internal_buffer := props, hm_channel_allocation := ReceivedId u cid\<rparr>)"
proof -
  let ?P = "response_payload (Nonce n) cid props"
  have len: "length ?P = unat NONCE_LEN + 2 + length props" using n by (simp add: response_payload_def)
  have buf: "take (length ?P) (hm_internal_buffer m) = ?P" "length ?P \<le> length (hm_internal_buffer m)"
    by (simp_all add: m(2) msg_stream_def)
  then have "take (length props) (drop (unat NONCE_LEN + 2) (hm_internal_buffer m)) = drop (unat NONCE_LEN + 2) ?P"
    using len by (metis add_diff_cancel_left' take_drop drop_take)
  then have "take (length props) (drop (unat NONCE_LEN + 2) (hm_internal_buffer m)) = props"
    using n by (simp add: response_payload_def)
  then have copy: "take (length props) (take 0 (hm_internal_buffer m) @ take (length ?P - (unat NONCE_LEN + 2))
      (drop (unat NONCE_LEN + 2) (hm_internal_buffer m)) @ drop (0 + (length ?P - (unat NONCE_LEN + 2))) (hm_internal_buffer m)) = props"
    using len buf(2) by simp
  have ok: "reassembler_is_done (reas_state Device h sb ?P (length ?P + CHECKSUM_LEN))"
    "reassembler_verify (reas_state Device h sb ?P (length ?P + CHECKSUM_LEN)) (hm_internal_buffer m) = Ok (length ?P)"
    using reassembler_done_state [OF s] reassembler_verify_state [OF s] by (simp_all add: m(2))
  have parse: "nonce_parse ?P = Ok (Nonce n, u16_to_be cid @ props)" "parse_u16 (u16_to_be cid @ props) = Ok (cid, props)"
    using n by (simp_all add: response_payload_def nonce_parse_bytes parse_u16_Ok)
  show ?thesis
    unfolding handle_allocation_response_def m(1)
    using ok parse copy len buf by (simp add: copy_within_def slice_to_def)
qed

text \<open>The state of the multiplexer when the first \<open>p\<close> bytes of the response have come.\<close>

definition receiving_response :: "nonce \<Rightarrow> header \<Rightarrow> sync_bits \<Rightarrow> bytes \<Rightarrow> bytes \<Rightarrow> bool \<Rightarrow> nat \<Rightarrow> 'r host_mux \<Rightarrow> 'r host_mux" where
  "receiving_response nonce h sb payload buffer u p m =
     m\<lparr>hm_internal_buffer := take p (msg_stream Device h sb payload) @ drop p buffer,
       hm_channel_allocation := ReceivingResponse u nonce (reas_state Device h sb payload p)\<rparr>"

lemma response_step:
  assumes s: "sendable Device h sb payload" "payload = response_payload (Nonce n) cid props" and n: "length n = unat NONCE_LEN"
    and p: "p \<le> length payload + CHECKSUM_LEN"
  shows "handle_allocation_response (receiving_response (Nonce n) h sb payload buffer u p m) =
    (if p = length payload + CHECKSUM_LEN
     then (Ok pir_channel_allocation, m\<lparr>hm_internal_buffer := props, hm_channel_allocation := ReceivedId u cid\<rparr>)
     else (Ok (pir_accept False), receiving_response (Nonce n) h sb payload buffer u p m))"
proof (cases "p = length payload + CHECKSUM_LEN")
  case True
  then show ?thesis
    using response_complete [OF s(1) [unfolded s(2)] n, of "receiving_response (Nonce n) h sb payload buffer u p m" u
        "drop p buffer"] s(2)
    by (simp add: receiving_response_def)
next
  case False
  then show ?thesis
    using p reassembler_done_state [OF s(1), of p] by (simp add: handle_allocation_response_def receiving_response_def)
qed

lemma response_first_packet:
  assumes s: "sendable Device h sb payload" "payload = response_payload (Nonce n) cid props" "h = ChannelAllocationResponse l"
    and n: "length n = unat NONCE_LEN" and m: "pending_request (hm_channel_allocation m) = Some (u, Nonce n)"
      "length payload + CHECKSUM_LEN \<le> length (hm_internal_buffer m)"
    and q: "q = min (packet_room sz 0) (length payload + CHECKSUM_LEN)"
  shows "host_mux_packet_in m (packet_at Device h sb payload sz 0) =
    handle_allocation_response (receiving_response (Nonce n) h sb payload (replicate (length (hm_internal_buffer m)) 0) u q m)"
proof -
  let ?z = "replicate (length (hm_internal_buffer m)) 0 :: bytes"
  have new: "reassembler_new Host (packet_at Device h sb payload sz 0) ?z =
      (Ok (reas_state Device h sb payload q), take q (msg_stream Device h sb payload) @ drop q ?z)"
    using reassembler_new_packet [OF s(1), of ?z q sz] m(2) q by simp
  obtain rest where "header_parse Host (packet_at Device h sb payload sz 0) = Ok (h, rest)"
    using packet_at_header [OF s(1), of sz] by auto
  then have "host_handle_broadcast m (packet_at Device h sb payload sz 0) =
      handle_allocation_response (receiving_response (Nonce n) h sb payload ?z u q m)"
    using new m(1) s(3) by (simp add: host_handle_broadcast_def receiving_response_def)
  moreover have "\<exists>b m'. handle_allocation_response (receiving_response (Nonce n) h sb payload ?z u q m) = (Ok b, m')"
    using response_step [OF s(1,2) n, of q ?z u m] q by auto
  ultimately show ?thesis
    using host_mux_broadcast [OF s(1)] s(3) by fastforce
qed

lemma response_later_packet:
  assumes s: "sendable Device h sb payload" "payload = response_payload (Nonce n) cid props" "h = ChannelAllocationResponse l"
    and n: "length n = unat NONCE_LEN" and buf: "length payload + CHECKSUM_LEN \<le> length buffer"
    and p: "0 < p" "p < length payload + CHECKSUM_LEN" and q: "q = min (p + packet_room sz p) (length payload + CHECKSUM_LEN)"
  shows "host_mux_packet_in (receiving_response (Nonce n) h sb payload buffer u p m) (packet_at Device h sb payload sz p) =
    handle_allocation_response (receiving_response (Nonce n) h sb payload buffer u q m)"
proof -
  have bc: "header_channel_id h = BROADCAST_CHANNEL_ID" by (simp add: s(3))
  have "header_parse Host (packet_at Device h sb payload sz p) = Ok (Continuation BROADCAST_CHANNEL_ID, packet_body Device h sb payload sz p)"
    using p(1) bc by (simp add: packet_at_body packet_header_def header_parse_bytes_continuation)
  then have "host_handle_broadcast (receiving_response (Nonce n) h sb payload buffer u p m) (packet_at Device h sb payload sz p) =
      handle_allocation_response (receiving_response (Nonce n) h sb payload buffer u q m)"
    using reassembler_update_packet [OF s(1) buf p q] by (simp add: host_handle_broadcast_def receiving_response_def)
  moreover have "\<exists>b m'. handle_allocation_response (receiving_response (Nonce n) h sb payload buffer u q m) = (Ok b, m')"
    using response_step [OF s(1,2) n, of q buffer u m] q by auto
  moreover have "\<exists>rest. control_byte_parse (packet_at Device h sb payload sz p) = Ok (cb_continuation, rest)"
    "\<not> cb_is_codec_v1 cb_continuation"
    "parse_channel_length cb_continuation (packet_at Device h sb payload sz p) = Ok (BROADCAST_CHANNEL_ID, None)"
    using parse_channel_length_later [OF p(1), of h] bc by simp_all
  ultimately show ?thesis by (auto simp: host_mux_packet_in_def)
qed


lemma host_mux_feed_later:
  assumes s: "sendable Device h sb payload" "payload = response_payload (Nonce n) cid props" "h = ChannelAllocationResponse l"
    and n: "length n = unat NONCE_LEN" and sz: "MIN_PACKET_SIZE \<le> sz" and buf: "length payload + CHECKSUM_LEN \<le> length buffer"
    and p: "0 < p" "p < length payload + CHECKSUM_LEN"
  shows "\<exists>results. io_feed (host_mux_io G) (receiving_response (Nonce n) h sb payload buffer u p m)
      (packets_from Device h sb payload sz p) b =
    (results, (m\<lparr>hm_internal_buffer := props, hm_channel_allocation := ReceivedId u cid\<rparr>, b))"
  using p
proof (induction "length payload + CHECKSUM_LEN - p" arbitrary: p rule: less_induct)
  case less
  define q where "q = min (p + packet_room sz p) (length payload + CHECKSUM_LEN)"
  have q: "p < q" "q \<le> length payload + CHECKSUM_LEN"
    using packet_room_pos [OF sz, of p] less.prems(2) by (auto simp: q_def)
  have pk: "packets_from Device h sb payload sz p = packet_at Device h sb payload sz p # packets_from Device h sb payload sz q"
    using less.prems(2) sz by (subst packets_from.simps) (simp add: q_def)
  note step = response_later_packet [OF s n buf less.prems q_def, of u m, unfolded response_step [OF s(1,2) n q(2)]]
  show ?case
  proof (cases "q = length payload + CHECKSUM_LEN")
    case True
    then show ?thesis using step pk by (simp add: host_mux_io_def packets_from.simps)
  next
    case False
    then obtain results where "io_feed (host_mux_io G) (receiving_response (Nonce n) h sb payload buffer u q m)
        (packets_from Device h sb payload sz q) b =
      (results, (m\<lparr>hm_internal_buffer := props, hm_channel_allocation := ReceivedId u cid\<rparr>, b))"
      using less.hyps [of q] q less.prems by (auto simp: diff_less_mono2)
    then show ?thesis using step pk False by (simp add: host_mux_io_def)
  qed
qed

lemma host_mux_feed_response:
  assumes s: "sendable Device h sb payload" "payload = response_payload (Nonce n) cid props" "h = ChannelAllocationResponse l"
    and n: "length n = unat NONCE_LEN" and sz: "MIN_PACKET_SIZE \<le> sz"
    and m: "pending_request (hm_channel_allocation m) = Some (u, Nonce n)" "length payload + CHECKSUM_LEN \<le> length (hm_internal_buffer m)"
  shows "\<exists>results. io_feed (host_mux_io G) m (packets_from Device h sb payload sz 0) b =
    (results, (m\<lparr>hm_internal_buffer := props, hm_channel_allocation := ReceivedId u cid\<rparr>, b))"
proof -
  let ?z = "replicate (length (hm_internal_buffer m)) 0 :: bytes"
  define q where "q = min (packet_room sz 0) (length payload + CHECKSUM_LEN)"
  have q: "0 < q" "q \<le> length payload + CHECKSUM_LEN"
    using packet_room_pos [OF sz, of 0] by (auto simp: q_def CHECKSUM_LEN_def)
  have pk: "packets_from Device h sb payload sz 0 = packet_at Device h sb payload sz 0 # packets_from Device h sb payload sz q"
    using sz by (subst packets_from.simps) (simp add: q_def CHECKSUM_LEN_def)
  note step = response_first_packet [OF s n m q_def, unfolded response_step [OF s(1,2) n q(2)]]
  show ?thesis
  proof (cases "q = length payload + CHECKSUM_LEN")
    case True
    then show ?thesis using step pk by (simp add: host_mux_io_def packets_from.simps)
  next
    case False
    then show ?thesis
      using host_mux_feed_later [OF s n sz, of ?z q G u m b] m(2) q step pk by (auto simp: host_mux_io_def)
  qed
qed

section \<open>Opening a channel\<close>

text \<open>
  One end sends all it has and the link delivers it. No message of the handshake needs more
  packets than the larger buffer has bytes, one more for an acknowledgement.
\<close>

definition io_pass ::
  "'s channel_io \<Rightarrow> 't channel_io \<Rightarrow> nat \<Rightarrow> 's \<Rightarrow> 't \<Rightarrow> packet_in_result thp_result list \<times> ('s \<times> 't)" where
  "io_pass io io' sz s t =
     (let (packets, s) = io_drain io (Suc HANDSHAKE_BUFFER_HTD_LEN) s [] sz;
          (results, (t, _)) = io_feed io' t packets []
      in (results, (s, t)))"

definition allocation_run ::
  "('c, 'h) backend \<Rightarrow> 'r generator \<Rightarrow> nat \<Rightarrow> bool \<Rightarrow> u16 \<Rightarrow> credential_verifier \<Rightarrow> credential_store
     \<Rightarrow> 'r host_mux \<Rightarrow> device_mux
     \<Rightarrow> (('c, 'h, 'r) host_open \<times> ('c, 'h) device_open) thp_result \<times> ('r host_mux \<times> device_mux)" where
  "allocation_run B G sz try_to_unlock cid verify store m dm =
     (let (_, (m, dm)) = io_pass (host_mux_io G) device_mux_io sz (request_channel try_to_unlock m) dm;
          (opened, dm) = device_channel_alloc B dm cid verify
      in and_then_st (opened, (m, dm)) (\<lambda>d (m, dm).
         let (_, (d, m)) = io_pass (device_open_io B) (host_mux_io G) sz d m;
             (res, m) = host_channel_alloc B m store
         in (map_ok (\<lambda>h. (h, d)) res, (m, dm))))"

lemma device_reads_request:
  assumes "length n = unat NONCE_LEN" "INIT_LEN + unat NONCE_LEN + CHECKSUM_LEN \<le> sz"
  shows "device_mux_packet_in dm (packet_at Host ChannelAllocationRequest sync_bits_new n sz 0) =
    (Ok pir_channel_allocation, dm\<lparr>dm_new_channel := Some (Nonce n)\<rparr>)"
proof -
  note s = sendable_single(1) [OF assms(1)]
  have "reassembler_single Device (packet_at Host ChannelAllocationRequest sync_bits_new n sz 0) = Ok (ChannelAllocationRequest, n)"
    using reassembler_single_packet [OF s, of sz] assms by simp
  then have "device_handle_broadcast dm (packet_at Host ChannelAllocationRequest sync_bits_new n sz 0) =
      (Ok True, dm\<lparr>dm_new_channel := Some (Nonce n)\<rparr>)"
    using assms(1) nonce_parse_bytes [OF assms(1), of "[]"] by (simp add: device_handle_broadcast_def)
  then show ?thesis using device_mux_broadcast [OF s] by simp
qed

lemma allocation_request:
  assumes G: "generator_ok G" and sz: "INIT_LEN + unat NONCE_LEN + CHECKSUM_LEN \<le> sz" and m: "hm_ping m \<noteq> SendingPing"
  obtains n t where "length n = unat NONCE_LEN"
    "io_pass (host_mux_io G) device_mux_io sz (request_channel u m) dm =
      ([Ok pir_channel_allocation],
       (m\<lparr>hm_channel_allocation := SentRequest u (Nonce n), hm_random := t\<rparr>, dm\<lparr>dm_new_channel := Some (Nonce n)\<rparr>))"
proof -
  obtain n t where r: "random_bytes G (hm_random m) (unat NONCE_LEN) = (n, t)" by fastforce
  then have n: "length n = unat NONCE_LEN" using G unfolding generator_ok_def by (metis fst_conv)
  let ?m = "m\<lparr>hm_channel_allocation := SentRequest u (Nonce n), hm_random := t\<rparr>"
  have out: "host_mux_packet_out G (request_channel u m) (replicate sz 0) =
      (Ok (), (?m, packet_at Host ChannelAllocationRequest sync_bits_new n sz 0))"
    using fragmenter_single_packet [OF sendable_single(1) [OF n], of "replicate sz 0"] n sz r
    by (simp add: host_mux_packet_out_def request_channel_def nonce_random_def new_channel_request_def)
  have idle: "io_drain (host_mux_io G) k ?m b sz = ([], ?m)" for k b
    using m by (cases k) (simp_all add: host_mux_io_def host_mux_packet_out_ready_def)
  have "io_drain (host_mux_io G) (Suc k) (request_channel u m) [] sz =
      ([packet_at Host ChannelAllocationRequest sync_bits_new n sz 0], ?m)" for k
    using out idle [of k "[]"] by (simp add: host_mux_io_def host_mux_packet_out_ready_def request_channel_def)
  then show thesis
    using that [OF n] device_reads_request [OF n sz] by (simp add: io_pass_def device_mux_io_def del: io_drain.simps)
qed

lemma device_opens:
  assumes c: "unicast_valid c" and n: "length n = unat NONCE_LEN" and props: "length (dm_device_properties dm) \<le> MAX_DEVICE_PROPERTIES_LEN"
    and dm: "dm_new_channel dm = Some (Nonce n)"
  obtains h where "h = ChannelAllocationResponse (header_payload_len h)"
    "sendable Device h (seq_of False) (response_payload (Nonce n) c (dm_device_properties dm))"
    "device_channel_alloc B dm c verify =
       (Ok \<lparr>do_channel = hs_channel c True False False None None
              (Sending (frag_state Device h (seq_of False) (response_payload (Nonce n) c (dm_device_properties dm)) 0) 0),
            do_state = SendingChannelResponse, do_noise = prepare_responder B (dm_device_properties dm),
            do_send_buffer = response_payload (Nonce n) c (dm_device_properties dm),
            do_receive_buffer = prepare_zeroed HANDSHAKE_BUFFER_HTD_LEN, do_cred_verif = verify\<rparr>,
        dm\<lparr>dm_new_channel := None\<rparr>)"
proof -
  let ?P = "response_payload (Nonce n) c (dm_device_properties dm)"
  have len: "length ?P + CHECKSUM_LEN \<le> HANDSHAKE_BUFFER_DTH_LEN" "length ?P + CHECKSUM_LEN \<le> 60000"
    using n props by (simp_all add: response_payload_def HANDSHAKE_BUFFER_DTH_LEN_def max_usize_def MAX_ALLOC_RESPONSE_LEN_def
        noise_consts CHECKSUM_LEN_def header_consts)
  obtain l where l: "validate_len ?P = Ok l" "unat l = length ?P + CHECKSUM_LEN" "length_valid l"
    using len(2) validate_len_wf [of ?P] by (auto simp: validate_len_Ok CHECKSUM_LEN_def)
  then have s: "sendable Device (ChannelAllocationResponse l) (seq_of False) ?P"
    by (simp add: sendable_def header_control_byte_def)
  have "new_channel_response ?P = Ok (ChannelAllocationResponse l)" using l(1) by (simp add: new_header_Ok)
  then have "device_open_new B c (Nonce n) (dm_device_properties dm) verify =
      Ok \<lparr>do_channel = hs_channel c True False False None None
              (Sending (frag_state Device (ChannelAllocationResponse l) (seq_of False) ?P 0) 0),
            do_state = SendingChannelResponse, do_noise = prepare_responder B (dm_device_properties dm),
            do_send_buffer = ?P, do_receive_buffer = prepare_zeroed HANDSHAKE_BUFFER_HTD_LEN, do_cred_verif = verify\<rparr>"
    using len(1) by (simp add: device_open_new_def vec_extend_def response_payload_def raw_in_def channel_new_hs
        raw_in_hs [OF s, unfolded response_payload_def nonce.sel])
  then show thesis
    using that [OF _ s] c dm by (simp add: device_channel_alloc_def unicast_valid_def)
qed

lemma allocation_completes:
  fixes B :: "('c, 'h) backend" and m :: "'r host_mux"
  assumes G: "generator_ok G" and sz: "INIT_LEN + unat NONCE_LEN + CHECKSUM_LEN \<le> sz" and c: "unicast_valid c"
    and m: "hm_ping m \<noteq> SendingPing" "length (hm_internal_buffer m) = MAX_ALLOC_RESPONSE_LEN"
    and props: "length (dm_device_properties dm) \<le> MAX_DEVICE_PROPERTIES_LEN"
    and new: "\<And>t :: 'r. \<exists>h. host_open_new B c store (dm_device_properties dm) u t = Ok h"
  shows "\<exists>h d t. allocation_run B G sz u c verify store m dm =
      (Ok (h, d), (m\<lparr>hm_random := t, hm_channel_allocation := AllocNone,
                     hm_internal_buffer := prepare_zeroed MAX_ALLOC_RESPONSE_LEN\<rparr>, dm\<lparr>dm_new_channel := None\<rparr>))
    \<and> host_open_new B c store (dm_device_properties dm) u t = Ok h
    \<and> do_channel d = channel_new c \<and> do_state d = SendingChannelResponse
    \<and> do_noise d = prepare_responder B (dm_device_properties dm)
    \<and> length (do_receive_buffer d) = HANDSHAKE_BUFFER_HTD_LEN \<and> do_cred_verif d = verify"
proof -
  obtain n t where n: "length n = unat NONCE_LEN"
    and pass1: "io_pass (host_mux_io G) device_mux_io sz (request_channel u m) dm =
      ([Ok pir_channel_allocation],
       (m\<lparr>hm_channel_allocation := SentRequest u (Nonce n), hm_random := t\<rparr>, dm\<lparr>dm_new_channel := Some (Nonce n)\<rparr>))"
    by (rule allocation_request [OF G sz m(1)])
  let ?dm = "dm\<lparr>dm_new_channel := Some (Nonce n)\<rparr>" and ?m = "m\<lparr>hm_channel_allocation := SentRequest u (Nonce n), hm_random := t\<rparr>"
  let ?P = "response_payload (Nonce n) c (dm_device_properties dm)"
  obtain h where h: "h = ChannelAllocationResponse (header_payload_len h)" "sendable Device h (seq_of False) ?P"
    and opened: "device_channel_alloc B ?dm c verify =
       (Ok \<lparr>do_channel = hs_channel c True False False None None (Sending (frag_state Device h (seq_of False) ?P 0) 0),
            do_state = SendingChannelResponse, do_noise = prepare_responder B (dm_device_properties dm),
            do_send_buffer = ?P, do_receive_buffer = prepare_zeroed HANDSHAKE_BUFFER_HTD_LEN, do_cred_verif = verify\<rparr>,
        dm\<lparr>dm_new_channel := None\<rparr>)" (is "_ = (Ok ?d, _)")
    using device_opens [OF c n, of ?dm B verify] props by auto
  have len: "length ?P + CHECKSUM_LEN \<le> MAX_ALLOC_RESPONSE_LEN" "length ?P + CHECKSUM_LEN \<le> Suc HANDSHAKE_BUFFER_HTD_LEN" "?P \<noteq> []"
    using n props by (auto simp: response_payload_def HANDSHAKE_BUFFER_HTD_LEN_def MAX_ALLOC_RESPONSE_LEN_def
        noise_consts CHECKSUM_LEN_def header_consts)
  have min: "MIN_PACKET_SIZE \<le> sz" using sz by (simp add: MIN_PACKET_SIZE_def new_ping_def header_consts CHECKSUM_LEN_def)
  have bc: "header_channel_id h = BROADCAST_CHANNEL_ID" by (subst h(1)) simp
  have "channel_drain Device (Suc HANDSHAKE_BUFFER_HTD_LEN) (do_channel ?d) ?P sz =
      (packets_from Device h (seq_of False) ?P sz 0, (do_channel ?d)\<lparr>send_state := SendIdle\<rparr>)"
    by (rule drain_broadcast [OF h(2) min len(3) _ _ bc, where n = 0]) (use len in \<open>simp_all add: CHECKSUM_LEN_def\<close>)
  then have drain: "io_drain (device_open_io B) (Suc HANDSHAKE_BUFFER_HTD_LEN) ?d [] sz =
      (packets_from Device h (seq_of False) ?P sz 0, ?d\<lparr>do_channel := channel_new c\<rparr>)"
    by (simp add: device_drain channel_new_hs del: io_drain.simps channel_drain.simps)
  obtain results where feed: "io_feed (host_mux_io G) ?m (packets_from Device h (seq_of False) ?P sz 0) [] =
      (results, (?m\<lparr>hm_internal_buffer := dm_device_properties dm, hm_channel_allocation := ReceivedId u c\<rparr>, []))"
    using host_mux_feed_response [OF h(2) refl h(1) n min, of ?m u G "[]"] len(1) m(2) by (auto simp: pending_request_def)
  obtain ho where "host_open_new B c store (dm_device_properties dm) u t = Ok ho" using new by blast
  then show ?thesis
    using pass1 opened drain feed
    by (intro exI [of _ ho] exI [of _ "?d\<lparr>do_channel := channel_new c\<rparr>"] exI [of _ t])
      (simp add: allocation_run_def io_pass_def host_channel_alloc_def prepare_zeroed_def del: io_drain.simps io_feed.simps)
qed

section \<open>Keeping the connection alive\<close>

definition ping_run :: "'r generator \<Rightarrow> nat \<Rightarrow> 'r host_mux \<Rightarrow> device_mux
     \<Rightarrow> packet_in_result thp_result list \<times> ('r host_mux \<times> device_mux)" where
  "ping_run G sz m dm =
     (let (_, (m, dm)) = io_pass (host_mux_io G) device_mux_io sz (host_mux_ping m) dm;
          (results, (dm, m)) = io_pass device_mux_io (host_mux_io G) sz dm m
      in (results, (m, dm)))"

text \<open>
  A ping of the host is answered by the device with the pong the host waits for, and
  afterwards neither end has anything left to do.
\<close>
theorem ping_is_answered:
  assumes G: "generator_ok G" and sz: "INIT_LEN + unat NONCE_LEN + CHECKSUM_LEN \<le> sz"
    and m: "hm_channel_allocation m = AllocNone" and dm: "dm_outgoing dm = []"
  shows "\<exists>t. ping_run G sz m dm = ([Ok pir_pong], (m\<lparr>hm_ping := PingNone, hm_random := t\<rparr>, dm))"
proof -
  obtain n t where r: "random_bytes G (hm_random m) (unat NONCE_LEN) = (n, t)" by fastforce
  then have n: "length n = unat NONCE_LEN" using G unfolding generator_ok_def by (metis fst_conv)
  note s = sendable_single(2,3) [OF n]
  let ?ping = "packet_at Host Ping sync_bits_new n sz 0" and ?pong = "packet_at Device Pong sync_bits_new n sz 0"
  let ?m = "m\<lparr>hm_ping := AwaitingPong (Nonce n), hm_random := t\<rparr>" and ?dm = "dm\<lparr>dm_outgoing := [OutPong (Nonce n)]\<rparr>"
  have single: "reassembler_single Device ?ping = Ok (Ping, n)" "reassembler_single Host ?pong = Ok (Pong, n)"
    using reassembler_single_packet [OF s(1), of sz] reassembler_single_packet [OF s(2), of sz] sz n by simp_all
  note parse = nonce_parse_bytes [OF n, of "[]", simplified]
  have out: "host_mux_packet_out G (host_mux_ping m) (replicate sz 0) = (Ok (), (?m, ?ping))"
    "device_mux_packet_out ?dm (replicate sz 0) = (Ok (), (dm, ?pong))"
    using fragmenter_single_packet [OF s(1), of "replicate sz 0"] fragmenter_single_packet [OF s(2), of "replicate sz 0"] n sz r m dm
    by (simp_all add: host_mux_packet_out_def host_mux_ping_def nonce_random_def new_ping_def new_pong_def device_mux_packet_out_def)
  have idle: "io_drain (host_mux_io G) k ?m b sz = ([], ?m)" "io_drain device_mux_io k dm b sz = ([], dm)" for k b
    using m dm by (cases k; simp add: host_mux_io_def host_mux_packet_out_ready_def device_mux_io_def device_mux_packet_out_ready_def)+
  have drain: "io_drain (host_mux_io G) (Suc k) (host_mux_ping m) [] sz = ([?ping], ?m)"
    "io_drain device_mux_io (Suc k) ?dm [] sz = ([?pong], dm)" for k
    using out idle [of k "[]"]
    by (simp_all add: host_mux_io_def host_mux_packet_out_ready_def host_mux_ping_def device_mux_io_def device_mux_packet_out_ready_def)
  have "device_mux_packet_in dm ?ping = (Ok (pir_accept False), ?dm)"
    using device_mux_broadcast [OF s(1), of dm sz False ?dm] single(1) n parse dm
    by (simp add: device_handle_broadcast_def mux_enqueue_def deque_push_back_def BROADCAST_OUTGOING_QUEUE_LEN_def map_ok_def)
  moreover have "host_mux_packet_in ?m ?pong = (Ok pir_pong, m\<lparr>hm_ping := PingNone, hm_random := t\<rparr>)"
    using host_mux_broadcast [OF s(2), of ?m sz pir_pong] packet_at_header [OF s(2), of sz] single(2) parse
    by (auto simp: host_handle_broadcast_def handle_pong_def)
  ultimately have "io_feed device_mux_io dm [?ping] [] = ([Ok (pir_accept False)], (?dm, []))"
    "io_feed (host_mux_io G) ?m [?pong] [] = ([Ok pir_pong], (m\<lparr>hm_ping := PingNone, hm_random := t\<rparr>, []))"
    by (simp_all add: host_mux_io_def device_mux_io_def)
  then show ?thesis
    using drain by (intro exI [of _ t]) (simp add: ping_run_def io_pass_def del: io_drain.simps io_feed.simps)
qed

theorem ping_is_answered_witness:
  "\<exists>t. ping_run demo_generator 64 (host_mux_new 7) \<lparr>dm_outgoing = [], dm_new_channel = None, dm_device_properties = [9, 9]\<rparr>
    = ([Ok pir_pong], ((host_mux_new 7)\<lparr>hm_ping := PingNone, hm_random := t\<rparr>,
        \<lparr>dm_outgoing = [], dm_new_channel = None, dm_device_properties = [9, 9]\<rparr>))"
  by (rule ping_is_answered [OF demo_generator_ok]) (simp_all add: host_mux_new_def header_consts CHECKSUM_LEN_def)

text \<open>
  A host that has received a channel id and asks for another channel without opening the
  first can no longer be answered: its buffer has been cut to the device properties, so that
  a response that fits one packet is refused as too long and reported as a failure.
\<close>
theorem second_allocation_fails:
  assumes s: "sendable Device h sb (response_payload (Nonce n) cid props)" "h = ChannelAllocationResponse l"
    and sz: "INIT_LEN + length (response_payload (Nonce n) cid props) + CHECKSUM_LEN \<le> sz"
    and m: "hm_channel_allocation m = ReceivedId u0 cid0" "length (hm_internal_buffer m) = length props"
    and req: "host_mux_packet_out G (request_channel u m) packet = (Ok (), (m', packet'))"
  shows "\<exists>m''. host_mux_packet_in m' (packet_at Device h sb (response_payload (Nonce n) cid props) sz 0) =
    (Ok (pir_fail InsufficientBuffer), m'')"
proof -
  let ?P = "response_payload (Nonce n) cid props" and ?z = "replicate (length props) 0 :: bytes"
  obtain nonce where m': "hm_channel_allocation m' = SentRequest u nonce" "length (hm_internal_buffer m') = length props"
    using req m(2) by (auto simp: host_mux_packet_out_def request_channel_def and_then_st_eq_Ok case_prod_unfold Let_def)
  have len: "length props < length ?P + CHECKSUM_LEN" by (simp add: response_payload_def CHECKSUM_LEN_def)
  have room: "length ?P + CHECKSUM_LEN \<le> packet_room sz 0"
    using sz by (simp add: packet_room_def)
  have parse: "header_parse Host (packet_at Device h sb ?P sz 0) = Ok (h, msg_stream Device h sb ?P)"
    using header_parse_bytes [of h sb Device "packet_body Device h sb ?P sz 0"] s room take_packet_body [of ?P 0 Device h sb sz]
    by (simp add: sendable_def packet_at_body packet_header_def)
  have "packet_at Device h sb ?P sz 0 \<noteq> []"
    using first_packet_bytes [OF s(1), of sz] by (metis list.distinct(1))
  then have "reassembler_new Host (packet_at Device h sb ?P sz 0) ?z = (Err InsufficientBuffer, ?z)"
    using parse s(2) len by (cases "packet_at Device h sb ?P sz 0") (simp_all add: reassembler_new_def sync_bits_from_bytes_def)
  then have "host_handle_broadcast m' (packet_at Device h sb ?P sz 0) = (Err InsufficientBuffer, m'\<lparr>hm_internal_buffer := ?z\<rparr>)"
    using parse s(2) m' by (simp add: host_handle_broadcast_def pending_request_def)
  moreover obtain cb rest where "control_byte_parse (packet_at Device h sb ?P sz 0) = Ok (cb, rest)" "\<not> cb_is_codec_v1 cb"
    "parse_channel_length cb (packet_at Device h sb ?P sz 0) = Ok (BROADCAST_CHANNEL_ID, None)"
    using parse_channel_length_first [OF s(1), of sz] s(2) by auto
  ultimately show ?thesis by (simp add: host_mux_packet_in_def)
qed

theorem second_allocation_fails_witness:
  "\<exists>m' packet m''. host_mux_packet_out demo_generator
      (request_channel True ((host_mux_new 7)\<lparr>hm_channel_allocation := ReceivedId True 0x1234, hm_internal_buffer := [9, 9]\<rparr>))
      (replicate 64 0) = (Ok (), (m', packet))
    \<and> host_mux_packet_in m' (packet_at Device (ChannelAllocationResponse 16) sync_bits_new
        (response_payload (Nonce (replicate 8 7)) 0x1235 [9, 9]) 64 0) = (Ok (pir_fail InsufficientBuffer), m'')"
proof -
  let ?m = "(host_mux_new 7)\<lparr>hm_channel_allocation := ReceivedId True 0x1234, hm_internal_buffer := [9, 9]\<rparr> :: u8 host_mux"
  have s: "sendable Host ChannelAllocationRequest sync_bits_new (replicate 8 7)"
    by (rule sendable_single) (simp add: header_consts)
  obtain m' packet where req: "host_mux_packet_out demo_generator (request_channel True ?m) (replicate 64 0) = (Ok (), (m', packet))"
    using fragmenter_single_packet [OF s, of "replicate 64 0"]
    by (simp add: host_mux_packet_out_def request_channel_def nonce_random_def demo_generator_def host_mux_new_def
        new_channel_request_def header_consts CHECKSUM_LEN_def)
  have "sendable Device (ChannelAllocationResponse 16) sync_bits_new (response_payload (Nonce (replicate 8 7)) 0x1235 [9, 9])"
    by (simp add: sendable_def response_payload_def header_control_byte_def length_valid_def header_consts CHECKSUM_LEN_def)
  from second_allocation_fails [OF this refl _ _ _ req] req show ?thesis
    by (auto simp: response_payload_def header_consts CHECKSUM_LEN_def)
qed

end
