(* ===== verification/Thp_Handshake.thy ===== *)
theory Thp_Handshake
  imports Thp_Allocation
begin

text \<open>
  The handshake of a host and a device that are both honest, over a link that delivers: the
  promise of the Noise library for the pattern XX, what each end does with each message, and
  the run from two multiplexers to two synchronized channels.
\<close>

section \<open>The handshake pattern of the library\<close>

text \<open>
  The library's promise for one message: both ends expect \<open>n\<close> bytes around the payload, the
  writer fills its destination and the reader gets the payload back.
\<close>

definition passes ::
  "('c, 'h) backend \<Rightarrow> nat \<Rightarrow> 'h \<Rightarrow> 'h \<Rightarrow> bytes \<Rightarrow> bytes \<Rightarrow> 'h \<Rightarrow> 'h \<Rightarrow> bool" where
  "passes B n w r payload m w' r' \<longleftrightarrow>
     hs_overhead B w = n \<and> hs_overhead B r = n
     \<and> hs_write_message B w payload (replicate (n + length payload) 0) = (Ok (), (w', m))
     \<and> hs_read_message B r m (replicate (length payload) 0) = (Ok (), (r', payload))"

definition INITIATION_RESPONSE_LEN :: nat where
  "INITIATION_RESPONSE_LEN = 2 * PUBKEY_LEN + 2 * TAG_LEN"

definition COMPLETION_REQUEST_OVERHEAD :: nat where
  "COMPLETION_REQUEST_OVERHEAD = PUBKEY_LEN + 2 * TAG_LEN"

text \<open>
  The pattern XX between two honest ends with the same prologue: \<open>e\<close>, then \<open>e, ee, s, es\<close>,
  then \<open>s, se\<close>; both ends complete, know the remote keys, and hold paired ciphers.
\<close>

definition noise_xx_ok :: "('c, 'h) backend \<Rightarrow> ('c \<Rightarrow> 'c \<Rightarrow> bool) \<Rightarrow> bool" where
  "noise_xx_ok B R \<longleftrightarrow>
     (\<forall>props u. \<exists>m1 i1 r1. passes B PUBKEY_LEN (hs_new B True props) (hs_new B False props) [u] m1 i1 r1
      \<and> (\<forall>s mask e. length s = PRIVKEY_LEN \<longrightarrow> length mask = PRIVKEY_LEN \<longrightarrow> length e = PRIVKEY_LEN \<longrightarrow>
          (\<exists>m2 r2 i2. passes B INITIATION_RESPONSE_LEN (hs_set_e B e (hs_set_s_mask B mask (hs_set_s B s r1))) i1 [] m2 r2 i2
           \<and> hs_get_rs B i2 \<noteq> None \<and> hs_get_re B i2 \<noteq> None
           \<and> (\<forall>k cred. length k = PRIVKEY_LEN \<longrightarrow>
               (\<exists>m3 i3 r3. passes B COMPLETION_REQUEST_OVERHEAD (hs_set_s B k i2) r2 cred m3 i3 r3
                \<and> hs_completed B i3 \<and> hs_completed B r3 \<and> hs_get_rs B r3 \<noteq> None
                \<and> R (fst (hs_get_ciphers B i3)) (fst (hs_get_ciphers B r3))
                \<and> R (snd (hs_get_ciphers B r3)) (snd (hs_get_ciphers B i3)))))))"

lemma plain_passes:
  assumes "hs_overhead plain_backend h = n"
  shows "\<exists>m. passes plain_backend n h h p m (Suc h) (Suc h)"
  using assms by (simp add: passes_def plain_backend_def plain_write_def plain_read_def)

lemma plain_xx: "noise_xx_ok plain_backend (=)"
proof -
  let ?B = plain_backend
  have B: "hs_new ?B i props = 0" "hs_set_s ?B k h = h" "hs_set_s_mask ?B k h = h" "hs_set_e ?B k h = h"
    "hs_get_rs ?B h \<noteq> None" "hs_get_re ?B h \<noteq> None" "hs_completed ?B (Suc (Suc (Suc 0)))"
    "hs_get_ciphers ?B h = (0, 0)" for i props k h
    by (simp_all add: plain_backend_def)
  have n: "hs_overhead ?B 0 = PUBKEY_LEN" "hs_overhead ?B (Suc 0) = INITIATION_RESPONSE_LEN"
    "hs_overhead ?B (Suc (Suc 0)) = COMPLETION_REQUEST_OVERHEAD"
    by (simp_all add: plain_backend_def noise_consts INITIATION_RESPONSE_LEN_def COMPLETION_REQUEST_OVERHEAD_def)
  show ?thesis
    unfolding noise_xx_ok_def B prod.sel
    using plain_passes [OF n(1)] plain_passes [OF n(2)] plain_passes [OF n(3)] B(5,6,7) by metis
qed

lemma passes_length: "backend_ok B \<Longrightarrow> passes B n w r payload m w' r' \<Longrightarrow> length m = n + length payload"
  using backend_okD(5) [of B w payload "replicate (n + length payload) 0"] by (simp add: passes_def)

lemma write_message_to_passes:
  "passes B n w r payload m w' r' \<Longrightarrow> n + length payload \<le> k \<Longrightarrow>
     write_message_to B w payload (n + length payload) (replicate k 0) =
       (Ok (), (w', m @ replicate (k - (n + length payload)) 0))"
  by (auto simp: passes_def write_message_to_def min_def)

subsection \<open>The five steps of the crate\<close>

lemma write_initiation_request_passes:
  assumes "passes B PUBKEY_LEN (hs_new B True props) r [of_bool u] m i r'" "PUBKEY_LEN + 1 \<le> k"
  shows "write_initiation_request B props u (replicate k 0) =
    (Ok (i, PUBKEY_LEN + 1), m @ replicate (k - (PUBKEY_LEN + 1)) 0)"
  using write_message_to_passes [OF assms(1), of k] assms
  by (simp add: write_initiation_request_def passes_def)

lemma read_initiation_request_passes:
  assumes "backend_ok B" "passes B PUBKEY_LEN i r [of_bool u] m i' r'"
  shows "read_initiation_request B r m = (Ok u, r')"
  using passes_length [OF assms] assms(2)
  by (auto simp: read_initiation_request_def passes_def)

lemma write_initiation_response_passes:
  assumes "backend_ok B" "INITIATION_RESPONSE_LEN \<le> k"
    and "passes B INITIATION_RESPONSE_LEN
      (hs_set_e B e (hs_set_s_mask B (hash_result B (dh_pubkey B s @ dh_pubkey B e)) (hs_set_s B s r))) i [] m r' i'"
  shows "write_initiation_response B r s e (replicate k 0) =
    (Ok INITIATION_RESPONSE_LEN, (r', m @ replicate (k - INITIATION_RESPONSE_LEN) 0))"
  using write_message_to_passes [OF assms(3), of k] assms backend_okD(10) [OF assms(1)]
  by (simp add: write_initiation_response_def mask_key_def hash_of_two_def to_array_def passes_def)

lemma write_completion_request_passes:
  assumes B: "backend_ok B" and p2: "passes B INITIATION_RESPONSE_LEN w i [] m w' i'"
    and keys: "hs_get_rs B i' = Some rs" "hs_get_re B i' = Some re"
    and cred: "credential_from_store cs re rs new_key = Ok (k, cred)"
    and p3: "passes B COMPLETION_REQUEST_OVERHEAD (hs_set_s B k i') r cred m3 i3 r3" "hs_completed B i3"
    and len: "COMPLETION_REQUEST_OVERHEAD + length cred \<le> length dest"
  shows "write_completion_request B i cs new_key m dest =
    (Ok (\<lparr>nc_encrypt = fst (hs_get_ciphers B i3), nc_decrypt = snd (hs_get_ciphers B i3),
          nc_handshake_hash = hs_get_hash B i3, nc_remote_static_pubkey = rs\<rparr>, COMPLETION_REQUEST_OVERHEAD + length cred),
     (i3, m3 @ replicate (length dest - (COMPLETION_REQUEST_OVERHEAD + length cred)) 0))"
  using write_message_to_passes [OF p3(1) len] passes_length [OF B p2] p2 p3 keys cred backend_okD(8,9) [OF B]
  by (simp add: write_completion_request_def passes_def to_array_def case_prod_unfold Let_def)

lemma write_completion_response_passes:
  assumes B: "backend_ok B" and p3: "passes B COMPLETION_REQUEST_OVERHEAD w r cred m w' r'"
    and r': "hs_completed B r'" "hs_get_rs B r' = Some rs" and len: "length cred \<le> MAX_CREDENTIAL_LEN" "1 + TAG_LEN \<le> k"
    and enc: "encrypt_ad_in_place B (snd (hs_get_ciphers B r')) []
      ([pairing_state_to_u8 (verify rs cred)] @ replicate TAG_LEN 0) 1 = (ct, e')"
  shows "write_completion_response B r m verify (replicate k 0) =
    (Ok (\<lparr>nc_encrypt = e', nc_decrypt = fst (hs_get_ciphers B r'),
          nc_handshake_hash = hs_get_hash B r', nc_remote_static_pubkey = rs\<rparr>, verify rs cred, 1 + TAG_LEN),
     (r', ct @ replicate (k - (1 + TAG_LEN)) 0))"
  using passes_length [OF B p3] p3 r' len enc backend_okD(8,9) [OF B]
  by (simp add: write_completion_response_def passes_def to_array_def case_prod_unfold Let_def noise_encrypt_def min_def)

section \<open>Handshake messages\<close>

definition hs_header :: "handshake_message \<Rightarrow> u16 \<Rightarrow> bytes \<Rightarrow> header" where
  "hs_header phase c m = Handshake phase c (of_nat (length m + CHECKSUM_LEN))"

lemma hs_header_simps [simp]:
  "header_is_handshake (hs_header phase c m)" "header_channel_id (hs_header phase c m) = c"
  "header_handshake_phase (hs_header phase c m) = Some phase"
  by (simp_all add: hs_header_def)

lemma new_handshake_hs:
  assumes "unicast_valid c" "length m + CHECKSUM_LEN \<le> 60000"
  shows "new_handshake c phase m = Ok (hs_header phase c m)"
  using assms by (auto simp: new_header_Ok hs_header_def validate_len_Ok CHECKSUM_LEN_def)

lemma sendable_hs:
  assumes "unicast_valid c" "length m + CHECKSUM_LEN \<le> 60000" "valid_outgoing r phase"
  shows "sendable r (hs_header phase c m) (seq_of q) m"
proof -
  have "validate_len m = Ok (of_nat (length m + CHECKSUM_LEN))"
    using assms(2) by (simp add: validate_len_Ok CHECKSUM_LEN_def)
  from validate_len_wf [OF this] show ?thesis
    using assms(1,3) by (auto simp: sendable_def hs_header_def header_control_byte_def CHECKSUM_LEN_def)
qed

lemma reas_sync_bits_hs:
  assumes "sendable r (hs_header phase c m) sb m"
  shows "reas_sync_bits (reas_state r (hs_header phase c m) sb m p) = sb"
proof -
  have wf: "sync_bits_wf sb" "header_is_init (hs_header phase c m)" using assms by (simp_all add: sendable_def)
  obtain cb where cb: "header_control_byte r (hs_header phase c m) sb = Some cb" using assms by (auto simp: sendable_def)
  show ?thesis
    using header_control_byte_sync_bits [OF cb wf(1)] header_bytes_Cons [OF cb wf(2)] by (simp add: reas_state_def)
qed

text \<open>A channel that has received a whole message and not yet processed it.\<close>

abbreviation received :: "role \<Rightarrow> header \<Rightarrow> bytes \<Rightarrow> bool \<Rightarrow> 'c channel \<Rightarrow> 'c channel" where
  "received r h m q ch \<equiv> ch\<lparr>receive_state := Receiving (reas_state r h (seq_of q) m (length m + CHECKSUM_LEN))\<rparr>"

subsection \<open>What the device does with them\<close>

lemma device_incoming_hs:
  assumes s: "sendable Host (hs_header phase c m) (seq_of q) m"
    and d: "do_channel d = received Host (hs_header phase c m) m q (hs_channel c can q sq nc ack st)"
      "do_receive_buffer d = msg_stream Host (hs_header phase c m) (seq_of q) m @ rest"
  shows "device_incoming_internal B d =
    and_then_st (device_handle_message B
        (d\<lparr>do_channel := hs_channel c can (\<not> q) sq nc (Some (ack_of q)) st, do_receive_buffer := m\<rparr>)
        (seq_of q) (hs_header phase c m))
      (\<lambda>_ d. (Ok (), d\<lparr>do_receive_buffer := prepare_zeroed HANDSHAKE_BUFFER_HTD_LEN\<rparr>))"
proof -
  have "raw_out (do_channel d) (do_receive_buffer d) =
      (Ok (hs_header phase c m, length m), hs_channel c can (\<not> q) sq nc (Some (ack_of q)) st)"
    unfolding d by (rule raw_out_hs [OF s])
  moreover have "receive_state (do_channel d) = Receiving (reas_state Host (hs_header phase c m) (seq_of q) m (length m + CHECKSUM_LEN))"
    by (simp add: d(1))
  moreover have "take (length m) (do_receive_buffer d) = m" by (simp add: d(2) msg_stream_def)
  ultimately show ?thesis
    by (simp add: device_incoming_internal_def reas_sync_bits_hs [OF s])
qed

lemma device_reads_initiation:
  assumes B: "backend_ok B" and c: "unicast_valid c" and p: "passes B PUBKEY_LEN i (do_noise d) [of_bool u] m i' r'"
    and d: "do_state d = SendingChannelResponse"
      "do_channel d = received Host (hs_header InitiationRequest c m) m q (hs_channel c True q sq None ack SendIdle)"
      "do_receive_buffer d = msg_stream Host (hs_header InitiationRequest c m) (seq_of q) m @ rest"
  shows "device_message_received B d (pir_accept True) =
    (Ok (HandshakeKeyRequired u),
     d\<lparr>do_channel := hs_channel c True (\<not> q) sq None (Some (ack_of q)) SendIdle, do_noise := r',
       do_state := StaticKeyRequired u, do_receive_buffer := prepare_zeroed HANDSHAKE_BUFFER_HTD_LEN\<rparr>)"
proof -
  have len: "length m = PUBKEY_LEN + 1" using passes_length [OF B p] by simp
  have s: "sendable Host (hs_header InitiationRequest c m) (seq_of q) m"
    using c len by (intro sendable_hs) (simp_all add: noise_consts CHECKSUM_LEN_def)
  show ?thesis
    using d(1) read_initiation_request_passes [OF B p]
    by (simp add: device_message_received_def device_incoming_hs [OF s d(2,3)] device_handle_message_def
        enable_ack_piggybacking_if_requested_def)
qed

lemma device_answers_initiation:
  assumes B: "backend_ok B" and c: "unicast_valid c"
    and p: "passes B INITIATION_RESPONSE_LEN
      (hs_set_e B e (hs_set_s_mask B (hash_result B (dh_pubkey B s @ dh_pubkey B e)) (hs_set_s B s (do_noise d)))) i [] m r' i'"
    and d: "do_state d = StaticKeyRequired u" "do_channel d = hs_channel c True rq sq None ack SendIdle"
  shows "set_static_key B d s e =
    (Ok (), d\<lparr>do_channel := hs_channel c True rq sq None ack
          (Sending (frag_state Device (hs_header InitiationResponse c m) (seq_of sq) m 0) 0),
        do_noise := r', do_send_buffer := m, do_state := SendingInitiationResponse\<rparr>)"
proof -
  have len: "length m = INITIATION_RESPONSE_LEN" using passes_length [OF B p] by simp
  then have "length m + CHECKSUM_LEN \<le> 60000"
    by (simp add: INITIATION_RESPONSE_LEN_def noise_consts CHECKSUM_LEN_def)
  note hs = new_handshake_hs [OF c this] sendable_hs [OF c this, of Device InitiationResponse sq]
  have "INITIATION_RESPONSE_LEN \<le> HANDSHAKE_BUFFER_DTH_LEN"
    by (simp add: INITIATION_RESPONSE_LEN_def HANDSHAKE_BUFFER_DTH_LEN_def max_usize_def noise_consts
        MAX_ALLOC_RESPONSE_LEN_def CHECKSUM_LEN_def header_consts)
  then show ?thesis
    using d hs write_initiation_response_passes [OF B _ p] len
    by (simp add: raw_in_hs [OF hs(2)] set_static_key_def static_key_required_def send_initiation_response_def device_send_handshake_def
        prepare_zeroed_def raw_in_def)
qed


lemma device_reads_completion:
  assumes B: "backend_ok B" and c: "unicast_valid c"
    and p: "passes B COMPLETION_REQUEST_OVERHEAD i (do_noise d) cred m i' r'"
    and r': "hs_completed B r'" "hs_get_rs B r' = Some rs" and len: "length cred \<le> MAX_CREDENTIAL_LEN"
    and enc: "encrypt_ad_in_place B (snd (hs_get_ciphers B r')) []
      ([pairing_state_to_u8 (do_cred_verif d rs cred)] @ replicate TAG_LEN 0) 1 = (ct, e')"
    and d: "do_state d = SendingInitiationResponse"
      "do_channel d = received Host (hs_header CompletionRequest c m) m q (hs_channel c True q sq None ack SendIdle)"
      "do_receive_buffer d = msg_stream Host (hs_header CompletionRequest c m) (seq_of q) m @ rest"
  shows "device_message_received B d (pir_accept True) =
    (Ok (pir_accept True),
     d\<lparr>do_channel := hs_channel c True (\<not> q) sq
          (Some \<lparr>nc_encrypt = e', nc_decrypt = fst (hs_get_ciphers B r'),
                 nc_handshake_hash = hs_get_hash B r', nc_remote_static_pubkey = rs\<rparr>) (Some (ack_of q))
          (Sending (frag_state Device (hs_header CompletionResponse c ct) (seq_of sq) ct 0) 0),
       do_noise := r', do_send_buffer := ct, do_state := SendingCompletionResponse (do_cred_verif d rs cred),
       do_receive_buffer := prepare_zeroed HANDSHAKE_BUFFER_HTD_LEN\<rparr>)"
proof -
  have m: "length m = COMPLETION_REQUEST_OVERHEAD + length cred" using passes_length [OF B p] by simp
  have s: "sendable Host (hs_header CompletionRequest c m) (seq_of q) m"
    using c m len by (intro sendable_hs) (simp_all add: COMPLETION_REQUEST_OVERHEAD_def noise_consts CHECKSUM_LEN_def)
  have ct: "length ct = 1 + TAG_LEN"
    using backend_okD(1) [OF B, of "snd (hs_get_ciphers B r')" "[]" "[pairing_state_to_u8 (do_cred_verif d rs cred)] @ replicate TAG_LEN 0" 1] enc
    by simp
  then have "length ct + CHECKSUM_LEN \<le> 60000" by (simp add: noise_consts CHECKSUM_LEN_def)
  note hs = new_handshake_hs [OF c this] sendable_hs [OF c this, of Device CompletionResponse sq]
  have "1 + TAG_LEN \<le> HANDSHAKE_BUFFER_DTH_LEN"
    by (simp add: HANDSHAKE_BUFFER_DTH_LEN_def max_usize_def noise_consts MAX_ALLOC_RESPONSE_LEN_def CHECKSUM_LEN_def header_consts)
  then show ?thesis
    using d(1) hs write_completion_response_passes [where verify = "do_cred_verif d", OF B p r' len _ enc] ct
    by (simp add: device_message_received_def device_incoming_hs [OF s d(2,3)] device_handle_message_def
        send_completion_response_def device_send_handshake_def raw_in_def raw_in_hs [OF hs(2)] prepare_zeroed_def)
qed

subsection \<open>What the host does with them\<close>

definition host_start_state ::
  "('c, 'h) backend \<Rightarrow> u16 \<Rightarrow> credential_store \<Rightarrow> bytes \<Rightarrow> bytes \<Rightarrow> 'h \<Rightarrow> 'r \<Rightarrow> ('c, 'h, 'r) host_open" where
  "host_start_state B c store props m i s =
     \<lparr>ho_channel = channel_new c, ho_state = HostInitial, ho_noise = i, ho_send_buffer = m,
      ho_receive_buffer = prepare_zeroed HANDSHAKE_BUFFER_DTH_LEN, ho_device_properties = props,
      ho_cred_store = store, ho_random = s\<rparr>"

lemma host_open_new_passes:
  assumes B: "backend_ok B" and props: "length props \<le> MAX_DEVICE_PROPERTIES_LEN"
    and p: "passes B PUBKEY_LEN (hs_new B True props) r [of_bool u] m i r'"
  shows "host_open_new B c store props u s = Ok (host_start_state B c store props m i s)"
proof -
  have "PUBKEY_LEN + 1 \<le> HANDSHAKE_BUFFER_HTD_LEN"
    by (simp add: HANDSHAKE_BUFFER_HTD_LEN_def noise_consts)
  then show ?thesis
    using write_initiation_request_passes [OF p] passes_length [OF B p] props
    by (simp add: host_open_new_def host_start_state_def vec_from_slice_def vec_extend_def prepare_zeroed_def)
qed

lemma host_starts:
  assumes c: "unicast_valid c" and len: "length m = PUBKEY_LEN + 1"
  shows "host_open_start (host_start_state B c store props m i s) =
    (Ok (), (host_start_state B c store props m i s)\<lparr>ho_channel := hs_channel c True False False None None
         (Sending (frag_state Host (hs_header InitiationRequest c m) (seq_of False) m 0) 0),
       ho_state := SendingInitiationRequest\<rparr>)"
proof -
  have "length m + CHECKSUM_LEN \<le> 60000" using len by (simp add: noise_consts CHECKSUM_LEN_def)
  note hs = new_handshake_hs [OF c this] sendable_hs [OF c this, of Host InitiationRequest False]
  show ?thesis
    using hs by (simp add: host_open_start_def host_start_state_def channel_new_hs raw_in_hs [OF hs(2)])
qed

lemma host_incoming_hs:
  assumes s: "sendable Device (hs_header phase c m) (seq_of q) m"
    and h: "ho_channel h = received Device (hs_header phase c m) m q (hs_channel c can q sq nc ack st)"
      "ho_receive_buffer h = msg_stream Device (hs_header phase c m) (seq_of q) m @ rest"
  shows "host_incoming_internal B G h =
    and_then_st (host_handle_message B G
        (h\<lparr>ho_channel := hs_channel c can (\<not> q) sq nc (Some (ack_of q)) st, ho_receive_buffer := m\<rparr>)
        (hs_header phase c m))
      (\<lambda>_ h. (Ok (), h\<lparr>ho_receive_buffer := prepare_zeroed HANDSHAKE_BUFFER_DTH_LEN\<rparr>))"
proof -
  have "raw_out (ho_channel h) (ho_receive_buffer h) =
      (Ok (hs_header phase c m, length m), hs_channel c can (\<not> q) sq nc (Some (ack_of q)) st)"
    unfolding h by (rule raw_out_hs [OF s])
  moreover have "take (length m) (ho_receive_buffer h) = m" by (simp add: h(2) msg_stream_def)
  ultimately show ?thesis by (simp add: host_incoming_internal_def)
qed

lemma host_reads_response:
  assumes B: "backend_ok B" and c: "unicast_valid c"
    and p2: "passes B INITIATION_RESPONSE_LEN w (ho_noise h) [] m w' i'"
    and keys: "hs_get_rs B i' = Some rs" "hs_get_re B i' = Some re"
    and cred: "credential_from_store (ho_cred_store h) re rs (fst (dh_genkey G (ho_random h))) = Ok (k, cred)"
      "length cred \<le> MAX_CREDENTIAL_LEN"
    and p3: "passes B COMPLETION_REQUEST_OVERHEAD (hs_set_s B k i') r cred m3 i3 r3" "hs_completed B i3"
    and h: "ho_state h = SendingInitiationRequest"
      "ho_channel h = received Device (hs_header InitiationResponse c m) m q (hs_channel c True q sq None ack SendIdle)"
      "ho_receive_buffer h = msg_stream Device (hs_header InitiationResponse c m) (seq_of q) m @ rest"
  shows "host_message_received B G h (pir_accept True) =
    (Ok (pir_accept True),
     h\<lparr>ho_channel := hs_channel c True (\<not> q) sq
          (Some \<lparr>nc_encrypt = fst (hs_get_ciphers B i3), nc_decrypt = snd (hs_get_ciphers B i3),
                 nc_handshake_hash = hs_get_hash B i3, nc_remote_static_pubkey = rs\<rparr>) (Some (ack_of q))
          (Sending (frag_state Host (hs_header CompletionRequest c m3) (seq_of sq) m3 0) 0),
       ho_state := SendingCompletionRequest, ho_noise := i3, ho_send_buffer := m3,
       ho_receive_buffer := prepare_zeroed HANDSHAKE_BUFFER_DTH_LEN, ho_random := snd (dh_genkey G (ho_random h))\<rparr>)"
proof -
  have m: "length m = INITIATION_RESPONSE_LEN" using passes_length [OF B p2] by simp
  have s: "sendable Device (hs_header InitiationResponse c m) (seq_of q) m"
    using c m by (intro sendable_hs) (simp_all add: INITIATION_RESPONSE_LEN_def noise_consts CHECKSUM_LEN_def)
  have m3: "length m3 = COMPLETION_REQUEST_OVERHEAD + length cred" using passes_length [OF B p3(1)] by simp
  then have "length m3 + CHECKSUM_LEN \<le> 60000"
    using cred(2) by (simp add: COMPLETION_REQUEST_OVERHEAD_def noise_consts CHECKSUM_LEN_def)
  note hs = new_handshake_hs [OF c this] sendable_hs [OF c this, of Host CompletionRequest sq]
  have "COMPLETION_REQUEST_OVERHEAD + length cred \<le> length (prepare_zeroed HANDSHAKE_BUFFER_HTD_LEN)"
    using cred(2) by (simp add: COMPLETION_REQUEST_OVERHEAD_def HANDSHAKE_BUFFER_HTD_LEN_def prepare_zeroed_def noise_consts CHECKSUM_LEN_def)
  from write_completion_request_passes [OF B p2 keys cred(1) p3 this] show ?thesis
    using h(1) hs m3
    by (simp add: host_message_received_def host_incoming_hs [OF s h(2,3)] host_handle_message_def
        continue_handshake_def raw_in_def raw_in_hs [OF hs(2)] case_prod_unfold)
qed

lemma host_reads_completion:
  assumes B: "backend_ok B" and c: "unicast_valid c" and m: "length m = 1 + TAG_LEN"
    and dec: "decrypt_ad_in_place B (nc_decrypt nc) [] m (length m) = (Some 1, pt, d')" "take 1 pt = [pairing_state_to_u8 ps]"
    and h: "ho_state h = SendingCompletionRequest"
      "ho_channel h = received Device (hs_header CompletionResponse c m) m q (hs_channel c True q sq (Some nc) ack SendIdle)"
      "ho_receive_buffer h = msg_stream Device (hs_header CompletionResponse c m) (seq_of q) m @ rest"
  shows "host_message_received B G h (pir_accept True) =
    (Ok (pir_accept True),
     h\<lparr>ho_channel := hs_channel c True (\<not> q) sq (Some (nc\<lparr>nc_decrypt := d'\<rparr>)) (Some (ack_of q)) SendIdle,
       ho_state := HostFinished ps, ho_receive_buffer := prepare_zeroed HANDSHAKE_BUFFER_DTH_LEN\<rparr>)"
proof -
  have s: "sendable Device (hs_header CompletionResponse c m) (seq_of q) m"
    using c m by (intro sendable_hs) (simp_all add: noise_consts CHECKSUM_LEN_def)
  have "length pt = length m" using backend_okD(2) [OF B dec(1)] .
  then show ?thesis
    using dec h(1) m
    by (simp add: host_message_received_def host_incoming_hs [OF s h(2,3)] host_handle_message_def
        finish_handshake_def noise_decrypt_def slice_to_def)
qed

section \<open>The run\<close>

definition initiation_run ::
  "('c, 'h) backend \<Rightarrow> 'r generator \<Rightarrow> nat \<Rightarrow> bytes \<Rightarrow> bytes
     \<Rightarrow> ('c, 'h, 'r) host_open \<Rightarrow> ('c, 'h) device_open \<Rightarrow> ('c, 'h, 'r) host_open \<times> ('c, 'h) device_open" where
  "initiation_run B G sz static_privkey ephemeral_privkey h d =
     (let (_, (h, d)) = io_pass (host_open_io B G) (device_open_io B) sz h d;
          (_, d) = set_static_key B d static_privkey ephemeral_privkey;
          (_, (d, h)) = io_pass (device_open_io B) (host_open_io B G) sz d h
      in (h, d))"

definition completion_run ::
  "('c, 'h) backend \<Rightarrow> 'r generator \<Rightarrow> nat
     \<Rightarrow> ('c, 'h, 'r) host_open \<Rightarrow> ('c, 'h) device_open \<Rightarrow> ('c, 'h, 'r) host_open \<times> ('c, 'h) device_open" where
  "completion_run B G sz h d =
     (let (_, (h, d)) = io_pass (host_open_io B G) (device_open_io B) sz h d;
          (_, (d, h)) = io_pass (device_open_io B) (host_open_io B G) sz d h;
          (_, (h, d)) = io_pass (host_open_io B G) (device_open_io B) sz h d
      in (h, d))"

definition handshake_run ::
  "('c, 'h) backend \<Rightarrow> 'r generator \<Rightarrow> nat \<Rightarrow> bytes \<Rightarrow> bytes
     \<Rightarrow> ('c, 'h, 'r) host_open \<Rightarrow> ('c, 'h) device_open \<Rightarrow> ('c, 'h, 'r) host_open \<times> ('c, 'h) device_open" where
  "handshake_run B G sz static_privkey ephemeral_privkey h d =
     (let (h, d) = initiation_run B G sz static_privkey ephemeral_privkey h d in completion_run B G sz h d)"

subsection \<open>The turns\<close>

lemma min_packet_size: "INIT_LEN + CHECKSUM_LEN \<le> sz \<Longrightarrow> MIN_PACKET_SIZE \<le> sz"
  by (simp add: MIN_PACKET_SIZE_def new_ping_def header_consts CHECKSUM_LEN_def)

lemma first_turn:
  fixes B :: "('c, 'h) backend"
  assumes s: "sendable Host hdr (seq_of False) m" "hdr = hs_header InitiationRequest c m" and c: "unicast_valid c"
    and sz: "INIT_LEN + CHECKSUM_LEN \<le> sz" and m: "length m = PUBKEY_LEN + 1"
    and h: "h = host_start_state B c store props m i s0"
    and d: "do_channel d = channel_new c" "length (do_receive_buffer d) = HANDSHAKE_BUFFER_HTD_LEN"
    and recv: "\<And>rest. device_message_received B
        (d\<lparr>do_channel := received Host hdr m False (hs_channel c True False False None None SendIdle),
           do_receive_buffer := msg_stream Host hdr (seq_of False) m @ rest\<rparr>) (pir_accept True) = (res, d')"
  shows "\<exists>results. io_pass (host_open_io B G) (device_open_io B) sz h d =
    (results, (h\<lparr>ho_channel := hs_channel c False False False None None (sent_all Host hdr (seq_of False) m),
                 ho_state := SendingInitiationRequest\<rparr>, d'))"
proof -
  define h1 where "h1 = h\<lparr>ho_channel := hs_channel c True False False None None
       (Sending (frag_state Host hdr (seq_of False) m 0) 0), ho_state := SendingInitiationRequest\<rparr>"
  have start: "host_open_start h = (Ok (), h1)"
    using host_starts [OF c m] by (simp add: h h1_def s(2))
  have ready: "channel_packet_out_ready (ho_channel h1)"
    using fragmenter_done_state [OF s(1), of 0] by (simp add: h1_def channel_packet_out_ready_def CHECKSUM_LEN_def)
  have bc: "header_channel_id hdr \<noteq> BROADCAST_CHANNEL_ID" and ne: "m \<noteq> []"
    using c m by (auto simp: s(2) unicast_valid_def)
  have fuel: "length m + CHECKSUM_LEN \<le> Suc HANDSHAKE_BUFFER_HTD_LEN" "length m + CHECKSUM_LEN \<le> HANDSHAKE_BUFFER_HTD_LEN"
    using m by (simp_all add: HANDSHAKE_BUFFER_HTD_LEN_def noise_consts CHECKSUM_LEN_def)
  have "ho_state h = HostInitial" "ho_state h1 \<noteq> HostInitial" "ho_send_buffer h1 = m"
    by (simp_all add: h host_start_state_def h1_def)
  then have drain: "io_drain (host_open_io B G) (Suc HANDSHAKE_BUFFER_HTD_LEN) h [] sz =
      (packets_from Host hdr (seq_of False) m sz 0,
       h1\<lparr>ho_channel := hs_channel c False False False None None (sent_all Host hdr (seq_of False) m)\<rparr>)"
    using host_drain_start [OF _ start ready] host_drain [of h1 B G "Suc HANDSHAKE_BUFFER_HTD_LEN"]
    by (simp add: h1_def drain_first [OF s(1) min_packet_size [OF sz] ne bc fuel(1)]
        del: io_drain.simps channel_drain.simps)
  obtain results rest where feed: "channel_feed Device (hs_channel c True False False None None SendIdle :: 'c channel)
      (packets_from Host hdr (seq_of False) m sz 0) (do_receive_buffer d) =
    (results @ [Ok (pir_accept True)],
     (received Host hdr m False (hs_channel c True False False None None SendIdle),
      msg_stream Host hdr (seq_of False) m @ rest))" "list_all quiet results"
    using feed_message [OF s(1) min_packet_size [OF sz], of c "do_receive_buffer d"] fuel(2) d(2) s(2)
    by fastforce
  have "io_feed (device_open_io B) d (packets_from Host hdr (seq_of False) m sz 0) [] = (results @ [res], (d', []))"
    by (rule device_feed_message [OF _ feed(2) recv [of rest]]) (simp add: d(1) channel_new_hs feed(1))
  then show ?thesis using drain by (auto simp: io_pass_def h1_def)
qed


lemma host_turn:
  assumes s: "sendable Host hdr (seq_of q) m" "hdr = hs_header phase c m" and c: "unicast_valid c" and m: "m \<noteq> []"
    and sz: "INIT_LEN + CHECKSUM_LEN \<le> sz" and len: "length m + CHECKSUM_LEN \<le> HANDSHAKE_BUFFER_HTD_LEN"
    and h: "ho_state h \<noteq> HostInitial" "ho_send_buffer h = m"
      "ho_channel h = hs_channel c True rq sq nc (Some (ack_of k)) (Sending (frag_state Host hdr (seq_of q) m 0) 0)"
    and d: "do_channel d = hs_channel c can q k nc' None (Sending f n)" "length (do_receive_buffer d) = HANDSHAKE_BUFFER_HTD_LEN"
    and recv: "\<And>rest. device_message_received B
        (d\<lparr>do_channel := received Host hdr m q (hs_channel c True q (\<not> k) nc' None SendIdle),
           do_receive_buffer := msg_stream Host hdr (seq_of q) m @ rest\<rparr>) (pir_accept True) = (res, d')"
  shows "\<exists>results. io_pass (host_open_io B G) (device_open_io B) sz h d =
    (results, (h\<lparr>ho_channel := hs_channel c False rq sq nc None (sent_all Host hdr (seq_of q) m)\<rparr>, d'))"
proof -
  have id: "header_channel_id hdr = c" "header_is_handshake hdr" by (simp_all add: s(2))
  obtain results rest where feed: "channel_feed Device (hs_channel c can q k nc' None (Sending f n))
      (packet_at Host (Ack c) (ack_of k) [] sz 0 # packets_from Host hdr (seq_of q) m sz 0) (do_receive_buffer d) =
    (results @ [Ok (pir_accept True)],
     (received Host hdr m q (hs_channel c True q (\<not> k) nc' None SendIdle), msg_stream Host hdr (seq_of q) m @ rest))"
    "list_all quiet results"
    using feed_turn [OF s(1) sz id(2,1) c, of "do_receive_buffer d" can k nc' None f n] len d(2) by fastforce
  have "io_feed (device_open_io B) d
      (packet_at Host (Ack c) (ack_of k) [] sz 0 # packets_from Host hdr (seq_of q) m sz 0) [] = (results @ [res], (d', []))"
    by (rule device_feed_message [OF _ feed(2) recv [of rest]]) (simp only: d(1) feed(1))
  then show ?thesis
    using h(2,3)
    by (simp add: io_pass_def host_drain [OF h(1)] drain_turn [OF s(1) sz m id(1) c len]
        del: io_drain.simps channel_drain.simps io_feed.simps)
qed

lemma device_turn:
  assumes s: "sendable Device hdr (seq_of q) m" "hdr = hs_header phase c m" and c: "unicast_valid c" and m: "m \<noteq> []"
    and sz: "INIT_LEN + CHECKSUM_LEN \<le> sz" and len: "length m + CHECKSUM_LEN \<le> HANDSHAKE_BUFFER_DTH_LEN"
    and d: "do_send_buffer d = m"
      "do_channel d = hs_channel c True rq sq nc (Some (ack_of k)) (Sending (frag_state Device hdr (seq_of q) m 0) 0)"
    and h: "ho_state h \<noteq> HostInitial" "ho_channel h = hs_channel c can q k nc' None (Sending f n)"
      "length (ho_receive_buffer h) = HANDSHAKE_BUFFER_DTH_LEN"
    and recv: "\<And>rest. host_message_received B G
        (h\<lparr>ho_channel := received Device hdr m q (hs_channel c True q (\<not> k) nc' None SendIdle),
           ho_receive_buffer := msg_stream Device hdr (seq_of q) m @ rest\<rparr>) (pir_accept True) = (res, h')"
  shows "\<exists>results. io_pass (device_open_io B) (host_open_io B G) sz d h =
    (results, (d\<lparr>do_channel := hs_channel c False rq sq nc None (sent_all Device hdr (seq_of q) m)\<rparr>, h'))"
proof -
  have id: "header_channel_id hdr = c" "header_is_handshake hdr" by (simp_all add: s(2))
  have fuel: "length m + CHECKSUM_LEN \<le> HANDSHAKE_BUFFER_HTD_LEN"
    using len by (simp add: HANDSHAKE_BUFFER_HTD_LEN_def HANDSHAKE_BUFFER_DTH_LEN_def max_usize_def MAX_ALLOC_RESPONSE_LEN_def
        noise_consts CHECKSUM_LEN_def header_consts)
  obtain results rest where feed: "channel_feed Host (hs_channel c can q k nc' None (Sending f n))
      (packet_at Device (Ack c) (ack_of k) [] sz 0 # packets_from Device hdr (seq_of q) m sz 0) (ho_receive_buffer h) =
    (results @ [Ok (pir_accept True)],
     (received Device hdr m q (hs_channel c True q (\<not> k) nc' None SendIdle), msg_stream Device hdr (seq_of q) m @ rest))"
    "list_all quiet results"
    using feed_turn [OF s(1) sz id(2,1) c, of "ho_receive_buffer h" can k nc' None f n] len h(3) by fastforce
  have "io_feed (host_open_io B G) h
      (packet_at Device (Ack c) (ack_of k) [] sz 0 # packets_from Device hdr (seq_of q) m sz 0) [] = (results @ [res], (h', []))"
    by (rule host_feed_message [OF _ feed(2) h(1) recv [of rest]]) (simp only: h(2) feed(1))
  then show ?thesis
    using d
    by (simp add: io_pass_def device_drain drain_turn [OF s(1) sz m id(1) c fuel]
        del: io_drain.simps channel_drain.simps io_feed.simps)
qed

lemma last_turn:
  assumes c: "unicast_valid c" and sz: "INIT_LEN + CHECKSUM_LEN \<le> sz"
    and h: "ho_state h \<noteq> HostInitial" "ho_channel h = hs_channel c True rq sq nc (Some (ack_of k)) SendIdle"
    and d: "do_channel d = hs_channel c can q k nc' None (Sending f n)"
  shows "io_pass (host_open_io B G) (device_open_io B) sz h d =
    ([Ok pir_ack], (h\<lparr>ho_channel := hs_channel c True rq sq nc None SendIdle\<rparr>,
                    d\<lparr>do_channel := hs_channel c True q (\<not> k) nc' None SendIdle\<rparr>))"
proof -
  have idle: "channel_drain Host x (hs_channel c True rq sq nc None SendIdle) b sz =
      ([], hs_channel c True rq sq nc None SendIdle)" for x b
    by (cases x) (simp_all add: channel_packet_out_ready_def)
  have "channel_drain Host (Suc x) (hs_channel c True rq sq nc (Some (ack_of k)) SendIdle) b sz =
      ([packet_at Host (Ack c) (ack_of k) [] sz 0], hs_channel c True rq sq nc None SendIdle)" for x b
    by (simp add: channel_packet_out_ready_def drain_ack [OF c sz] idle)
  moreover have "io_feed (device_open_io B) d [packet_at Host (Ack c) (ack_of k) [] sz 0] [] =
      ([Ok pir_ack], (d\<lparr>do_channel := hs_channel c True q (\<not> k) nc' None SendIdle, do_receive_buffer := do_receive_buffer d\<rparr>, []))"
    by (rule device_feed) (use feed_ack [OF c sz, of Host can q k nc' None f n] d in \<open>simp_all add: quiet_def\<close>)
  ultimately show ?thesis
    using h(2)
    by (simp add: io_pass_def host_drain [OF h(1)] del: channel_drain.simps io_drain.simps io_feed.simps)
qed

subsection \<open>The handshake completes\<close>

text \<open>A store returns keys of the right size and credentials that fit the buffers.\<close>

definition store_ok :: "credential_store \<Rightarrow> bool" where
  "store_ok store \<longleftrightarrow> (\<forall>re rs k cred. store re rs = Some (k, cred) \<longrightarrow>
     length k = PRIVKEY_LEN \<and> length cred \<le> MAX_CREDENTIAL_LEN)"

definition stored_credential :: "credential_store \<Rightarrow> bytes \<Rightarrow> bytes \<Rightarrow> bytes" where
  "stored_credential store re rs = (case store re rs of Some (_, cred) \<Rightarrow> cred | None \<Rightarrow> [])"

lemma credential_from_store_ok:
  assumes "store_ok store" "length new_key = PRIVKEY_LEN"
  obtains k where "credential_from_store store re rs new_key = Ok (k, stored_credential store re rs)"
    "length k = PRIVKEY_LEN" "length (stored_credential store re rs) \<le> MAX_CREDENTIAL_LEN"
  using assms unfolding store_ok_def
  by (cases "store re rs") (fastforce simp: credential_from_store_def stored_credential_def not_less)+

lemma xx_transcript:
  assumes B: "backend_ok B" and xx: "noise_xx_ok B R" and G: "generator_ok G" and store: "store_ok store"
    and keys: "length s = PRIVKEY_LEN" "length e = PRIVKEY_LEN"
  obtains m1 i1 r1 m2 r2 i2 rs re k cred m3 i3 r3 rs' where
    "passes B PUBKEY_LEN (hs_new B True props) (hs_new B False props) [u] m1 i1 r1"
    "passes B INITIATION_RESPONSE_LEN
       (hs_set_e B e (hs_set_s_mask B (hash_result B (dh_pubkey B s @ dh_pubkey B e)) (hs_set_s B s r1))) i1 [] m2 r2 i2"
    "hs_get_rs B i2 = Some rs" "hs_get_re B i2 = Some re"
    "credential_from_store store re rs (fst (dh_genkey G t)) = Ok (k, stored_credential store re rs)"
    "length (stored_credential store re rs) \<le> MAX_CREDENTIAL_LEN"
    "passes B COMPLETION_REQUEST_OVERHEAD (hs_set_s B k i2) r2 (stored_credential store re rs) m3 i3 r3"
    "hs_completed B i3" "hs_completed B r3" "hs_get_rs B r3 = Some rs'"
    "R (fst (hs_get_ciphers B i3)) (fst (hs_get_ciphers B r3))"
    "R (snd (hs_get_ciphers B r3)) (snd (hs_get_ciphers B i3))"
proof -
  note xx = xx [unfolded noise_xx_ok_def, rule_format]
  obtain m1 i1 r1 where 1: "passes B PUBKEY_LEN (hs_new B True props) (hs_new B False props) [u] m1 i1 r1"
    and rest: "\<And>s mask e. length s = PRIVKEY_LEN \<Longrightarrow> length mask = PRIVKEY_LEN \<Longrightarrow> length e = PRIVKEY_LEN \<Longrightarrow>
          (\<exists>m2 r2 i2. passes B INITIATION_RESPONSE_LEN (hs_set_e B e (hs_set_s_mask B mask (hs_set_s B s r1))) i1 [] m2 r2 i2
           \<and> hs_get_rs B i2 \<noteq> None \<and> hs_get_re B i2 \<noteq> None
           \<and> (\<forall>k cred. length k = PRIVKEY_LEN \<longrightarrow>
               (\<exists>m3 i3 r3. passes B COMPLETION_REQUEST_OVERHEAD (hs_set_s B k i2) r2 cred m3 i3 r3
                \<and> hs_completed B i3 \<and> hs_completed B r3 \<and> hs_get_rs B r3 \<noteq> None
                \<and> R (fst (hs_get_ciphers B i3)) (fst (hs_get_ciphers B r3))
                \<and> R (snd (hs_get_ciphers B r3)) (snd (hs_get_ciphers B i3)))))"
    using xx [of props u] by metis
  obtain m2 r2 i2 rs re where 2: "passes B INITIATION_RESPONSE_LEN
       (hs_set_e B e (hs_set_s_mask B (hash_result B (dh_pubkey B s @ dh_pubkey B e)) (hs_set_s B s r1))) i1 [] m2 r2 i2"
    "hs_get_rs B i2 = Some rs" "hs_get_re B i2 = Some re"
    and last: "\<And>k cred. length k = PRIVKEY_LEN \<Longrightarrow>
               (\<exists>m3 i3 r3. passes B COMPLETION_REQUEST_OVERHEAD (hs_set_s B k i2) r2 cred m3 i3 r3
                \<and> hs_completed B i3 \<and> hs_completed B r3 \<and> hs_get_rs B r3 \<noteq> None
                \<and> R (fst (hs_get_ciphers B i3)) (fst (hs_get_ciphers B r3))
                \<and> R (snd (hs_get_ciphers B r3)) (snd (hs_get_ciphers B i3)))"
    using rest [OF keys(1) backend_okD(10) [OF B] keys(2)] by blast
  have "length (fst (dh_genkey G t)) = PRIVKEY_LEN" using G by (simp add: generator_ok_def)
  then obtain k where k: "credential_from_store store re rs (fst (dh_genkey G t)) = Ok (k, stored_credential store re rs)"
    "length k = PRIVKEY_LEN" "length (stored_credential store re rs) \<le> MAX_CREDENTIAL_LEN"
    by (rule credential_from_store_ok [OF store])
  show thesis
    using last [OF k(2), of "stored_credential store re rs"] that [OF 1 2 k(1,3)] by blast
qed

lemma hs_channels_synced:
  assumes "unicast_valid c" "R (nc_encrypt a) (nc_decrypt b)"
  shows "channels_synced R ((hs_channel c True False False (Some a) None SendIdle)\<lparr>channel_phase := pa\<rparr>)
    ((hs_channel c True False False (Some b) None SendIdle)\<lparr>channel_phase := pb\<rparr>)"
  using assms by (simp add: channels_synced_def hs_channel_def channel_message_in_ready_def is_failed_def is_sending_def)

lemma buffer_bounds:
  "PUBKEY_LEN + 1 + CHECKSUM_LEN \<le> HANDSHAKE_BUFFER_HTD_LEN"
  "INITIATION_RESPONSE_LEN + CHECKSUM_LEN \<le> HANDSHAKE_BUFFER_DTH_LEN"
  "n \<le> MAX_CREDENTIAL_LEN \<Longrightarrow> COMPLETION_REQUEST_OVERHEAD + n + CHECKSUM_LEN \<le> HANDSHAKE_BUFFER_HTD_LEN"
  "1 + TAG_LEN + CHECKSUM_LEN \<le> HANDSHAKE_BUFFER_DTH_LEN"
  "HANDSHAKE_BUFFER_HTD_LEN \<le> 60000" "HANDSHAKE_BUFFER_DTH_LEN \<le> 60000"
  by (simp_all add: HANDSHAKE_BUFFER_HTD_LEN_def HANDSHAKE_BUFFER_DTH_LEN_def max_usize_def MAX_ALLOC_RESPONSE_LEN_def
      INITIATION_RESPONSE_LEN_def COMPLETION_REQUEST_OVERHEAD_def noise_consts CHECKSUM_LEN_def header_consts)

text \<open>The two ends when the host has read the initiation response.\<close>

definition completion_ready ::
  "u16 \<Rightarrow> bytes \<Rightarrow> 'h \<Rightarrow> 'c noise_ciphers \<Rightarrow> credential_verifier
     \<Rightarrow> ('c, 'h, 'r) host_open \<Rightarrow> ('c, 'h) device_open \<Rightarrow> bool" where
  "completion_ready c m r nc verify h d \<longleftrightarrow>
     ho_state h = SendingCompletionRequest \<and> ho_send_buffer h = m
     \<and> length (ho_receive_buffer h) = HANDSHAKE_BUFFER_DTH_LEN
     \<and> ho_channel h = hs_channel c True True True (Some nc) (Some (ack_of False))
          (Sending (frag_state Host (hs_header CompletionRequest c m) (seq_of True) m 0) 0)
     \<and> do_state d = SendingInitiationResponse \<and> do_noise d = r \<and> do_cred_verif d = verify
     \<and> length (do_receive_buffer d) = HANDSHAKE_BUFFER_HTD_LEN
     \<and> (\<exists>f. do_channel d = hs_channel c False True False None None (Sending f 0))"

lemma initiation_run_completes:
  fixes B :: "('c, 'h) backend" and d :: "('c, 'h) device_open" and G :: "'r generator"
  assumes B: "backend_ok B" and c: "unicast_valid c" and sz: "INIT_LEN + CHECKSUM_LEN \<le> sz"
    and p1: "passes B PUBKEY_LEN i0 (do_noise d) [of_bool u] m1 i1 r1"
    and p2: "passes B INITIATION_RESPONSE_LEN
       (hs_set_e B e (hs_set_s_mask B (hash_result B (dh_pubkey B s @ dh_pubkey B e)) (hs_set_s B s r1))) i1 [] m2 r2 i2"
    and ks: "hs_get_rs B i2 = Some rs" "hs_get_re B i2 = Some re"
    and cred: "credential_from_store store re rs (fst (dh_genkey G t)) = Ok (k, cred)" "length cred \<le> MAX_CREDENTIAL_LEN"
    and p3: "passes B COMPLETION_REQUEST_OVERHEAD (hs_set_s B k i2) r2 cred m3 i3 r3" "hs_completed B i3"
    and d: "do_channel d = channel_new c" "do_state d = SendingChannelResponse"
      "length (do_receive_buffer d) = HANDSHAKE_BUFFER_HTD_LEN"
  shows "\<exists>h' d'. initiation_run B G sz s e (host_start_state B c store props m1 i1 t) d = (h', d')
    \<and> completion_ready c m3 r2 \<lparr>nc_encrypt = fst (hs_get_ciphers B i3), nc_decrypt = snd (hs_get_ciphers B i3),
          nc_handshake_hash = hs_get_hash B i3, nc_remote_static_pubkey = rs\<rparr> (do_cred_verif d) h' d'"
proof -
  have len: "length m1 = PUBKEY_LEN + 1" "length m2 = INITIATION_RESPONSE_LEN"
    using passes_length [OF B p1] passes_length [OF B p2] by simp_all
  then have ne: "m2 \<noteq> []" by (auto simp: INITIATION_RESPONSE_LEN_def noise_consts)
  have fit: "length m1 + CHECKSUM_LEN \<le> HANDSHAKE_BUFFER_HTD_LEN" "length m2 + CHECKSUM_LEN \<le> HANDSHAKE_BUFFER_DTH_LEN"
    using buffer_bounds(1,2) len by simp_all
  note s1 = sendable_hs [OF c le_trans [OF fit(1) buffer_bounds(5)], of Host InitiationRequest False, simplified]
  note s2 = sendable_hs [OF c le_trans [OF fit(2) buffer_bounds(6)], of Device InitiationResponse False, simplified]
  let ?h1 = "(host_start_state B c store props m1 i1 t)\<lparr>ho_channel :=
      hs_channel c False False False None None (sent_all Host (hs_header InitiationRequest c m1) (seq_of False) m1),
      ho_state := SendingInitiationRequest\<rparr>"
  let ?d1 = "d\<lparr>do_channel := hs_channel c True True False None (Some (ack_of False)) SendIdle, do_noise := r1,
      do_state := StaticKeyRequired u, do_receive_buffer := prepare_zeroed HANDSHAKE_BUFFER_HTD_LEN\<rparr>"
  let ?d2 = "?d1\<lparr>do_channel := hs_channel c True True False None (Some (ack_of False))
          (Sending (frag_state Device (hs_header InitiationResponse c m2) (seq_of False) m2 0) 0),
        do_noise := r2, do_send_buffer := m2, do_state := SendingInitiationResponse\<rparr>"
  let ?nc = "\<lparr>nc_encrypt = fst (hs_get_ciphers B i3), nc_decrypt = snd (hs_get_ciphers B i3),
          nc_handshake_hash = hs_get_hash B i3, nc_remote_static_pubkey = rs\<rparr>"
  let ?h2 = "?h1\<lparr>ho_channel := hs_channel c True True True (Some ?nc) (Some (ack_of False))
          (Sending (frag_state Host (hs_header CompletionRequest c m3) (seq_of True) m3 0) 0),
       ho_state := SendingCompletionRequest, ho_noise := i3, ho_send_buffer := m3,
       ho_receive_buffer := prepare_zeroed HANDSHAKE_BUFFER_DTH_LEN, ho_random := snd (dh_genkey G t)\<rparr>"
  have r1: "device_message_received B
      (d\<lparr>do_channel := received Host (hs_header InitiationRequest c m1) m1 False (hs_channel c True False False None None SendIdle),
         do_receive_buffer := msg_stream Host (hs_header InitiationRequest c m1) (seq_of False) m1 @ rest\<rparr>) (pir_accept True)
      = (Ok (HandshakeKeyRequired u), ?d1)" for rest
    by (rule device_reads_initiation [OF B c, where u = u and q = False, unfolded not_False_eq_True, THEN trans]) (use p1 d in simp_all)
  obtain x1 where t1: "io_pass (host_open_io B G) (device_open_io B) sz (host_start_state B c store props m1 i1 t) d = (x1, (?h1, ?d1))"
    using first_turn [OF s1 refl c sz len(1) refl d(1,3) r1, of G store props i1 t] by blast
  have key: "set_static_key B ?d1 s e = (Ok (), ?d2)"
    by (rule device_answers_initiation [OF B c, where u = u, THEN trans]) (use p2 in simp_all)
  have r2: "host_message_received B G
      (?h1\<lparr>ho_channel := received Device (hs_header InitiationResponse c m2) m2 False (hs_channel c True False True None None SendIdle),
         ho_receive_buffer := msg_stream Device (hs_header InitiationResponse c m2) (seq_of False) m2 @ rest\<rparr>) (pir_accept True)
      = (Ok (pir_accept True), ?h2)" for rest
    by (rule host_reads_response [OF B c _ ks _ cred(2) p3, where q = False, unfolded not_False_eq_True, THEN trans]) (use p2 cred(1) in \<open>simp_all add: host_start_state_def\<close>)
  obtain x2 where t2: "io_pass (device_open_io B) (host_open_io B G) sz ?d2 ?h1 = (x2,
     (?d2\<lparr>do_channel := hs_channel c False True False None None
            (sent_all Device (hs_header InitiationResponse c m2) (seq_of False) m2)\<rparr>, ?h2))"
    using device_turn [OF s2 refl c ne sz fit(2), of ?d2 True False None False ?h1 False None _ 0 B G "Ok (pir_accept True)" ?h2] r2
    by (fastforce simp: host_start_state_def prepare_zeroed_def)
  show ?thesis
    using t1 key t2 by (auto simp: initiation_run_def completion_ready_def prepare_zeroed_def)
qed

lemma completion_run_completes:
  fixes B :: "('c, 'h) backend" and d :: "('c, 'h) device_open" and G :: "'r generator"
  assumes B: "backend_ok B" "aead_paired B R" and c: "unicast_valid c" and sz: "INIT_LEN + CHECKSUM_LEN \<le> sz"
    and p3: "passes B COMPLETION_REQUEST_OVERHEAD i2 r2 cred m i3 r3" "hs_completed B r3" "hs_get_rs B r3 = Some rs"
      "length cred \<le> MAX_CREDENTIAL_LEN"
    and R: "R (nc_encrypt nc) (fst (hs_get_ciphers B r3))" "R (snd (hs_get_ciphers B r3)) (nc_decrypt nc)"
    and ready: "completion_ready c m r2 nc verify h d"
  shows "\<exists>h' d' a b nb. completion_run B G sz h d = (h', d') \<and> host_complete h' = Ok a \<and> device_complete d' = Ok b
    \<and> channels_synced R a b \<and> channels_synced R b a \<and> channel_phase a = channel_phase b
    \<and> channel_noise b = Some nb \<and> channel_phase b = PairingCredential (verify (nc_remote_static_pubkey nb) cred)"
proof -
  note rd = ready [unfolded completion_ready_def]
  define ps where "ps = do_cred_verif d rs cred"
  obtain ct e' where enc: "encrypt_ad_in_place B (snd (hs_get_ciphers B r3)) []
      ([pairing_state_to_u8 (do_cred_verif d rs cred)] @ replicate TAG_LEN 0) 1 = (ct, e')" by fastforce
  obtain n pt dc where dec: "decrypt_ad_in_place B (nc_decrypt nc) [] ct (length ct) = (n, pt, dc)" by (metis prod.exhaust)
  have aead: "length ct = 1 + TAG_LEN" "n = Some 1" "take 1 pt = [pairing_state_to_u8 ps]" "R e' dc"
    using aead_pairedD [OF B(2) R(2) _ enc dec] by (simp_all add: ps_def)
  have len: "length m = COMPLETION_REQUEST_OVERHEAD + length cred" using passes_length [OF B(1) p3(1)] .
  then have ne: "m \<noteq> []" "ct \<noteq> []" using aead(1) by (auto simp: COMPLETION_REQUEST_OVERHEAD_def noise_consts)
  have fit: "length m + CHECKSUM_LEN \<le> HANDSHAKE_BUFFER_HTD_LEN" "length ct + CHECKSUM_LEN \<le> HANDSHAKE_BUFFER_DTH_LEN"
    using buffer_bounds(3) [OF p3(4)] buffer_bounds(4) len aead(1) by simp_all
  note s3 = sendable_hs [OF c le_trans [OF fit(1) buffer_bounds(5)], of Host CompletionRequest True, simplified]
  note s4 = sendable_hs [OF c le_trans [OF fit(2) buffer_bounds(6)], of Device CompletionResponse True, simplified]
  let ?nb = "\<lparr>nc_encrypt = e', nc_decrypt = fst (hs_get_ciphers B r3),
                 nc_handshake_hash = hs_get_hash B r3, nc_remote_static_pubkey = rs\<rparr>"
  let ?h1 = "h\<lparr>ho_channel := hs_channel c False True True (Some nc) None (sent_all Host (hs_header CompletionRequest c m) (seq_of True) m)\<rparr>"
  let ?d1 = "d\<lparr>do_channel := hs_channel c True False True (Some ?nb) (Some (ack_of True))
          (Sending (frag_state Device (hs_header CompletionResponse c ct) (seq_of True) ct 0) 0),
       do_noise := r3, do_send_buffer := ct, do_state := SendingCompletionResponse ps,
       do_receive_buffer := prepare_zeroed HANDSHAKE_BUFFER_HTD_LEN\<rparr>"
  let ?d2 = "?d1\<lparr>do_channel := hs_channel c False False True (Some ?nb) None
          (sent_all Device (hs_header CompletionResponse c ct) (seq_of True) ct)\<rparr>"
  let ?h2 = "?h1\<lparr>ho_channel := hs_channel c True False False (Some (nc\<lparr>nc_decrypt := dc\<rparr>)) (Some (ack_of True)) SendIdle,
       ho_state := HostFinished ps, ho_receive_buffer := prepare_zeroed HANDSHAKE_BUFFER_DTH_LEN\<rparr>"
  have r3: "device_message_received B
      (d\<lparr>do_channel := received Host (hs_header CompletionRequest c m) m True (hs_channel c True True True None None SendIdle),
         do_receive_buffer := msg_stream Host (hs_header CompletionRequest c m) (seq_of True) m @ rest\<rparr>) (pir_accept True)
      = (Ok (pir_accept True), ?d1)" for rest
    by (rule device_reads_completion [OF B(1) c _ p3(2,3,4), where q = True, unfolded not_True_eq_False, THEN trans])
      (use enc p3(1) rd in \<open>simp_all add: ps_def\<close>)
  obtain x1 where t1: "io_pass (host_open_io B G) (device_open_io B) sz h d = (x1, (?h1, ?d1))"
    using host_turn [where k = False, unfolded not_False_eq_True, OF s3 refl c ne(1) sz fit(1) _ _ _ _ _ r3, of h True True "Some nc" False _ 0 G] rd
    by fastforce
  have r4: "host_message_received B G
      (?h1\<lparr>ho_channel := received Device (hs_header CompletionResponse c ct) ct True (hs_channel c True True False (Some nc) None SendIdle),
         ho_receive_buffer := msg_stream Device (hs_header CompletionResponse c ct) (seq_of True) ct @ rest\<rparr>) (pir_accept True)
      = (Ok (pir_accept True), ?h2)" for rest
    by (rule host_reads_completion [OF B(1) c aead(1), where q = True and ps = ps, unfolded not_True_eq_False, THEN trans])
      (use dec aead(2,3) rd in simp_all)
  obtain x2 where t2: "io_pass (device_open_io B) (host_open_io B G) sz ?d1 ?h1 = (x2, (?d2, ?h2))"
    using device_turn [where k = True, unfolded not_True_eq_False, OF s4 refl c ne(2) sz fit(2) _ _ _ _ _ r4, of ?d1 False True "Some ?nb" False _ 0] rd
    by fastforce
  have t3: "io_pass (host_open_io B G) (device_open_io B) sz ?h2 ?d2 = ([Ok pir_ack],
      (?h2\<lparr>ho_channel := hs_channel c True False False (Some (nc\<lparr>nc_decrypt := dc\<rparr>)) None SendIdle\<rparr>,
       ?d2\<lparr>do_channel := hs_channel c True False False (Some ?nb) None SendIdle\<rparr>))"
    by (rule last_turn [OF c sz, where k = True, unfolded not_True_eq_False, THEN trans]) simp_all
  show ?thesis
    using t1 t2 t3 hs_channels_synced [OF c, of R "nc\<lparr>nc_decrypt := dc\<rparr>" ?nb] hs_channels_synced [OF c, of R ?nb "nc\<lparr>nc_decrypt := dc\<rparr>"]
      R aead rd
    by (simp add: completion_run_def host_complete_def device_complete_def device_handshake_done_def ps_def)
qed

section \<open>From two multiplexers to two channels\<close>

definition open_channel_run ::
  "('c, 'h) backend \<Rightarrow> 'r generator \<Rightarrow> nat \<Rightarrow> bool \<Rightarrow> u16 \<Rightarrow> credential_verifier \<Rightarrow> credential_store \<Rightarrow> bytes \<Rightarrow> bytes
     \<Rightarrow> 'r host_mux \<Rightarrow> device_mux \<Rightarrow> ('c channel \<times> 'c channel) thp_result \<times> ('r host_mux \<times> device_mux)" where
  "open_channel_run B G sz try_to_unlock cid verify store static_privkey ephemeral_privkey m dm =
     and_then_st (allocation_run B G sz try_to_unlock cid verify store m dm) (\<lambda>(h, d) st.
     let (h, d) = handshake_run B G sz static_privkey ephemeral_privkey h d in
     (and_then (host_complete h) (\<lambda>a. and_then (device_complete d) (\<lambda>b. Ok (a, b))), st))"

text \<open>What the link, the multiplexers, the keys and the store must satisfy.\<close>

definition run_ready ::
  "'r generator \<Rightarrow> nat \<Rightarrow> u16 \<Rightarrow> credential_store \<Rightarrow> bytes \<Rightarrow> bytes \<Rightarrow> 'r host_mux \<Rightarrow> device_mux \<Rightarrow> bool" where
  "run_ready G sz cid store s e m dm \<longleftrightarrow>
     generator_ok G \<and> store_ok store \<and> length s = PRIVKEY_LEN \<and> length e = PRIVKEY_LEN \<and> unicast_valid cid
     \<and> INIT_LEN + unat NONCE_LEN + CHECKSUM_LEN \<le> sz \<and> hm_ping m \<noteq> SendingPing
     \<and> length (hm_internal_buffer m) = MAX_ALLOC_RESPONSE_LEN
     \<and> length (dm_device_properties dm) \<le> MAX_DEVICE_PROPERTIES_LEN"

definition library_ok :: "('c, 'h) backend \<Rightarrow> ('c \<Rightarrow> 'c \<Rightarrow> bool) \<Rightarrow> bool" where
  "library_ok B R \<longleftrightarrow> backend_ok B \<and> noise_xx_ok B R \<and> aead_paired B R"

lemma open_channel_completes:
  fixes B :: "('c, 'h) backend" and m :: "'r host_mux"
  assumes B: "library_ok B R" and ready: "run_ready G sz c store s e m dm"
  obtains h d a b nc re rs t where
    "allocation_run B G sz u c verify store m dm =
       (Ok (h, d), (m\<lparr>hm_random := t, hm_channel_allocation := AllocNone,
           hm_internal_buffer := prepare_zeroed MAX_ALLOC_RESPONSE_LEN\<rparr>, dm\<lparr>dm_new_channel := None\<rparr>))"
    "host_complete (fst (handshake_run B G sz s e h d)) = Ok a" "device_complete (snd (handshake_run B G sz s e h d)) = Ok b"
    "channels_synced R a b" "channels_synced R b a" "channel_phase a = channel_phase b" "channel_noise b = Some nc"
    "channel_phase b = PairingCredential (verify (nc_remote_static_pubkey nc) (stored_credential store re rs))"
proof -
  have B: "backend_ok B" "noise_xx_ok B R" "aead_paired B R" using B by (simp_all add: library_ok_def)
  have G: "generator_ok G" "store_ok store" and keys: "length s = PRIVKEY_LEN" "length e = PRIVKEY_LEN"
    and c: "unicast_valid c" and sz: "INIT_LEN + unat NONCE_LEN + CHECKSUM_LEN \<le> sz" "INIT_LEN + CHECKSUM_LEN \<le> sz"
    and m: "hm_ping m \<noteq> SendingPing" "length (hm_internal_buffer m) = MAX_ALLOC_RESPONSE_LEN"
    and props: "length (dm_device_properties dm) \<le> MAX_DEVICE_PROPERTIES_LEN"
    using ready by (simp_all add: run_ready_def)
  let ?props = "dm_device_properties dm"
  have "\<exists>h. host_open_new B c store ?props u t = Ok h" for t :: 'r
  proof -
    obtain m1 i1 r1 where p: "passes B PUBKEY_LEN (hs_new B True ?props) (hs_new B False ?props) [of_bool u] m1 i1 r1"
      using B(2) unfolding noise_xx_ok_def by meson
    show ?thesis using host_open_new_passes [OF B(1) props p, of c store t] by blast
  qed
  from allocation_completes [OF G(1) sz(1) c m props this, of verify]
  obtain h d t where alloc: "allocation_run B G sz u c verify store m dm =
       (Ok (h, d), (m\<lparr>hm_random := t, hm_channel_allocation := AllocNone,
           hm_internal_buffer := prepare_zeroed MAX_ALLOC_RESPONSE_LEN\<rparr>, dm\<lparr>dm_new_channel := None\<rparr>))"
    and h: "host_open_new B c store ?props u t = Ok h"
    and d: "do_channel d = channel_new c" "do_state d = SendingChannelResponse" "do_noise d = prepare_responder B ?props"
      "length (do_receive_buffer d) = HANDSHAKE_BUFFER_HTD_LEN" "do_cred_verif d = verify"
    by blast
  obtain m1 i1 r1 m2 r2 i2 rs re k m3 i3 r3 rs' where
    p1: "passes B PUBKEY_LEN (hs_new B True ?props) (hs_new B False ?props) [of_bool u] m1 i1 r1"
    and p2: "passes B INITIATION_RESPONSE_LEN
       (hs_set_e B e (hs_set_s_mask B (hash_result B (dh_pubkey B s @ dh_pubkey B e)) (hs_set_s B s r1))) i1 [] m2 r2 i2"
    and ks: "hs_get_rs B i2 = Some rs" "hs_get_re B i2 = Some re"
    and cred: "credential_from_store store re rs (fst (dh_genkey G t)) = Ok (k, stored_credential store re rs)"
      "length (stored_credential store re rs) \<le> MAX_CREDENTIAL_LEN"
    and p3: "passes B COMPLETION_REQUEST_OVERHEAD (hs_set_s B k i2) r2 (stored_credential store re rs) m3 i3 r3"
    and fin: "hs_completed B i3" "hs_completed B r3" "hs_get_rs B r3 = Some rs'"
    and R: "R (fst (hs_get_ciphers B i3)) (fst (hs_get_ciphers B r3))" "R (snd (hs_get_ciphers B r3)) (snd (hs_get_ciphers B i3))"
    by (rule xx_transcript [OF B(1,2) G keys, of ?props "of_bool u" t])
  let ?nc = "\<lparr>nc_encrypt = fst (hs_get_ciphers B i3), nc_decrypt = snd (hs_get_ciphers B i3),
          nc_handshake_hash = hs_get_hash B i3, nc_remote_static_pubkey = rs\<rparr>"
  have start: "h = host_start_state B c store ?props m1 i1 t"
    using host_open_new_passes [OF B(1) props p1, of c store t] h by simp
  obtain h' d' where run1: "initiation_run B G sz s e h d = (h', d')" and cr: "completion_ready c m3 r2 ?nc verify h' d'"
    using initiation_run_completes [OF B(1) c sz(2) p1 [folded prepare_responder_def, folded d(3)] p2 ks cred p3 fin(1) d(1,2,4), of ?props]
    unfolding start d(5) by blast
  obtain h'' d'' a b nb where run2: "completion_run B G sz h' d' = (h'', d'')" "host_complete h'' = Ok a" "device_complete d'' = Ok b"
    "channels_synced R a b" "channels_synced R b a" "channel_phase a = channel_phase b"
    "channel_noise b = Some nb" "channel_phase b = PairingCredential (verify (nc_remote_static_pubkey nb) (stored_credential store re rs))"
    using completion_run_completes [OF B(1,3) c sz(2) p3 fin(2,3) cred(2) _ _ cr, of G] R by auto
  have "handshake_run B G sz s e h d = (h'', d'')" by (simp add: handshake_run_def run1 run2(1))
  then show thesis using that [OF alloc, of a b nb re rs] run2 by simp
qed

subsection \<open>The device in such a run\<close>










section \<open>Properties\<close>

text \<open>
  C1. Between an honest host and an honest device, with packets that hold an allocation
  request and over a link that delivers, opening a channel succeeds: request, allocation
  response and the handshake run to their end, both ends can complete, the two channels are
  synchronized in both directions, and both ends agree on the pairing state, which is the
  verdict of the device's verifier on the host's key and the credential from the host's store.
\<close>
theorem channel_opens:
  assumes "library_ok B R" "run_ready G sz cid store static_privkey ephemeral_privkey m dm"
  shows "\<exists>a b st nc re rs. open_channel_run B G sz u cid verify store static_privkey ephemeral_privkey m dm = (Ok (a, b), st)
    \<and> channels_synced R a b \<and> channels_synced R b a \<and> channel_phase a = channel_phase b \<and> channel_noise b = Some nc
    \<and> channel_phase b = PairingCredential (verify (nc_remote_static_pubkey nc) (stored_credential store re rs))"
  by (rule open_channel_completes [OF assms, of u verify]) (auto simp: open_channel_run_def case_prod_unfold Let_def)

definition demo_store :: credential_store where
  "demo_store re rs = Some (replicate PRIVKEY_LEN 5, [1, 2, 3])"

definition demo_verify :: credential_verifier where
  "demo_verify pubkey cred = (if cred = [1, 2, 3] then Paired else Unpaired)"

definition demo_mux :: device_mux where
  "demo_mux = \<lparr>dm_outgoing = [], dm_new_channel = None, dm_device_properties = [9, 9]\<rparr>"

lemma plain_library: "library_ok plain_backend (=)"
  by (simp add: library_ok_def plain_backend_ok plain_xx plain_aead)

lemma demo_ready:
  "run_ready demo_generator 64 0x1234 demo_store (replicate PRIVKEY_LEN 1) (replicate PRIVKEY_LEN 2) (host_mux_new 7) demo_mux"
  by (simp add: run_ready_def demo_generator_ok store_ok_def demo_store_def unicast_valid_def channel_id_valid_def
      host_mux_new_def demo_mux_def prepare_zeroed_def header_consts CHECKSUM_LEN_def noise_consts)

lemma demo_credential: "stored_credential demo_store re rs = [1, 2, 3]"
  by (simp add: stored_credential_def demo_store_def)

theorem channel_opens_witness:
  "\<exists>a b st. open_channel_run plain_backend demo_generator 64 True 0x1234 demo_verify demo_store
      (replicate PRIVKEY_LEN 1) (replicate PRIVKEY_LEN 2) (host_mux_new 7) demo_mux = (Ok (a, b), st)
    \<and> channels_synced (=) a b \<and> channels_synced (=) b a
    \<and> channel_phase a = PairingCredential Paired \<and> channel_phase b = PairingCredential Paired"
  using channel_opens [OF plain_library demo_ready, of True demo_verify] by (auto simp: demo_credential demo_verify_def)

text \<open>
  C2. What the opened channels are for: after the run of the allocation and the handshake,
  every sequence of messages that fit the buffers is delivered, from the host to the device
  and from the device to the host.
\<close>
theorem opened_channel_delivers:
  assumes "library_ok B R" "run_ready G sz cid store static_privkey ephemeral_privkey m dm"
    and "list_all (message_fits sz receive_buffer) ms"
  shows "\<exists>a b st. open_channel_run B G sz u cid verify store static_privkey ephemeral_privkey m dm = (Ok (a, b), st)
    \<and> fst (channel_transfers B Host sz a b ms receive_buffer) = map Ok ms
    \<and> fst (channel_transfers B Device sz b a ms receive_buffer) = map Ok ms"
proof (rule open_channel_completes [OF assms(1,2), of u verify])
  fix h d a b nc re rs t
  assume run: "allocation_run B G sz u cid verify store m dm =
       (Ok (h, d), (m\<lparr>hm_random := t, hm_channel_allocation := AllocNone,
           hm_internal_buffer := prepare_zeroed MAX_ALLOC_RESPONSE_LEN\<rparr>, dm\<lparr>dm_new_channel := None\<rparr>))"
    "host_complete (fst (handshake_run B G sz static_privkey ephemeral_privkey h d)) = Ok a"
    "device_complete (snd (handshake_run B G sz static_privkey ephemeral_privkey h d)) = Ok b"
    and sync: "channels_synced R a b" "channels_synced R b a"
  have aead: "aead_paired B R" using assms(1) by (simp add: library_ok_def)
  show ?thesis
    using channel_transfers_deliver [OF aead sync(1) assms(3), of Host] channel_transfers_deliver [OF aead sync(2) assms(3), of Device] run
    by (auto simp: open_channel_run_def case_prod_unfold Let_def)
qed

theorem opened_channel_delivers_witness:
  "\<exists>a b st. open_channel_run plain_backend demo_generator 64 True 0x1234 demo_verify demo_store
      (replicate PRIVKEY_LEN 1) (replicate PRIVKEY_LEN 2) (host_mux_new 7) demo_mux = (Ok (a, b), st)
    \<and> fst (channel_transfers plain_backend Host 64 a b [(0, 55, [1, 2, 3]), (0, 56, [])] (replicate 200 0))
      = [Ok (0, 55, [1, 2, 3]), Ok (0, 56, [])]"
  using opened_channel_delivers [OF plain_library demo_ready, of "replicate 200 0" "[(0, 55, [1, 2, 3]), (0, 56, [])]" True demo_verify]
  by (auto simp: message_fits_def header_consts CHECKSUM_LEN_def SEND_BUFFER_OVERHEAD_def APP_HEADER_LEN_def noise_consts)



end
