(* ===== verification/Thp_Time.thy ===== *)
theory Thp_Time
  imports Thp_Channel
begin

text \<open>
  Time in the firmware: \<open>Duration\<close>, \<open>Instant\<close> and \<open>Timeout\<close> of \<open>core/embed/sys/src/time\<close>, the
  stopwatch of \<open>core/embed/rust/src/time.rs\<close>, and the timing data of a channel,
  \<open>core/embed/rust/src/thp/time.rs\<close>. Milliseconds are 32-bit words that wrap around, as in the
  source. The system clock is an argument \<open>now\<close> of the operations that read it; \<open>checks\<close> says
  whether debug assertions are compiled in.
\<close>

section \<open>Durations\<close>

datatype duration = Duration (to_millis: u32)

instantiation duration :: linorder
begin

definition less_eq_duration :: "duration \<Rightarrow> duration \<Rightarrow> bool" where
  "less_eq_duration a b \<longleftrightarrow> to_millis a \<le> to_millis b"

definition less_duration :: "duration \<Rightarrow> duration \<Rightarrow> bool" where
  "less_duration a b \<longleftrightarrow> to_millis a < to_millis b"

instance
  by standard (auto simp: less_eq_duration_def less_duration_def intro: duration.expand)

end

datatype short_duration = ShortDuration (short_millis: u16)

definition short_duration_to_millis :: "short_duration \<Rightarrow> u32" where
  "short_duration_to_millis d = ucast (short_millis d)"

definition duration_from_short :: "short_duration \<Rightarrow> duration" where
  "duration_from_short d = Duration (ucast (short_millis d))"

definition duration_zero :: duration where "duration_zero = Duration 0"

definition MILLIS_PER_SEC :: u32 where "MILLIS_PER_SEC = 1000"

definition MILLIS_PER_MINUTE :: u32 where "MILLIS_PER_MINUTE = MILLIS_PER_SEC * 60"

definition MILLIS_PER_HOUR :: u32 where "MILLIS_PER_HOUR = MILLIS_PER_MINUTE * 60"

definition MILLIS_PER_DAY :: u32 where "MILLIS_PER_DAY = MILLIS_PER_HOUR * 24"

lemmas millis_defs = MILLIS_PER_SEC_def MILLIS_PER_MINUTE_def MILLIS_PER_HOUR_def MILLIS_PER_DAY_def

definition U32_MAX :: u32 where "U32_MAX = 0xFFFFFFFF"

text \<open>
  A number of units: the debug assertion guards the multiplication, which wraps around when
  assertions are off.
\<close>

definition duration_from_units :: "bool \<Rightarrow> u32 \<Rightarrow> u32 \<Rightarrow> duration thp_result" where
  "duration_from_units checks per n =
     (if checks \<and> \<not> n < U32_MAX div per then Panic else Ok (Duration (n * per)))"

definition duration_from_secs :: "bool \<Rightarrow> u32 \<Rightarrow> duration thp_result" where
  "duration_from_secs checks secs = duration_from_units checks MILLIS_PER_SEC secs"

definition duration_from_mins :: "bool \<Rightarrow> u32 \<Rightarrow> duration thp_result" where
  "duration_from_mins checks mins = duration_from_units checks MILLIS_PER_MINUTE mins"

definition duration_from_hours :: "bool \<Rightarrow> u32 \<Rightarrow> duration thp_result" where
  "duration_from_hours checks hours = duration_from_units checks MILLIS_PER_HOUR hours"

definition duration_from_days :: "bool \<Rightarrow> u32 \<Rightarrow> duration thp_result" where
  "duration_from_days checks days = duration_from_units checks MILLIS_PER_DAY days"

definition to_secs :: "duration \<Rightarrow> u32" where "to_secs d = to_millis d div MILLIS_PER_SEC"

definition to_mins :: "duration \<Rightarrow> u32" where "to_mins d = to_millis d div MILLIS_PER_MINUTE"

definition to_hours :: "duration \<Rightarrow> u32" where "to_hours d = to_millis d div MILLIS_PER_HOUR"

definition to_days :: "duration \<Rightarrow> u32" where "to_days d = to_millis d div MILLIS_PER_DAY"

definition duration_checked_add :: "duration \<Rightarrow> duration \<Rightarrow> duration option" where
  "duration_checked_add a b =
     (if unat (to_millis a) + unat (to_millis b) < 2 ^ 32 then Some (Duration (to_millis a + to_millis b)) else None)"

definition duration_checked_sub :: "duration \<Rightarrow> duration \<Rightarrow> duration option" where
  "duration_checked_sub a b =
     (if to_millis b \<le> to_millis a then Some (Duration (to_millis a - to_millis b)) else None)"

definition duration_saturating_add :: "duration \<Rightarrow> duration \<Rightarrow> duration" where
  "duration_saturating_add a b = Duration (u32_saturating_add (to_millis a) (to_millis b))"

definition crop_to_largest_unit :: "bool \<Rightarrow> duration \<Rightarrow> duration thp_result" where
  "crop_to_largest_unit checks d =
     (if to_millis d \<ge> MILLIS_PER_DAY then duration_from_days checks (to_days d)
      else if to_millis d \<ge> MILLIS_PER_HOUR then duration_from_hours checks (to_hours d)
      else if to_millis d \<ge> MILLIS_PER_MINUTE then duration_from_mins checks (to_mins d)
      else duration_from_secs checks (to_secs d))"

definition increment_unit :: "bool \<Rightarrow> duration \<Rightarrow> duration option thp_result" where
  "increment_unit checks d =
     and_then (crop_to_largest_unit checks d) (\<lambda>base.
     and_then
       (if to_millis base < MILLIS_PER_MINUTE then duration_from_secs checks 1
        else if to_millis base < MILLIS_PER_HOUR then duration_from_mins checks 1
        else if to_millis base < MILLIS_PER_DAY then duration_from_hours checks 1
        else duration_from_days checks 1) (\<lambda>step.
     Ok (duration_checked_add base step)))"

definition decrement_unit :: "bool \<Rightarrow> duration \<Rightarrow> duration option thp_result" where
  "decrement_unit checks d =
     and_then (crop_to_largest_unit checks d) (\<lambda>base.
     and_then
       (if to_millis base \<le> MILLIS_PER_MINUTE then duration_from_secs checks 1
        else if to_millis base \<le> MILLIS_PER_HOUR then duration_from_mins checks 1
        else if to_millis base \<le> MILLIS_PER_DAY then duration_from_hours checks 1
        else duration_from_days checks 1) (\<lambda>step.
     Ok (duration_checked_sub base step)))"

text \<open>Division by an integer panics for the divisor zero.\<close>

definition duration_div :: "duration \<Rightarrow> u32 \<Rightarrow> duration thp_result" where
  "duration_div d n = (if n = 0 then Panic else Ok (Duration (to_millis d div n)))"

section \<open>Instants\<close>

datatype ordering = Less | Equal | Greater

fun ordering_reverse :: "ordering \<Rightarrow> ordering" where
  "ordering_reverse Less = Greater"
| "ordering_reverse Equal = Equal"
| "ordering_reverse Greater = Less"

definition u32_cmp :: "u32 \<Rightarrow> u32 \<Rightarrow> ordering" where
  "u32_cmp a b = (if a < b then Less else if a = b then Equal else Greater)"

definition MAX_DIFFERENCE_IN_MILLIS :: u32 where "MAX_DIFFERENCE_IN_MILLIS = U32_MAX div 2"

datatype instant = Instant (instant_millis: u32)

definition instant_cmp :: "instant \<Rightarrow> instant \<Rightarrow> ordering" where
  "instant_cmp a b =
     (if instant_millis a = instant_millis b then Equal
      else ordering_reverse (u32_cmp (instant_millis a - instant_millis b) (MAX_DIFFERENCE_IN_MILLIS + 1)))"

definition instant_ge :: "instant \<Rightarrow> instant \<Rightarrow> bool" where
  "instant_ge a b \<longleftrightarrow> instant_cmp a b \<noteq> Less"

definition checked_duration_since :: "instant \<Rightarrow> instant \<Rightarrow> duration option" where
  "checked_duration_since a earlier =
     (if instant_ge a earlier then Some (Duration (instant_millis a - instant_millis earlier)) else None)"

definition saturating_duration_since :: "instant \<Rightarrow> instant \<Rightarrow> duration" where
  "saturating_duration_since a earlier =
     (case checked_duration_since a earlier of None \<Rightarrow> duration_zero | Some d \<Rightarrow> d)"

definition instant_checked_add :: "instant \<Rightarrow> duration \<Rightarrow> instant option" where
  "instant_checked_add a d =
     (if to_millis d \<le> MAX_DIFFERENCE_IN_MILLIS then Some (Instant (instant_millis a + to_millis d)) else None)"

definition instant_checked_sub :: "instant \<Rightarrow> duration \<Rightarrow> instant option" where
  "instant_checked_sub a d =
     (if to_millis d \<le> MAX_DIFFERENCE_IN_MILLIS then Some (Instant (instant_millis a - to_millis d)) else None)"

section \<open>Timeouts\<close>

definition MAX_TIMEOUT_MS :: u32 where "MAX_TIMEOUT_MS = MAX_DIFFERENCE_IN_MILLIS"

datatype timeout = Timeout (timeout_duration: duration)

text \<open>\<open>None\<close> is the error \<open>TimeoutTooLarge\<close>.\<close>

definition timeout_from_millis :: "u32 \<Rightarrow> timeout option" where
  "timeout_from_millis ms = (if ms > MAX_TIMEOUT_MS then None else Some (Timeout (Duration ms)))"

definition timeout_from_secs :: "u32 \<Rightarrow> timeout option" where
  "timeout_from_secs secs = (if unat secs * 1000 < 2 ^ 32 then timeout_from_millis (secs * 1000) else None)"

definition timeout_to_millis :: "timeout \<Rightarrow> u32" where
  "timeout_to_millis t = to_millis (timeout_duration t)"

definition timeout_to_deadline :: "instant \<Rightarrow> timeout \<Rightarrow> instant thp_result" where
  "timeout_to_deadline now t =
     (case instant_checked_add now (timeout_duration t) of Some i \<Rightarrow> Ok i | None \<Rightarrow> Panic)"

definition timeout_from_duration :: "duration \<Rightarrow> timeout option" where
  "timeout_from_duration d = timeout_from_millis (to_millis d)"

definition timeout_from_short :: "short_duration \<Rightarrow> timeout thp_result" where
  "timeout_from_short d =
     (case timeout_from_millis (short_duration_to_millis d) of Some t \<Rightarrow> Ok t | None \<Rightarrow> Panic)"

section \<open>Stopwatch\<close>

datatype stopwatch = Stopped duration | Running instant

definition stopwatch_new_stopped :: stopwatch where
  "stopwatch_new_stopped = Stopped duration_zero"

definition stopwatch_new_started :: "instant \<Rightarrow> stopwatch" where
  "stopwatch_new_started now = Running now"

definition stopwatch_start :: "instant \<Rightarrow> stopwatch \<Rightarrow> stopwatch" where
  "stopwatch_start now sw = Running now"

fun stopwatch_elapsed :: "instant \<Rightarrow> stopwatch \<Rightarrow> duration thp_result" where
  "stopwatch_elapsed now (Stopped d) = Ok d"
| "stopwatch_elapsed now (Running time) =
     (case checked_duration_since now time of Some d \<Rightarrow> Ok d | None \<Rightarrow> Panic)"

definition stopwatch_stop :: "instant \<Rightarrow> stopwatch \<Rightarrow> stopwatch thp_result" where
  "stopwatch_stop now sw = map_ok Stopped (stopwatch_elapsed now sw)"

fun stopwatch_is_running :: "stopwatch \<Rightarrow> bool" where
  "stopwatch_is_running (Running _) = True"
| "stopwatch_is_running (Stopped _) = False"

fun stopwatch_is_running_within :: "instant \<Rightarrow> stopwatch \<Rightarrow> duration \<Rightarrow> bool thp_result" where
  "stopwatch_is_running_within now (Stopped d) limit = Ok False"
| "stopwatch_is_running_within now (Running time) limit =
     map_ok (\<lambda>d. d \<le> limit) (stopwatch_elapsed now (Running time))"

section \<open>Timing data of a channel\<close>

definition MAX_LATENCY_MS :: duration where "MAX_LATENCY_MS = Duration 800"

record channel_timing =
  last_write :: instant
  ack_latency :: duration
  last_usage :: u32

definition channel_timing_new :: "instant \<Rightarrow> channel_timing" where
  "channel_timing_new now = \<lparr>last_write = now, ack_latency = duration_zero, last_usage = 0\<rparr>"

definition update_last_write :: "instant \<Rightarrow> channel_timing \<Rightarrow> channel_timing" where
  "update_last_write now t = t\<lparr>last_write := now\<rparr>"

definition read_ack :: "instant \<Rightarrow> channel_timing \<Rightarrow> channel_timing" where
  "read_ack now t = t\<lparr>ack_latency := min (saturating_duration_since now (last_write t)) MAX_LATENCY_MS\<rparr>"

definition timeout_ms :: "channel_timing \<Rightarrow> u8 \<Rightarrow> duration" where
  "timeout_ms t attempt =
     fold (\<lambda>variable_delay acc. duration_saturating_add (duration_saturating_add acc variable_delay) (ack_latency t))
       (map (\<lambda>i. Duration (retransmit_after_ms (of_nat i))) [0..<Suc (unat attempt)]) duration_zero"

definition last_write_age :: "instant \<Rightarrow> channel_timing \<Rightarrow> duration option" where
  "last_write_age now t = checked_duration_since now (last_write t)"

definition timeout_from_now :: "instant \<Rightarrow> u8 \<Rightarrow> channel_timing \<Rightarrow> duration" where
  "timeout_from_now now attempt t =
     (case last_write_age now t of
        None \<Rightarrow> duration_zero
      | Some since_last_write \<Rightarrow>
          (case duration_checked_sub (timeout_ms t attempt) since_last_write of
             None \<Rightarrow> duration_zero
           | Some d \<Rightarrow> d))"

definition update_last_usage :: "u32 \<Rightarrow> channel_timing \<Rightarrow> channel_timing" where
  "update_last_usage counter t = t\<lparr>last_usage := counter\<rparr>"

fun lru_loop :: "(u16 \<times> u32) option \<Rightarrow> (u16 \<times> channel_timing) list \<Rightarrow> (u16 \<times> u32) option" where
  "lru_loop oldest [] = oldest"
| "lru_loop oldest ((idx, timing) # channels) =
     (let last_used = last_usage timing in
      case oldest of
        None \<Rightarrow> lru_loop (Some (idx, last_used)) channels
      | Some (_, oldest_val) \<Rightarrow>
          if last_used < oldest_val then lru_loop (Some (idx, last_used)) channels
          else lru_loop oldest channels)"

definition least_recently_used :: "(u16 \<times> channel_timing) list \<Rightarrow> u16 option" where
  "least_recently_used channels = map_option fst (lru_loop None channels)"

section \<open>The order of instants\<close>

lemma max_difference: "MAX_DIFFERENCE_IN_MILLIS = 0x7FFFFFFF"
  by (simp add: MAX_DIFFERENCE_IN_MILLIS_def U32_MAX_def)

lemma instant_cmp_eq:
  "instant_cmp a b = (let d = unat (instant_millis a - instant_millis b) in
     if d = 0 \<or> d = 2 ^ 31 then Equal else if d < 2 ^ 31 then Greater else Less)"
proof -
  have "instant_millis a = instant_millis b \<longleftrightarrow> unat (instant_millis a - instant_millis b) = 0"
    by (simp add: unat_eq_0)
  then show ?thesis
    by (simp add: instant_cmp_def u32_cmp_def max_difference Let_def word_less_nat_alt word_unat_eq_iff del: unat_eq_0)
qed

lemma instant_ge_iff: "instant_ge a b \<longleftrightarrow> unat (instant_millis a - instant_millis b) \<le> 2 ^ 31"
  by (auto simp: instant_ge_def instant_cmp_eq Let_def)

lemma checked_duration_since_add:
  assumes "unat n \<le> 2 ^ 31"
  shows "checked_duration_since (Instant (m + n)) (Instant m) = Some (Duration n)"
  using assms by (simp add: checked_duration_since_def instant_ge_iff)

lemma instant_add_inverse:
  "case instant_checked_add now d of
     Some t \<Rightarrow> to_millis d \<le> MAX_DIFFERENCE_IN_MILLIS
       \<and> instant_cmp t now = (if d = duration_zero then Equal else Greater)
       \<and> instant_cmp now t = (if d = duration_zero then Equal else Less)
       \<and> checked_duration_since t now = Some d \<and> instant_checked_sub t d = Some now
       \<and> timeout_to_deadline now (Timeout d) = Ok t
   | None \<Rightarrow> timeout_from_duration d = None"
proof (cases "to_millis d \<le> MAX_DIFFERENCE_IN_MILLIS")
  case True
  obtain n m where d: "d = Duration n" and now: "now = Instant m" by (cases d; cases now)
  have n: "unat n \<le> 2 ^ 31 - 1" using True d by (simp add: max_difference word_le_nat_alt)
  have neg: "unat (- n) = (if n = 0 then 0 else 2 ^ 32 - unat n)" using unat_sub_if' [of 0 n] by (simp add: unat_eq_0)
  have "unat n = 0 \<longleftrightarrow> n = 0" by (simp add: unat_eq_0)
  then show ?thesis
    using True n checked_duration_since_add [of n m] neg unfolding d now
    by (auto simp: instant_checked_add_def instant_checked_sub_def instant_cmp_eq duration_zero_def timeout_to_deadline_def Let_def)
qed (simp add: instant_checked_add_def timeout_from_duration_def timeout_from_millis_def MAX_TIMEOUT_MS_def)

lemma instant_cmp_Equal: "(instant_cmp a b = Equal) = (a = b \<or> instant_millis a - instant_millis b = 0x80000000)"
proof -
  let ?d = "instant_millis a - instant_millis b"
  have "unat ?d = 2 ^ 31 \<longleftrightarrow> ?d = 0x80000000" by (simp add: word_unat_eq_iff)
  moreover have "unat ?d = 0 \<longleftrightarrow> a = b" by (auto simp: unat_eq_0 intro: instant.expand)
  ultimately show ?thesis by (simp add: instant_cmp_eq Let_def del: unat_eq_0)
qed

text \<open>
  C35. Adding a duration of at most half the range to an instant gives one that is later by
  exactly this duration, across the wrap-around of the clock, and subtracting it leads back;
  a longer duration is refused, and refused as a timeout as well, so that the deadline of a
  timeout always exists. The comparison calls two different instants equal when they are
  exactly half the range apart, and only then.
\<close>

theorem instant_arithmetic:
  "(case instant_checked_add now d of
      Some t \<Rightarrow> to_millis d \<le> MAX_DIFFERENCE_IN_MILLIS
        \<and> instant_cmp t now = (if d = duration_zero then Equal else Greater)
        \<and> instant_cmp now t = (if d = duration_zero then Equal else Less)
        \<and> checked_duration_since t now = Some d \<and> instant_checked_sub t d = Some now
        \<and> timeout_to_deadline now (Timeout d) = Ok t
    | None \<Rightarrow> timeout_from_duration d = None)
   \<and> (instant_cmp a b = Equal) = (a = b \<or> instant_millis a - instant_millis b = 0x80000000)"
  by (rule conjI [OF instant_add_inverse instant_cmp_Equal])

section \<open>The stopwatch\<close>

text \<open>A running stopwatch tells the time since its start, for half the range of the clock; then it panics.\<close>

lemma stopwatch_measures:
  "stopwatch_elapsed (Instant (m + n)) (stopwatch_start (Instant m) sw)
     = (if unat n \<le> 2 ^ 31 then Ok (Duration n) else Panic)"
  by (simp add: stopwatch_start_def checked_duration_since_def instant_ge_iff)

section \<open>Whole units\<close>

text \<open>The durations that are a number of seconds, minutes, hours or days, in the largest unit.\<close>

definition whole_units :: "nat \<Rightarrow> bool" where
  "whole_units n \<longleftrightarrow> (\<exists>k. n = k * 1000 \<and> k < 60) \<or> (\<exists>k. n = k * 60000 \<and> 1 \<le> k \<and> k < 60)
     \<or> (\<exists>k. n = k * 3600000 \<and> 1 \<le> k \<and> k < 24) \<or> (\<exists>k. n = k * 86400000 \<and> 1 \<le> k \<and> k < 50)"

definition crop_nat :: "nat \<Rightarrow> nat" where
  "crop_nat n = (let per = if n \<ge> 86400000 then 86400000 else if n \<ge> 3600000 then 3600000
     else if n \<ge> 60000 then 60000 else 1000 in n div per * per)"

lemma duration_from_units_div:
  "duration_from_units False per (m div per) = Ok (Duration (of_nat (unat m div unat per * unat per)))"
  by (simp add: duration_from_units_def unat_div [symmetric])

lemma crop_to_largest_unit_nat:
  "crop_to_largest_unit False d = Ok (Duration (of_nat (crop_nat (unat (to_millis d)))))"
  by (simp add: crop_to_largest_unit_def duration_from_days_def duration_from_hours_def duration_from_mins_def
      duration_from_secs_def to_days_def to_hours_def to_mins_def to_secs_def duration_from_units_div
      crop_nat_def Let_def word_le_nat_alt millis_defs)

lemma crop_nat_le: "crop_nat n \<le> n"
  by (simp add: crop_nat_def Let_def)

lemma crop_nat_whole:
  assumes "n < 2 ^ 32"
  shows "whole_units (crop_nat n)"
proof -
  consider "n < 60000" | "60000 \<le> n" "n < 3600000" | "3600000 \<le> n" "n < 86400000" | "86400000 \<le> n" by linarith
  then show ?thesis
  proof cases
    case 1
    then have "n div 1000 < 60" by auto
    then show ?thesis using 1 by (auto simp: crop_nat_def whole_units_def Let_def)
  next
    case 2
    then have "1 \<le> n div 60000" "n div 60000 < 60" by auto
    then show ?thesis using 2 by (auto simp: crop_nat_def whole_units_def Let_def)
  next
    case 3
    then have "1 \<le> n div 3600000" "n div 3600000 < 24" by auto
    then show ?thesis using 3 by (auto simp: crop_nat_def whole_units_def Let_def)
  next
    case 4
    then have "1 \<le> n div 86400000" "n div 86400000 < 50" using assms by auto
    then show ?thesis using 4 by (auto simp: crop_nat_def whole_units_def Let_def)
  qed
qed

lemma whole_units_crop: "whole_units n \<Longrightarrow> crop_nat n = n"
  unfolding whole_units_def by (elim disjE exE conjE) (simp_all add: crop_nat_def Let_def)

definition up_nat :: "nat \<Rightarrow> nat" where
  "up_nat n = n + (if n < 60000 then 1000 else if n < 3600000 then 60000 else if n < 86400000 then 3600000 else 86400000)"

definition down_nat :: "nat \<Rightarrow> nat" where
  "down_nat n = n - (if n \<le> 60000 then 1000 else if n \<le> 3600000 then 60000 else if n \<le> 86400000 then 3600000 else 86400000)"

lemma whole_unitsI:
  "k < 60 \<Longrightarrow> whole_units (k * 1000)"
  "1 \<le> k \<Longrightarrow> k < 60 \<Longrightarrow> whole_units (k * 60000)"
  "1 \<le> k \<Longrightarrow> k < 24 \<Longrightarrow> whole_units (k * 3600000)"
  "1 \<le> k \<Longrightarrow> k < 50 \<Longrightarrow> whole_units (k * 86400000)"
  by (auto simp: whole_units_def)

text \<open>One step up within a unit, or to the first of the next one.\<close>

lemma up_nat_units:
  "k < 60 \<Longrightarrow> up_nat (k * 1000) = (if k = 59 then 1 * 60000 else (k + 1) * 1000)"
  "1 \<le> k \<Longrightarrow> k < 60 \<Longrightarrow> up_nat (k * 60000) = (if k = 59 then 1 * 3600000 else (k + 1) * 60000)"
  "1 \<le> k \<Longrightarrow> k < 24 \<Longrightarrow> up_nat (k * 3600000) = (if k = 23 then 1 * 86400000 else (k + 1) * 3600000)"
  "1 \<le> k \<Longrightarrow> up_nat (k * 86400000) = (k + 1) * 86400000"
  by (auto simp: up_nat_def)

lemma down_nat_units:
  "1 \<le> k \<Longrightarrow> k < 60 \<Longrightarrow> down_nat (k * 1000) = (k - 1) * 1000"
  "1 \<le> k \<Longrightarrow> k < 60 \<Longrightarrow> down_nat (k * 60000) = (if k = 1 then 59 * 1000 else (k - 1) * 60000)"
  "1 \<le> k \<Longrightarrow> k < 24 \<Longrightarrow> down_nat (k * 3600000) = (if k = 1 then 59 * 60000 else (k - 1) * 3600000)"
  "1 \<le> k \<Longrightarrow> down_nat (k * 86400000) = (if k = 1 then 23 * 3600000 else (k - 1) * 86400000)"
  by (auto simp: down_nat_def diff_mult_distrib)

lemma whole_units_cases:
  assumes "whole_units n"
  obtains (secs) k where "n = k * 1000" "k < 60" | (mins) k where "n = k * 60000" "1 \<le> k" "k < 60"
    | (hours) k where "n = k * 3600000" "1 \<le> k" "k < 24" | (days) k where "n = k * 86400000" "1 \<le> k" "k < 50"
  using assms by (auto simp: whole_units_def)

lemma up_whole:
  assumes "whole_units n" "up_nat n < 2 ^ 32"
  shows "whole_units (up_nat n)"
  using assms(1)
proof (cases rule: whole_units_cases)
  case (days k)
  then have "k + 1 < 50" using assms(2) by (simp add: up_nat_units)
  then show ?thesis using days whole_unitsI(4) [of "k + 1"] by (simp only: up_nat_units)
next
  case (secs k)
  then show ?thesis using whole_unitsI(1) [of "k + 1"] whole_unitsI(2) [of 1] by (simp only: up_nat_units split: if_split) auto
next
  case (mins k)
  then show ?thesis using whole_unitsI(2) [of "k + 1"] whole_unitsI(3) [of 1] by (simp only: up_nat_units split: if_split) auto
next
  case (hours k)
  then show ?thesis using whole_unitsI(3) [of "k + 1"] whole_unitsI(4) [of 1] by (simp only: up_nat_units split: if_split) auto
qed

lemma down_up: "whole_units n \<Longrightarrow> down_nat (up_nat n) = n"
  unfolding whole_units_def by (elim disjE exE conjE) (auto simp: up_nat_def down_nat_def)

lemma down_whole:
  assumes "whole_units n" "0 < n"
  shows "whole_units (down_nat n)"
  using assms(1)
proof (cases rule: whole_units_cases)
  case (days k)
  then show ?thesis using whole_unitsI(4) [of "k - 1"] whole_unitsI(3) [of 23] by (simp only: down_nat_units split: if_split) auto
next
  case (secs k)
  then show ?thesis using assms(2) whole_unitsI(1) [of "k - 1"] by (simp add: down_nat_units)
next
  case (mins k)
  then show ?thesis using whole_unitsI(2) [of "k - 1"] whole_unitsI(1) [of 59] by (simp only: down_nat_units split: if_split) auto
next
  case (hours k)
  then show ?thesis using whole_unitsI(3) [of "k - 1"] whole_unitsI(2) [of 59] by (simp only: down_nat_units split: if_split) auto
qed

lemma up_down: "whole_units n \<Longrightarrow> 0 < n \<Longrightarrow> up_nat (down_nat n) = n"
  unfolding whole_units_def by (elim disjE exE conjE) (auto simp: up_nat_def down_nat_def)

lemma increment_unit_nat:
  "increment_unit False d = (let n = up_nat (crop_nat (unat (to_millis d)))
     in Ok (if n < 2 ^ 32 then Some (Duration (of_nat n)) else None))"
proof -
  define b where "b = crop_nat (unat (to_millis d))"
  have b: "b < 2 ^ 32" using crop_nat_le [of "unat (to_millis d)"] unsigned_less [of "to_millis d", where ?'a = nat] by (simp add: b_def)
  then have u: "unat (of_nat b :: u32) = b" by (simp add: unat_of_nat)
  show ?thesis
    unfolding increment_unit_def crop_to_largest_unit_nat b_def [symmetric]
    by (simp add: u word_less_nat_alt millis_defs duration_from_secs_def duration_from_mins_def duration_from_hours_def duration_from_days_def
      duration_from_units_def duration_checked_add_def up_nat_def Let_def)
qed

lemma decrement_unit_nat:
  "decrement_unit False d = (let n = crop_nat (unat (to_millis d))
     in Ok (if 0 < n then Some (Duration (of_nat (down_nat n))) else None))"
proof -
  define b where "b = crop_nat (unat (to_millis d))"
  have bound: "b < 2 ^ 32" using crop_nat_le [of "unat (to_millis d)"] unsigned_less [of "to_millis d", where ?'a = nat] by (simp add: b_def)
  then have u: "unat (of_nat b :: u32) = b" by (simp add: unat_of_nat)
  have "b = 0 \<or> 1000 \<le> b" using crop_nat_whole [of "unat (to_millis d)"] unsigned_less [of "to_millis d", where ?'a = nat]
    by (auto simp: b_def [symmetric] whole_units_def)
  then show ?thesis
    unfolding decrement_unit_def crop_to_largest_unit_nat b_def [symmetric]
    by (auto simp: u word_le_nat_alt millis_defs duration_from_secs_def duration_from_mins_def duration_from_hours_def duration_from_days_def
      duration_from_units_def duration_checked_sub_def down_nat_def Let_def)
qed

lemma crop_checks: "crop_to_largest_unit True d = (if to_days d = 49 then Panic else crop_to_largest_unit False d)"
proof -
  define n where "n = unat (to_millis d)"
  have n: "n < 4294967296" using unsigned_less [of "to_millis d", where ?'a = nat] by (simp add: n_def)
  have days: "to_days d = 49 \<longleftrightarrow> n div 86400000 = 49"
    by (simp add: to_days_def word_unat_eq_iff unat_div n_def millis_defs)
  have "n div 86400000 \<le> 49" using n by auto
  moreover have "n < 86400000 \<Longrightarrow> n div 3600000 < 24" "n < 3600000 \<Longrightarrow> n div 60000 < 60" "n < 60000 \<Longrightarrow> n div 1000 < 60"
    by auto
  ultimately show ?thesis
    unfolding days
    by (simp add: crop_to_largest_unit_def duration_from_days_def duration_from_hours_def duration_from_mins_def
      duration_from_secs_def to_days_def to_hours_def to_mins_def to_secs_def duration_from_units_def U32_MAX_def
      word_le_nat_alt word_less_nat_alt millis_defs unat_div n_def [symmetric]) linarith
qed

text \<open>
  A step up to the next whole second, minute, hour or day and a step down undo each other
  up to cropping, also across the boundaries of the units. With debug assertions the cropping,
  and with it both steps, panics for every duration of 49 days and more, which still fits.
\<close>

theorem unit_steps_invert:
  "(\<forall>d'. increment_unit False d = Ok (Some d') \<longrightarrow> decrement_unit False d' = map_ok Some (crop_to_largest_unit False d))
   \<and> (\<forall>d'. decrement_unit False d = Ok (Some d') \<longrightarrow> increment_unit False d' = map_ok Some (crop_to_largest_unit False d))
   \<and> crop_to_largest_unit True d = (if to_days d = 49 then Panic else crop_to_largest_unit False d)"
proof (intro conjI allI impI)
  define b where "b = crop_nat (unat (to_millis d))"
  have whole: "whole_units b" and b: "b < 2 ^ 32"
    using crop_nat_whole crop_nat_le [of "unat (to_millis d)"] unsigned_less [of "to_millis d", where ?'a = nat]
    by (auto simp: b_def)
  have u: "unat (of_nat n :: u32) = n" if "n < 2 ^ 32" for n using that by (simp add: unat_of_nat)
  fix d'
  show "decrement_unit False d' = map_ok Some (crop_to_largest_unit False d)" if "increment_unit False d = Ok (Some d')"
  proof -
    have "d' = Duration (of_nat (up_nat b))" "up_nat b < 2 ^ 32"
      using that by (auto simp: increment_unit_nat b_def [symmetric] Let_def split: if_splits)
    moreover have "0 < up_nat b" by (simp add: up_nat_def)
    ultimately show ?thesis
      using whole up_whole [OF whole] by (simp add: decrement_unit_nat crop_to_largest_unit_nat b_def [symmetric] u whole_units_crop down_up Let_def)
  qed
  show "increment_unit False d' = map_ok Some (crop_to_largest_unit False d)" if "decrement_unit False d = Ok (Some d')"
  proof -
    have "d' = Duration (of_nat (down_nat b))" "0 < b"
      using that by (auto simp: decrement_unit_nat b_def [symmetric] Let_def split: if_splits)
    moreover have "down_nat b < 2 ^ 32" using b by (simp add: down_nat_def)
    ultimately show ?thesis
      using whole down_whole [OF whole] b
      by (simp add: increment_unit_nat crop_to_largest_unit_nat b_def [symmetric] u whole_units_crop up_down Let_def)
  qed
next
  show "crop_to_largest_unit True d = (if to_days d = 49 then Panic else crop_to_largest_unit False d)"
    by (rule crop_checks)
qed

theorem unit_steps_invert_witness:
  "decrement_unit False (Duration 60000) = map_ok Some (crop_to_largest_unit False (Duration 59999))"
proof -
  have "increment_unit False (Duration 59999) = Ok (Some (Duration 60000))"
    by (simp add: increment_unit_nat crop_nat_def up_nat_def Let_def)
  then show ?thesis using unit_steps_invert [of "Duration 59999"] by blast
qed

section \<open>Retransmission timeouts\<close>

definition timing_wf :: "channel_timing \<Rightarrow> bool" where
  "timing_wf t \<longleftrightarrow> ack_latency t \<le> MAX_LATENCY_MS"

lemma timing_wf_simps [simp]:
  "timing_wf (channel_timing_new now)"
  "timing_wf (read_ack now t)"
  "timing_wf (update_last_write now t) = timing_wf t"
  "timing_wf (update_last_usage n t) = timing_wf t"
  by (simp_all add: timing_wf_def channel_timing_new_def read_ack_def update_last_write_def update_last_usage_def)
    (simp add: duration_zero_def MAX_LATENCY_MS_def less_eq_duration_def)

definition retry_delay :: "nat \<Rightarrow> nat" where
  "retry_delay i = 10300 - 1010000 div (min i 49 + 100)"

lemma retry_delay_bounds: "200 \<le> retry_delay i" "retry_delay i \<le> 3522"
proof -
  have "1010000 div (min i 49 + 100) \<le> 1010000 div 100" by (rule div_le_mono2) simp_all
  then show "200 \<le> retry_delay i" by (simp add: retry_delay_def)
  have "1010000 div 149 \<le> 1010000 div (min i 49 + 100)" by (rule div_le_mono2) simp_all
  then show "retry_delay i \<le> 3522" by (simp add: retry_delay_def)
qed

lemma fold_saturating_add:
  assumes "\<And>i. i \<in> set is \<Longrightarrow> f i \<le> 3522" "lat \<le> 800" "acc + 4322 * length is < 2 ^ 32"
  shows "unat (to_millis (fold (\<lambda>v acc. duration_saturating_add (duration_saturating_add acc v) (Duration (of_nat lat)))
      (map (\<lambda>i. Duration (of_nat (f i))) is) (Duration (of_nat acc)))) = acc + (\<Sum>i\<leftarrow>is. f i + lat)"
  using assms(1,3)
proof (induction "is" arbitrary: acc)
  case (Cons i "is")
  have f: "f i \<le> 3522" using Cons.prems(1) by simp
  have "duration_saturating_add (duration_saturating_add (Duration (of_nat acc)) (Duration (of_nat (f i)))) (Duration (of_nat lat))
      = Duration (of_nat (acc + f i + lat))"
    using f assms(2) Cons.prems(2)
    by (simp add: duration_saturating_add_def u32_saturating_add_def unat_of_nat unat_word_ariths)
  moreover have "acc + f i + lat + 4322 * length is < 2 ^ 32" using Cons.prems(2) f assms(2) by simp
  ultimately show ?case using Cons.IH [of "acc + f i + lat"] Cons.prems(1) by simp
qed (simp add: unat_of_nat)

lemma timeout_ms_nat:
  assumes "timing_wf t"
  shows "unat (to_millis (timeout_ms t n)) = (\<Sum>i\<le>unat n. retry_delay i + unat (to_millis (ack_latency t)))"
proof -
  let ?lat = "unat (to_millis (ack_latency t))"
  have n: "unat n < 256" using unsigned_less [of n, where ?'a = nat] by simp
  have lat: "?lat \<le> 800" using assms by (simp add: timing_wf_def MAX_LATENCY_MS_def less_eq_duration_def word_le_nat_alt)
  have eq: "map (\<lambda>i. Duration (retransmit_after_ms (of_nat i))) [0..<Suc (unat n)]
      = map (\<lambda>i. Duration (of_nat (retry_delay i))) [0..<Suc (unat n)]"
  proof (rule map_cong [OF refl])
    fix i assume "i \<in> set [0..<Suc (unat n)]"
    then have "i < 256" using n by auto
    then have "unat (of_nat i :: u8) = i" by (simp add: unat_of_nat)
    then have "retry_delay i = unat (retransmit_after_ms (of_nat i))"
      by (simp add: retry_delay_def retransmit_after_ms_nat)
    then show "Duration (retransmit_after_ms (of_nat i)) = Duration (of_nat (retry_delay i))" by simp
  qed
  have "Duration (of_nat ?lat) = ack_latency t" by simp
  then have "unat (to_millis (timeout_ms t n)) = 0 + (\<Sum>i\<leftarrow>[0..<Suc (unat n)]. retry_delay i + ?lat)"
    using fold_saturating_add [of "[0..<Suc (unat n)]" retry_delay ?lat 0] lat n retry_delay_bounds(2)
    by (simp only: timeout_ms_def eq duration_zero_def) simp
  also have "\<dots> = (\<Sum>i\<le>unat n. retry_delay i + ?lat)"
    by (simp only: add_0 interv_sum_list_conv_sum_set_nat set_upt atLeast0LessThan lessThan_Suc_atMost)
  finally show ?thesis .
qed

lemma retry_delay_sum: "(\<Sum>i\<le>49. retry_delay i) = 103817"
proof -
  have "(\<Sum>i\<le>49. retry_delay i) = (\<Sum>i\<leftarrow>[0..<50]. retry_delay i)"
    unfolding interv_sum_list_conv_sum_set_nat by (rule sum.cong) auto
  also have "\<dots> = 103817" by (simp add: retry_delay_def upt_conv_Cons)
  finally show ?thesis .
qed

text \<open>
  C28. The measured latency never exceeds its limit, and then the time until a retransmission
  is the exact sum of the delays and latencies so far, without saturating: it grows with every
  attempt, the first one is made after 200 to 1000 ms, and the last one the protocol allows
  after 103 to 143 seconds.
\<close>

theorem timeout_ms_limits:
  "timing_wf (read_ack now t) \<and>
   (timing_wf t \<longrightarrow>
     unat (to_millis (timeout_ms t n)) = (\<Sum>i\<le>unat n. retry_delay i + unat (to_millis (ack_latency t)))
     \<and> 200 \<le> to_millis (timeout_ms t 0) \<and> to_millis (timeout_ms t 0) \<le> 1000
     \<and> to_secs (timeout_ms t (MAX_RETRANSMISSION_COUNT - 1)) \<in> {103..143}
     \<and> (n < m \<longrightarrow> timeout_ms t n < timeout_ms t m))"
proof (intro conjI impI)
  assume wf: "timing_wf t"
  let ?lat = "unat (to_millis (ack_latency t))"
  have lat: "?lat \<le> 800" using wf by (simp add: timing_wf_def MAX_LATENCY_MS_def less_eq_duration_def word_le_nat_alt)
  show "unat (to_millis (timeout_ms t n)) = (\<Sum>i\<le>unat n. retry_delay i + ?lat)" by (rule timeout_ms_nat [OF wf])
  show "200 \<le> to_millis (timeout_ms t 0)" "to_millis (timeout_ms t 0) \<le> 1000"
    using lat by (simp_all add: word_le_nat_alt timeout_ms_nat [OF wf] retry_delay_def)
  have "unat (to_millis (timeout_ms t (MAX_RETRANSMISSION_COUNT - 1))) = 103817 + 50 * ?lat"
    by (simp add: timeout_ms_nat [OF wf] sum.distrib retry_delay_sum MAX_RETRANSMISSION_COUNT_def)
  then show "to_secs (timeout_ms t (MAX_RETRANSMISSION_COUNT - 1)) \<in> {103..143}"
    using lat by (simp add: to_secs_def word_le_nat_alt unat_div millis_defs) auto
  show "timeout_ms t n < timeout_ms t m" if "n < m"
  proof -
    have "{..unat n} \<subset> {..unat m}" using that by (auto simp: word_less_nat_alt)
    then have "(\<Sum>i\<le>unat n. retry_delay i + ?lat) < (\<Sum>i\<le>unat m. retry_delay i + ?lat)"
      using retry_delay_bounds(1) that
      by (intro sum_strict_mono2 [where b = "unat m"]) (auto simp: word_less_nat_alt intro!: add_pos_nonneg intro: less_le_trans [of 0 200])
    then show ?thesis by (simp add: less_duration_def word_less_nat_alt timeout_ms_nat [OF wf])
  qed
qed simp

theorem timeout_ms_limits_witness: "timeout_ms (channel_timing_new (Instant 5)) 3 < timeout_ms (channel_timing_new (Instant 5)) 4"
  using timeout_ms_limits [of "Instant 5" "channel_timing_new (Instant 5)" 3 4] by simp

section \<open>Eviction\<close>

lemma lru_loop_Some:
  "\<exists>c' u'. lru_loop (Some (c, u)) chans = Some (c', u') \<and> u' \<le> u \<and> (\<forall>(_, t) \<in> set chans. u' \<le> last_usage t)
     \<and> ((c', u') = (c, u) \<or> (\<exists>t. (c', t) \<in> set chans \<and> u' = last_usage t))"
proof (induction chans arbitrary: c u)
  case (Cons x chans)
  obtain i t where x: "x = (i, t)" by fastforce
  show ?case
  proof (cases "last_usage t < u")
    case True
    then show ?thesis using Cons.IH [of i "last_usage t"] x by (fastforce simp: Let_def)
  next
    case False
    then show ?thesis using Cons.IH [of c u] x by (fastforce simp: Let_def)
  qed
qed simp

lemma least_recently_used_Some:
  assumes "chans \<noteq> []"
  obtains c t where "least_recently_used chans = Some c" "(c, t) \<in> set chans"
    "\<And>c' t'. (c', t') \<in> set chans \<Longrightarrow> last_usage t \<le> last_usage t'"
proof -
  obtain i t0 rest where chans: "chans = (i, t0) # rest" using assms by (metis list.exhaust surj_pair)
  obtain c u where l: "lru_loop (Some (i, last_usage t0)) rest = Some (c, u)" "u \<le> last_usage t0"
    "\<forall>(_, t) \<in> set rest. u \<le> last_usage t" "(c, u) = (i, last_usage t0) \<or> (\<exists>t. (c, t) \<in> set rest \<and> u = last_usage t)"
    using lru_loop_Some by blast
  then obtain t where "(c, t) \<in> set chans" "u = last_usage t" using chans by auto
  then show thesis using that [of c t] l chans by (auto simp: least_recently_used_def Let_def)
qed

end
