(* ===== verification/Thp_Linear_Map.thy ===== *)
theory Thp_Linear_Map
  imports Thp_Prelude
begin

text \<open>
  The fixed-capacity map \<open>LinearMap\<close> of the crate \<open>heapless\<close>, as the firmware uses it: an
  association list. The crate promises no order of iteration, and a removal may move other
  entries; the argument \<open>R\<close> of \<open>lm_remove\<close> says how: \<open>R i n\<close> lists the old positions of the
  entries that remain when the entry at position \<open>i\<close> of \<open>n\<close> is removed. The locale states all
  that is assumed about it, and proves what the operations do to the keys and values.
\<close>

primrec lm_set :: "'k \<Rightarrow> 'v \<Rightarrow> ('k \<times> 'v) list \<Rightarrow> ('k \<times> 'v) list" where
  "lm_set k v [] = []"
| "lm_set k v (x # m) = (if fst x = k then (k, v) # m else x # lm_set k v m)"

text \<open>\<open>insert\<close>: the old value of the key, and the new map; \<open>None\<close> when a new key finds no room.\<close>

definition lm_insert :: "nat \<Rightarrow> 'k \<Rightarrow> 'v \<Rightarrow> ('k \<times> 'v) list \<Rightarrow> ('v option \<times> ('k \<times> 'v) list) option" where
  "lm_insert capacity k v m =
     (case map_of m k of
        Some old \<Rightarrow> Some (Some old, lm_set k v m)
      | None \<Rightarrow> if length m < capacity then Some (None, m @ [(k, v)]) else None)"

type_synonym removal_order = "nat \<Rightarrow> nat \<Rightarrow> nat list"

definition lm_remove :: "removal_order \<Rightarrow> 'k \<Rightarrow> ('k \<times> 'v) list \<Rightarrow> 'v option \<times> ('k \<times> 'v) list" where
  "lm_remove R k m =
     (case find (\<lambda>i. fst (m ! i) = k) [0..<length m] of
        None \<Rightarrow> (None, m)
      | Some i \<Rightarrow> (Some (snd (m ! i)), map ((!) m) (R i (length m))))"

section \<open>Setting values\<close>

lemma lm_set_keys [simp]: "map fst (lm_set k v m) = map fst m"
  by (induction m) auto

lemma lm_set_length [simp]: "length (lm_set k v m) = length m"
  by (metis length_map lm_set_keys)

lemma lm_set_fst_set [simp]: "fst ` set (lm_set k v m) = fst ` set m"
  by (metis lm_set_keys set_map)

lemma map_of_lm_set: "map_of (lm_set k v m) = (if map_of m k = None then map_of m else (map_of m)(k \<mapsto> v))"
  by (induction m) (auto simp: fun_upd_twist)

lemma lm_set_mem:
  assumes "(k', w) \<in> set (lm_set k v m)" "distinct (map fst m)"
  shows "(k' = k \<and> w = v) \<or> (k' \<noteq> k \<and> (k', w) \<in> set m)"
  using assms
proof (induction m)
  case (Cons x m)
  then show ?case by (cases "fst x = k") (auto intro: rev_image_eqI)
qed simp

lemma option_eqI: "(\<And>w. (x = Some w) = (y = Some w)) \<Longrightarrow> x = y"
  by (cases x; cases y) auto

lemma find_Some_nth:
  "find P xs = Some x \<Longrightarrow> x \<in> set xs \<and> P x"
  by (auto simp: find_Some_iff)

section \<open>Removal\<close>

locale linear_map =
  fixes R :: removal_order
  assumes removal: "i < n \<Longrightarrow> distinct (R i n) \<and> set (R i n) = {..<n} - {i}"
begin

lemma removal_length: "i < n \<Longrightarrow> length (R i n) = n - 1"
  using removal [of i n] distinct_card [of "R i n"] by (simp add: card_Diff_singleton)

lemma lm_remove_absent: "map_of m k = None \<Longrightarrow> lm_remove R k m = (None, m)"
proof -
  assume "map_of m k = None"
  then have "\<forall>i < length m. fst (m ! i) \<noteq> k"
    by (metis domIff dom_map_of_conv_image_fst image_eqI nth_mem)
  then have "find (\<lambda>i. fst (m ! i) = k) [0..<length m] = None" by (auto simp: find_None_iff)
  then show ?thesis by (simp add: lm_remove_def)
qed

lemma lm_remove_found:
  assumes "distinct (map fst m)" "j < length m" "m ! j = (k, v)"
  shows "lm_remove R k m = (Some v, map ((!) m) (R j (length m)))"
proof -
  have uniq: "i = j" if "i < length m" "fst (m ! i) = k" for i
    using nth_eq_iff_index_eq [OF assms(1), of i j] that assms(2,3) by simp
  obtain i where i: "find (\<lambda>i. fst (m ! i) = k) [0..<length m] = Some i"
    using assms(2,3) by (cases "find (\<lambda>i. fst (m ! i) = k) [0..<length m]") (auto simp: find_None_iff)
  with find_Some_nth [OF i] have "i = j" using uniq by simp
  then show ?thesis using i assms(3) by (simp add: lm_remove_def)
qed

lemma lm_remove_positions:
  assumes "distinct (map fst m)" "j < length m" "m ! j = (k, v)"
  shows "distinct (map fst (map ((!) m) (R j (length m))))" "set (map ((!) m) (R j (length m))) = set m - {(k, v)}"
proof -
  have R: "distinct (R j (length m))" "set (R j (length m)) = {..<length m} - {j}" using removal [OF assms(2)] by auto
  have inj: "inj_on (\<lambda>i. fst (m ! i)) {..<length m}"
    using nth_eq_iff_index_eq [OF assms(1)] by (auto simp: inj_on_def)
  then show "distinct (map fst (map ((!) m) (R j (length m))))"
    using R by (simp add: distinct_map comp_def inj_on_subset)
  have "inj_on ((!) m) {..<length m}" using inj by (auto simp: inj_on_def)
  then have "(!) m ` ({..<length m} - {j}) = (!) m ` {..<length m} - (!) m ` {j}"
    by (rule inj_on_image_set_diff) (use assms(2) in auto)
  moreover have "(!) m ` {..<length m} = set m" by (auto simp: set_conv_nth)
  ultimately show "set (map ((!) m) (R j (length m))) = set m - {(k, v)}" using R(2) assms(3) by simp
qed

lemma lm_remove_present:
  assumes "distinct (map fst m)" "map_of m k = Some v"
  obtains m' where "lm_remove R k m = (Some v, m')" "set m' = set m - {(k, v)}" "distinct (map fst m')"
    "length m' = length m - 1"
proof -
  obtain j where j: "j < length m" "m ! j = (k, v)"
    using map_of_SomeD [OF assms(2)] by (auto simp: in_set_conv_nth)
  show thesis
    using that lm_remove_found [OF assms(1) j] lm_remove_positions [OF assms(1) j] removal_length [OF j(1)] by simp
qed

lemma lm_remove_distinct [simp]:
  assumes "distinct (map fst m)"
  shows "distinct (map fst (snd (lm_remove R k m)))"
proof (cases "map_of m k")
  case (Some v)
  show ?thesis by (rule lm_remove_present [OF assms Some]) simp
qed (use assms in \<open>simp add: lm_remove_absent\<close>)

lemma lm_remove_set:
  assumes "distinct (map fst m)"
  shows "set (snd (lm_remove R k m)) = {x \<in> set m. fst x \<noteq> k}"
proof (cases "map_of m k")
  case (Some v)
  obtain m' where m': "lm_remove R k m = (Some v, m')" "set m' = set m - {(k, v)}"
    by (rule lm_remove_present [OF assms Some])
  have "x = (k, v)" if "x \<in> set m" "fst x = k" for x
  proof -
    have "(k, snd x) \<in> set m" using that by auto
    then have "snd x = v" using Some map_of_is_SomeI [OF assms, of k "snd x"] by simp
    then show ?thesis using that(2) by (metis prod.collapse)
  qed
  then show ?thesis using m' by fastforce
next
  case None
  then have "fst x \<noteq> k" if "x \<in> set m" for x using that by (auto simp: map_of_eq_None_iff)
  then show ?thesis by (auto simp: lm_remove_absent [OF None])
qed

lemma lm_remove_map_of [simp]:
  assumes "distinct (map fst m)"
  shows "map_of (snd (lm_remove R k m)) = (map_of m)(k := None)"
proof
  fix k'
  show "map_of (snd (lm_remove R k m)) k' = ((map_of m)(k := None)) k'"
  proof (rule option_eqI)
    fix w
    show "(map_of (snd (lm_remove R k m)) k' = Some w) = (((map_of m)(k := None)) k' = Some w)"
      using map_of_eq_Some_iff [OF lm_remove_distinct [OF assms], of k k' w] map_of_eq_Some_iff [OF assms, of k' w]
      by (simp add: lm_remove_set [OF assms])
  qed
qed

lemma lm_remove_old_length:
  assumes "distinct (map fst m)"
  shows "fst (lm_remove R k m) = map_of m k"
    "length (snd (lm_remove R k m)) = (if map_of m k = None then length m else length m - 1)"
proof -
  have "fst (lm_remove R k m) = map_of m k
    \<and> length (snd (lm_remove R k m)) = (if map_of m k = None then length m else length m - 1)"
  proof (cases "map_of m k")
    case (Some v)
    show ?thesis by (rule lm_remove_present [OF assms Some]) (use Some in simp)
  qed (simp add: lm_remove_absent)
  then show "fst (lm_remove R k m) = map_of m k"
    "length (snd (lm_remove R k m)) = (if map_of m k = None then length m else length m - 1)" by blast+
qed

lemmas lm_remove_old [simp] = lm_remove_old_length(1)
lemmas lm_remove_length = lm_remove_old_length(2)

end

section \<open>Moving the last entry into the gap\<close>

definition swap_order :: removal_order where
  "swap_order i n = (if i < n - 1 then [0..<i] @ [n - 1] @ [Suc i..<n - 1] else [0..<n - 1])"

interpretation swap: linear_map swap_order
  by unfold_locales (auto simp: swap_order_def)

end
