(* ===== verification/Thp_Context.thy ===== *)
theory Thp_Context
  imports Thp_Time Thp_Linear_Map Thp_Device
begin

text \<open>
  The firmware's THP context, \<open>core/embed/rust/src/thp/mod.rs\<close>: the interfaces with their
  multiplexers, the channels in the handshake phase and the established channels, what the
  event loop can do with them, and the auxiliary data shared with the credential check. The
  static variables that the methods reach (\<open>THP_AUX\<close> and its lock, \<open>CHANNEL_ID_COUNTER\<close>) are
  fields of the state. Arguments of the model are the cryptographic library \<open>B\<close>, the order \<open>R\<close>
  in which a map continues after a removal, the clock, the callback of the credential check
  and the ephemeral keys.
\<close>

section \<open>Errors\<close>

datatype context_error =
    Protocol thp_error
  | CannotUnlock
  | ChannelNotFound
  | InterfaceNotFound
  | TooManyInterfaces
  | UnexpectedPacketInResult
  | InvalidKeyLength

type_synonym 'a context_result = "('a, context_error) result"

fun thp_exception_str :: "thp_error \<Rightarrow> string" where
  "thp_exception_str UnexpectedInput = ''Unexpected input''"
| "thp_exception_str NotReady = ''Not ready''"
| "thp_exception_str MalformedData = ''Malformed data''"
| "thp_exception_str CryptoError = ''Crypto error''"
| "thp_exception_str InvalidChecksum = ''Invalid checksum''"
| "thp_exception_str InsufficientBuffer = ''Insufficient buffer''"

fun context_error_str :: "context_error \<Rightarrow> string" where
  "context_error_str (Protocol e) = thp_exception_str e"
| "context_error_str CannotUnlock = ''THP context is locked''"
| "context_error_str ChannelNotFound = ''Channel not found''"
| "context_error_str InterfaceNotFound = ''Interface not found''"
| "context_error_str TooManyInterfaces = ''Too many interfaces''"
| "context_error_str UnexpectedPacketInResult = ''Unexpected packet in result''"
| "context_error_str InvalidKeyLength = ''Invalid key length''"

section \<open>State\<close>

definition MAX_INTERFACES :: "bool \<Rightarrow> nat" where "MAX_INTERFACES ble = (if ble then 2 else 1)"

definition MAX_CHANNELS_OPENING :: nat where "MAX_CHANNELS_OPENING = 4"

definition MAX_CHANNELS_APPDATA :: nat where "MAX_CHANNELS_APPDATA = 10"

record 'a channel_entry =
  che_channel :: 'a
  che_iface_num :: u8
  che_timing :: channel_timing

record auxiliary_info =
  host_keys :: "bytes list"
  credentials :: "(u16 \<times> bytes) list"

record ('c, 'h) thp_context =
  ifaces :: "(u8 \<times> device_mux) list"
  channel_opening :: "(u16 \<times> ('c, 'h) device_open channel_entry) list"
  channel_appdata :: "(u16 \<times> 'c channel channel_entry) list"
  channel_closed :: bool
  last_usage_counter :: u32
  now_instant :: "instant option"
  thp_aux :: auxiliary_info
  thp_aux_locked :: bool
  channel_id_counter :: channel_id_allocator

datatype trezor_in_result =
    InNone
  | InRoute u16 "u16 option"
  | InFailed
  | InKeyRequired bool
  | InMessageReady
  | InMessageReadyAck
  | InAck

definition aux_new :: auxiliary_info where "aux_new = \<lparr>host_keys = [], credentials = []\<rparr>"

definition context_new :: "channel_id_allocator \<Rightarrow> ('c, 'h) thp_context" where
  "context_new counter =
     \<lparr>ifaces = [], channel_opening = [], channel_appdata = [], channel_closed = False, last_usage_counter = 0,
      now_instant = None, thp_aux = aux_new, thp_aux_locked = False, channel_id_counter = counter\<rparr>"

section \<open>Auxiliary data\<close>

definition insert_replace_queue :: "nat \<Rightarrow> 'a list \<Rightarrow> 'a \<Rightarrow> 'a list context_result" where
  "insert_replace_queue capacity queue elem =
     (let queue = if length queue = capacity then tl queue else queue in
      case deque_push_back capacity queue elem of Some q \<Rightarrow> Ok q | None \<Rightarrow> Panic)"

definition add_credential :: "u16 \<Rightarrow> bytes \<Rightarrow> auxiliary_info \<Rightarrow> auxiliary_info context_result" where
  "add_credential cid credential aux =
     (case vec_from_slice MAX_CREDENTIAL_LEN credential of
        None \<Rightarrow> Ok aux
      | Some credential \<Rightarrow>
          map_ok (\<lambda>q. aux\<lparr>credentials := q\<rparr>)
            (insert_replace_queue MAX_CHANNELS_APPDATA (credentials aux) (cid, credential)))"

definition get_credential :: "u16 \<Rightarrow> auxiliary_info \<Rightarrow> bytes option" where
  "get_credential cid aux = map_option snd (find (\<lambda>(c, _). c = cid) (credentials aux))"

definition delete_credential :: "u16 \<Rightarrow> auxiliary_info \<Rightarrow> auxiliary_info" where
  "delete_credential cid aux = aux\<lparr>credentials := filter (\<lambda>(c, _). c \<noteq> cid) (credentials aux)\<rparr>"

definition delete_credential_all :: "auxiliary_info \<Rightarrow> auxiliary_info" where
  "delete_credential_all aux = aux\<lparr>credentials := []\<rparr>"

text \<open>The keys of the established channels; extending the vector beyond its capacity panics.\<close>

fun collect_host_keys :: "u8 \<Rightarrow> (u16 \<times> 'c channel channel_entry) list \<Rightarrow> bytes list context_result" where
  "collect_host_keys iface_num [] = Ok []"
| "collect_host_keys iface_num ((_, che) # m) =
     (if che_iface_num che = iface_num \<and> is_encrypted_transport (che_channel che) then
        and_then (map_err Protocol (channel_remote_static_pubkey (che_channel che))) (\<lambda>key.
        map_ok ((#) key) (collect_host_keys iface_num m))
      else collect_host_keys iface_num m)"

definition host_keys_copy_from ::
  "u8 \<Rightarrow> (u16 \<times> 'c channel channel_entry) list \<Rightarrow> auxiliary_info \<Rightarrow> auxiliary_info context_result" where
  "host_keys_copy_from iface_num channels aux =
     and_then (collect_host_keys iface_num channels) (\<lambda>keys.
     case vec_extend MAX_CHANNELS_APPDATA [] keys of
       Some keys \<Rightarrow> Ok (aux\<lparr>host_keys := keys\<rparr>)
     | None \<Rightarrow> Panic)"

definition host_keys_contain :: "bytes \<Rightarrow> auxiliary_info \<Rightarrow> bool" where
  "host_keys_contain host_key aux \<longleftrightarrow> length host_key = PUBKEY_LEN \<and> host_key \<in> set (host_keys aux)"

section \<open>Credential check\<close>

text \<open>
  The callback is a Python function or none; \<open>None\<close> as its result stands for an exception and
  for a value that is no byte.
\<close>

type_synonym verify_fn = "(bytes \<Rightarrow> bytes \<Rightarrow> u8 option) option"

definition trezor_verify ::
  "u16 \<Rightarrow> verify_fn \<Rightarrow> bool \<Rightarrow> bytes \<Rightarrow> bytes \<Rightarrow> auxiliary_info \<Rightarrow> (pairing_state \<times> auxiliary_info) context_result" where
  "trezor_verify cid verify_fn locked remote_static_pubkey credential aux =
     (if credential = [] \<or> remote_static_pubkey = [] then Ok (Unpaired, aux)
      else case verify_fn of
        None \<Rightarrow> Ok (Unpaired, aux)
      | Some f \<Rightarrow>
          (case f remote_static_pubkey credential of
             None \<Rightarrow> Ok (Unpaired, aux)
           | Some b \<Rightarrow>
               (case pairing_state_from_u8 b of
                  Ok ps \<Rightarrow>
                    if ps = Paired then
                      if locked then Ok (Unpaired, aux)
                      else
                        and_then (add_credential cid credential aux) (\<lambda>aux.
                        Ok (if host_keys_contain remote_static_pubkey aux then PairedAutoconnect else ps, aux))
                    else Ok (ps, aux)
                | _ \<Rightarrow> Ok (Unpaired, aux))))"

text \<open>
  The handshake object calls the check at most once per packet. These are the arguments of
  the call, if there is one: the key and the credential of a completion request that can be
  read. They tell what the call does to the auxiliary data.
\<close>

definition completion_call :: "('c, 'h) backend \<Rightarrow> 'h \<Rightarrow> bytes \<Rightarrow> (bytes \<times> bytes) option" where
  "completion_call B hss incoming =
     (let overhead_len = hs_overhead B hss; cred_len = length incoming - overhead_len in
      if length incoming < overhead_len \<or> cred_len > MAX_CREDENTIAL_LEN then None
      else
        let (res, (hss, cred)) = hs_read_message B hss incoming (replicate cred_len 0) in
        if \<not> is_ok res \<or> \<not> hs_completed B hss then None
        else case hs_get_rs B hss of
          None \<Rightarrow> None
        | Some rs \<Rightarrow>
            if length rs = PUBKEY_LEN \<and> length (hs_get_hash B hss) = HANDSHAKE_HASH_LEN then Some (rs, cred) else None)"

definition verify_call :: "('c, 'h) backend \<Rightarrow> ('c, 'h) device_open \<Rightarrow> bytes \<Rightarrow> (bytes \<times> bytes) option" where
  "verify_call B d packet_buffer =
     (let (res, (ch, receive_buffer)) = channel_packet_in Device (do_channel d) packet_buffer (do_receive_buffer d) in
      case res of
        Ok (Accepted _ True _ None) \<Rightarrow>
          (case fst (raw_out ch receive_buffer) of
             Ok (h, len) \<Rightarrow>
               if do_state d = SendingInitiationResponse \<and> header_handshake_phase h = Some CompletionRequest
               then completion_call B (do_noise d) (take len receive_buffer) else None
           | _ \<Rightarrow> None)
      | _ \<Rightarrow> None)"

section \<open>Helpers\<close>

definition context_now :: "instant \<Rightarrow> ('c, 'h) thp_context \<Rightarrow> instant" where
  "context_now clock w = (case now_instant w of Some i \<Rightarrow> i | None \<Rightarrow> clock)"

definition last_usage_next :: "('c, 'h) thp_context \<Rightarrow> u32 \<times> ('c, 'h) thp_context" where
  "last_usage_next w = (let n = last_usage_counter w + 1 in (n, w\<lparr>last_usage_counter := n\<rparr>))"

text \<open>The search for an unused id; not returning is the value \<open>None\<close>.\<close>

partial_function (option) channel_id_search ::
  "(u16 \<Rightarrow> bool) \<Rightarrow> channel_id_allocator \<Rightarrow> (u16 \<times> channel_id_allocator) option" where
  "channel_id_search is_unique a =
     (let (result, a) = id_allocator_get a in
      if is_unique result then Some (result, a) else channel_id_search is_unique a)"

definition get_channel_id :: "('c, 'h) thp_context \<Rightarrow> (u16 \<times> channel_id_allocator) option" where
  "get_channel_id w =
     channel_id_search (\<lambda>cid. map_of (channel_appdata w) cid = None \<and> map_of (channel_opening w) cid = None)
       (channel_id_counter w)"

definition lru_needs_closing :: "nat \<Rightarrow> (u16 \<times> 'a channel_entry) list \<Rightarrow> u16 option context_result" where
  "lru_needs_closing capacity channels =
     (if length channels \<noteq> capacity then Ok None
      else case least_recently_used (map (\<lambda>(cid, che). (cid, che_timing che)) channels) of
        None \<Rightarrow> Panic
      | Some cid \<Rightarrow> Ok (Some cid))"

definition insert_channel ::
  "nat \<Rightarrow> (u16 \<times> 'a channel_entry) list \<Rightarrow> u8 \<Rightarrow> u16 \<Rightarrow> 'a \<Rightarrow> channel_timing \<Rightarrow> (u16 \<times> 'a channel_entry) list context_result" where
  "insert_channel capacity channels iface_num cid channel timing =
     (case lm_insert capacity cid \<lparr>che_channel = channel, che_iface_num = iface_num, che_timing = timing\<rparr> channels of
        Some (None, channels) \<Rightarrow> Ok channels
      | _ \<Rightarrow> Panic)"

definition lookup_channel :: "u16 \<Rightarrow> ('c, 'h) thp_context \<Rightarrow> 'c channel channel_entry context_result" where
  "lookup_channel cid w = ok_or ChannelNotFound (map_of (channel_appdata w) cid)"

text \<open>Store what a method did to a channel that was looked up.\<close>

definition put_channel :: "u16 \<Rightarrow> 'c channel channel_entry \<Rightarrow> ('c, 'h) thp_context \<Rightarrow> ('c, 'h) thp_context" where
  "put_channel cid che w = w\<lparr>channel_appdata := lm_set cid che (channel_appdata w)\<rparr>"

definition put_opening :: "u16 \<Rightarrow> ('c, 'h) device_open channel_entry \<Rightarrow> ('c, 'h) thp_context \<Rightarrow> ('c, 'h) thp_context" where
  "put_opening cid che w = w\<lparr>channel_opening := lm_set cid che (channel_opening w)\<rparr>"

definition put_mux :: "u8 \<Rightarrow> device_mux \<Rightarrow> ('c, 'h) thp_context \<Rightarrow> ('c, 'h) thp_context" where
  "put_mux iface_num m w = w\<lparr>ifaces := lm_set iface_num m (ifaces w)\<rparr>"

section \<open>Closing channels\<close>

definition channel_close :: "removal_order \<Rightarrow> u16 \<Rightarrow> ('c, 'h) thp_context \<Rightarrow> ('c, 'h) thp_context" where
  "channel_close R cid w =
     (let (old, appdata) = lm_remove R cid (channel_appdata w);
          w = (case old of
                 Some che \<Rightarrow>
                   let w = w\<lparr>channel_appdata := appdata\<rparr> in
                   if is_encrypted_transport (che_channel che) then w\<lparr>channel_closed := True\<rparr> else w
               | None \<Rightarrow> w\<lparr>channel_opening := snd (lm_remove R cid (channel_opening w))\<rparr>)
      in if thp_aux_locked w then w else w\<lparr>thp_aux := delete_credential cid (thp_aux w)\<rparr>)"

definition channel_close_opt :: "removal_order \<Rightarrow> u16 option \<Rightarrow> ('c, 'h) thp_context \<Rightarrow> ('c, 'h) thp_context" where
  "channel_close_opt R cid w = (case cid of Some cid \<Rightarrow> channel_close R cid w | None \<Rightarrow> w)"

definition channel_close_all :: "u16 option \<Rightarrow> ('c, 'h) thp_context \<Rightarrow> ('c, 'h) thp_context" where
  "channel_close_all exclude w =
     (let w = w\<lparr>ifaces := map (\<lambda>(i, m). (i, device_mux_reset m)) (ifaces w),
                channel_appdata := filter (\<lambda>(cid, _). Some cid = exclude) (channel_appdata w),
                channel_opening := [], channel_closed := False\<rparr>
      in if thp_aux_locked w then w else w\<lparr>thp_aux := delete_credential_all (thp_aux w)\<rparr>)"

definition channel_was_closed :: "('c, 'h) thp_context \<Rightarrow> bool \<times> ('c, 'h) thp_context" where
  "channel_was_closed w = (channel_closed w, w\<lparr>channel_closed := False\<rparr>)"

definition channel_is_open :: "u16 \<Rightarrow> ('c, 'h) thp_context \<Rightarrow> bool" where
  "channel_is_open cid w \<longleftrightarrow>
     (case map_of (channel_appdata w) cid of None \<Rightarrow> False | Some che \<Rightarrow> is_encrypted_transport (che_channel che))"

section \<open>Interfaces and incoming packets\<close>

definition add_interface :: "bool \<Rightarrow> ('c, 'h) thp_context \<Rightarrow> u8 \<Rightarrow> bytes \<Rightarrow> unit context_result \<times> ('c, 'h) thp_context" where
  "add_interface ble w iface_num device_properties =
     (case map_of (ifaces w) iface_num of
        Some _ \<Rightarrow> (Ok (), w)
      | None \<Rightarrow>
          and_then_st (map_err Protocol (device_mux_new device_properties), w) (\<lambda>m w.
          case lm_insert (MAX_INTERFACES ble) iface_num m (ifaces w) of
            None \<Rightarrow> (Err TooManyInterfaces, w)
          | Some (_, muxes) \<Rightarrow> (Ok (), w\<lparr>ifaces := muxes\<rparr>)))"

text \<open>Outside of a packet the handshake object holds a check that has no callback.\<close>

definition no_verify :: credential_verifier where "no_verify remote_static_pubkey credential = Unpaired"

definition packet_in_alloc ::
  "('c, 'h) backend \<Rightarrow> removal_order \<Rightarrow> instant \<Rightarrow> ('c, 'h) thp_context \<Rightarrow> u8 \<Rightarrow> unit context_result \<times> ('c, 'h) thp_context" where
  "packet_in_alloc B R clock w iface_num =
     (case get_channel_id w of
        None \<Rightarrow> (Panic, w)
      | Some (cid, counter) \<Rightarrow>
          let w = w\<lparr>channel_id_counter := counter\<rparr> in
          and_then_st (ok_or InterfaceNotFound (map_of (ifaces w) iface_num), w) (\<lambda>mux w.
          let (res, mux) = device_channel_alloc B mux cid no_verify in
          and_then_st (map_err Protocol res, put_mux iface_num mux w) (\<lambda>channel w.
          and_then_st (lru_needs_closing MAX_CHANNELS_OPENING (channel_opening w), w) (\<lambda>lru w.
          let w = channel_close_opt R lru w;
              timing = channel_timing_new (context_now clock w);
              (n, w) = last_usage_next w;
              timing = update_last_usage n timing
          in and_then_st (insert_channel MAX_CHANNELS_OPENING (channel_opening w) iface_num cid channel timing, w) (\<lambda>opening w.
             (Ok (), w\<lparr>channel_opening := opening\<rparr>))))))"

text \<open>The end of the handshake: the channel moves to the established ones.\<close>

definition handshake_finish ::
  "removal_order \<Rightarrow> ('c, 'h) thp_context \<Rightarrow> u16 \<Rightarrow> unit context_result \<times> ('c, 'h) thp_context" where
  "handshake_finish R w cid =
     (let (old, opening) = lm_remove R cid (channel_opening w) in
      case old of
        None \<Rightarrow> (Panic, w)
      | Some che \<Rightarrow>
          and_then_st (map_err Protocol (device_complete (che_channel che)), w\<lparr>channel_opening := opening\<rparr>) (\<lambda>channel w.
          let (n, w) = last_usage_next w;
              timing = update_last_usage n (che_timing che)
          in and_then_st (lru_needs_closing MAX_CHANNELS_APPDATA (channel_appdata w), w) (\<lambda>lru w.
             let w = channel_close_opt R lru w in
             and_then_st
               (insert_channel MAX_CHANNELS_APPDATA (channel_appdata w) (che_iface_num che) cid channel timing, w)
               (\<lambda>appdata w. (Ok (), w\<lparr>channel_appdata := appdata\<rparr>)))))"

definition handshake_result ::
  "removal_order \<Rightarrow> ('c, 'h) thp_context \<Rightarrow> u16 \<Rightarrow> ('c, 'h) device_open \<Rightarrow> packet_in_result
     \<Rightarrow> trezor_in_result context_result \<times> ('c, 'h) thp_context" where
  "handshake_result R w cid d pir =
     (let finish = (\<lambda>res. if device_handshake_done d
        then and_then_st (handshake_finish R w cid) (\<lambda>_ w. (Ok res, w)) else (Ok res, w))
      in case pir of
           Accepted _ _ _ _ \<Rightarrow> finish InNone
         | Ignored _ \<Rightarrow> finish InNone
         | Failed _ \<Rightarrow> (Ok InNone, channel_close R cid w)
         | HandshakeKeyRequired try_to_unlock \<Rightarrow> finish (InKeyRequired try_to_unlock)
         | _ \<Rightarrow> (Err UnexpectedPacketInResult, w))"

definition handshake_timing ::
  "instant \<Rightarrow> packet_in_result \<Rightarrow> ('c, 'h) device_open \<Rightarrow> channel_timing \<Rightarrow> channel_timing" where
  "handshake_timing now pir d timing =
     (let timing = if got_ack pir then read_ack now timing else timing in
      if got_message pir \<and> device_sending_retry d = Some 0 then update_last_write now timing else timing)"

definition packet_in_handshake ::
  "('c, 'h) backend \<Rightarrow> removal_order \<Rightarrow> instant \<Rightarrow> verify_fn \<Rightarrow> ('c, 'h) thp_context \<Rightarrow> u16 \<Rightarrow> bytes
     \<Rightarrow> trezor_in_result context_result \<times> ('c, 'h) thp_context" where
  "packet_in_handshake B R clock verify_fn w cid packet_buffer =
     (let now = context_now clock w in
      and_then_st (ok_or ChannelNotFound (map_of (channel_opening w) cid), w) (\<lambda>che w.
      if thp_aux_locked w then (Err CannotUnlock, w)
      else
        and_then_st (host_keys_copy_from (che_iface_num che) (channel_appdata w) (thp_aux w), w) (\<lambda>aux w.
        let verify = (\<lambda>key cred. case trezor_verify cid verify_fn False key cred aux of
              Ok (ps, _) \<Rightarrow> ps | _ \<Rightarrow> Unpaired);
            d = (che_channel che)\<lparr>do_cred_verif := verify\<rparr>
        in and_then_st
             (case verify_call B d packet_buffer of
                None \<Rightarrow> Ok aux
              | Some (key, cred) \<Rightarrow> map_ok snd (trezor_verify cid verify_fn False key cred aux), w) (\<lambda>aux w.
           let (pir, d) = device_open_packet_in B d packet_buffer;
               d = d\<lparr>do_cred_verif := no_verify\<rparr>
           in and_then_st (map_err Protocol pir, w\<lparr>thp_aux := aux\<rparr>) (\<lambda>pir w.
              let w = put_opening cid (che\<lparr>che_channel := d, che_timing := handshake_timing now pir d (che_timing che)\<rparr>) w
              in handshake_result R w cid d pir)))))"

text \<open>Only packets that start a message are answered.\<close>

definition starts_message :: "bytes \<Rightarrow> bool" where
  "starts_message packet_buffer \<longleftrightarrow>
     (case packet_buffer of
        [] \<Rightarrow> False
      | b # _ \<Rightarrow> (case control_byte_try_from b of Ok cb \<Rightarrow> \<not> cb_is_continuation cb | _ \<Rightarrow> False))"

definition packet_unallocated ::
  "('c, 'h) thp_context \<Rightarrow> u8 \<Rightarrow> device_mux \<Rightarrow> u16 \<Rightarrow> bytes \<Rightarrow> trezor_in_result context_result \<times> ('c, 'h) thp_context" where
  "packet_unallocated w iface_num mux cid packet_buffer =
     (if starts_message packet_buffer then
        let (res, mux) = send_unallocated_channel mux cid
        in and_then_st (map_err Protocol res, put_mux iface_num mux w) (\<lambda>_ w. (Ok InNone, w))
      else (Ok InNone, w))"

definition packet_in ::
  "('c, 'h) backend \<Rightarrow> removal_order \<Rightarrow> instant \<Rightarrow> verify_fn \<Rightarrow> ('c, 'h) thp_context \<Rightarrow> u8 \<Rightarrow> bytes
     \<Rightarrow> trezor_in_result context_result \<times> ('c, 'h) thp_context" where
  "packet_in B R clock verify_fn w iface_num packet_buffer =
     and_then_st (ok_or InterfaceNotFound (map_of (ifaces w) iface_num), w) (\<lambda>mux w.
     let (pir, mux) = device_mux_packet_in mux packet_buffer in
     and_then_st (map_err Protocol pir, put_mux iface_num mux w) (\<lambda>pir w.
     case pir of
       Accepted _ _ _ _ \<Rightarrow> (Ok InNone, w)
     | Ignored _ \<Rightarrow> (Ok InNone, w)
     | Route cid size_needed \<Rightarrow>
         (case map_of (channel_opening w) cid of
            Some che \<Rightarrow>
              if che_iface_num che = iface_num then packet_in_handshake B R clock verify_fn w cid packet_buffer
              else packet_unallocated w iface_num mux cid packet_buffer
          | None \<Rightarrow>
              (case map_of (channel_appdata w) cid of
                 Some che \<Rightarrow>
                   if che_iface_num che = iface_num then (Ok (InRoute cid size_needed), w)
                   else packet_unallocated w iface_num mux cid packet_buffer
               | None \<Rightarrow> packet_unallocated w iface_num mux cid packet_buffer))
     | ChannelAllocation \<Rightarrow> and_then_st (packet_in_alloc B R clock w iface_num) (\<lambda>_ w. (Ok InNone, w))
     | _ \<Rightarrow> (Err UnexpectedPacketInResult, w)))"

definition packet_in_channel ::
  "removal_order \<Rightarrow> instant \<Rightarrow> ('c, 'h) thp_context \<Rightarrow> u16 \<Rightarrow> bytes \<Rightarrow> bytes
     \<Rightarrow> trezor_in_result context_result \<times> (('c, 'h) thp_context \<times> bytes)" where
  "packet_in_channel R clock w cid packet_buffer receive_buffer =
     (let now = context_now clock w in
      and_then_st (lookup_channel cid w, (w, receive_buffer)) (\<lambda>che (w, receive_buffer).
      let (pir, (ch, receive_buffer)) = channel_packet_in Device (che_channel che) packet_buffer receive_buffer;
          che = che\<lparr>che_channel := ch\<rparr>
      in and_then_st (map_err Protocol pir, (put_channel cid che w, receive_buffer)) (\<lambda>pir (w, receive_buffer).
         case pir of
           Accepted acked ready _ _ \<Rightarrow>
             let w = (if acked then put_channel cid (che\<lparr>che_timing := read_ack now (che_timing che)\<rparr>) w else w)
             in (Ok (if ready \<and> acked then InMessageReadyAck
                     else if ready then InMessageReady
                     else if acked then InAck else InNone), (w, receive_buffer))
         | Ignored _ \<Rightarrow> (Ok InNone, (w, receive_buffer))
         | Failed _ \<Rightarrow> (Ok InFailed, (channel_close R cid w, receive_buffer))
         | PeerError _ \<Rightarrow> (Ok InFailed, (channel_close R cid w, receive_buffer))
         | _ \<Rightarrow> (Err UnexpectedPacketInResult, (w, receive_buffer)))))"

section \<open>Outgoing packets\<close>

text \<open>
  The loop over the channels in the handshake phase: the first one of the interface that has a
  packet writes it; a channel that has failed with it is reported.
\<close>

fun packet_out_loop ::
  "u8 \<Rightarrow> (u16 \<times> ('c, 'h) device_open channel_entry) list \<Rightarrow> bytes
     \<Rightarrow> (bool \<times> u16 option) context_result \<times> ((u16 \<times> ('c, 'h) device_open channel_entry) list \<times> bytes)" where
  "packet_out_loop out_iface_num [] packet_buffer = (Ok (False, None), ([], packet_buffer))"
| "packet_out_loop out_iface_num ((cid, che) # m) packet_buffer =
     (if che_iface_num che = out_iface_num \<and> channel_packet_out_ready (do_channel (che_channel che)) then
        let (res, (d, packet_buffer)) = device_open_packet_out (che_channel che) packet_buffer in
        (map_ok (\<lambda>_. (True, if device_handshake_failed d then Some (channel_id (do_channel d)) else None))
           (map_err Protocol res), ((cid, che\<lparr>che_channel := d\<rparr>) # m, packet_buffer))
      else
        let (res, (m, packet_buffer)) = packet_out_loop out_iface_num m packet_buffer
        in (res, ((cid, che) # m, packet_buffer)))"

definition packet_out ::
  "removal_order \<Rightarrow> ('c, 'h) thp_context \<Rightarrow> u8 \<Rightarrow> bytes \<Rightarrow> bool context_result \<times> (('c, 'h) thp_context \<times> bytes)" where
  "packet_out R w out_iface_num packet_buffer =
     and_then_st (ok_or InterfaceNotFound (map_of (ifaces w) out_iface_num), (w, packet_buffer)) (\<lambda>mux (w, packet_buffer).
     if device_mux_packet_out_ready mux then
       let (res, (mux, packet_buffer)) = device_mux_packet_out mux packet_buffer
       in and_then_st (map_err Protocol res, (put_mux out_iface_num mux w, packet_buffer)) (\<lambda>_ st. (Ok True, st))
     else
       let (res, (opening, packet_buffer)) = packet_out_loop out_iface_num (channel_opening w) packet_buffer
       in and_then_st (res, (w\<lparr>channel_opening := opening\<rparr>, packet_buffer)) (\<lambda>(written, failed) (w, packet_buffer).
          (Ok written, (channel_close_opt R failed w, packet_buffer))))"

definition packet_out_channel ::
  "removal_order \<Rightarrow> ('c, 'h) thp_context \<Rightarrow> u16 \<Rightarrow> bytes \<Rightarrow> bytes
     \<Rightarrow> bool context_result \<times> (('c, 'h) thp_context \<times> bytes)" where
  "packet_out_channel R w cid send_buffer packet_buffer =
     and_then_st (lookup_channel cid w, (w, packet_buffer)) (\<lambda>che (w, packet_buffer).
     let (res, (ch, packet_buffer)) = channel_packet_out Device (che_channel che) packet_buffer send_buffer;
         w = put_channel cid (che\<lparr>che_channel := ch\<rparr>) w;
         w = (if is_failed ch then channel_close R cid w else w)
     in (case res of
           Ok _ \<Rightarrow> Ok True
         | Err e \<Rightarrow> if e = NotReady then Ok False else Err (Protocol e)
         | Panic \<Rightarrow> Panic, (w, packet_buffer)))"

section \<open>Messages\<close>

definition message_out ::
  "('c, 'h) backend \<Rightarrow> ('c, 'h) thp_context \<Rightarrow> u16 \<Rightarrow> bytes
     \<Rightarrow> (u8 \<times> u16 \<times> nat) context_result \<times> (('c, 'h) thp_context \<times> bytes)" where
  "message_out B w cid receive_buffer =
     and_then_st (lookup_channel cid w, (w, receive_buffer)) (\<lambda>che (w, receive_buffer).
     let (res, (ch, receive_buffer)) = channel_message_out B Device (che_channel che) receive_buffer
     in (map_ok (\<lambda>(sid, message_type, message). (sid, message_type, length message)) (map_err Protocol res),
         (put_channel cid (che\<lparr>che_channel := ch\<rparr>) w, receive_buffer)))"

definition message_in ::
  "('c, 'h) backend \<Rightarrow> instant \<Rightarrow> ('c, 'h) thp_context \<Rightarrow> u16 \<Rightarrow> nat \<Rightarrow> bytes
     \<Rightarrow> unit context_result \<times> (('c, 'h) thp_context \<times> bytes)" where
  "message_in B clock w cid plaintext_len send_buffer =
     (let now = context_now clock w in
      and_then_st (lookup_channel cid w, (w, send_buffer)) (\<lambda>che (w, send_buffer).
      let (res, (ch, send_buffer)) = channel_message_in B (che_channel che) plaintext_len send_buffer;
          che = che\<lparr>che_channel := ch\<rparr>
      in and_then_st (map_err Protocol res, (put_channel cid che w, send_buffer)) (\<lambda>_ (w, send_buffer).
         (Ok (), (put_channel cid (che\<lparr>che_timing := update_last_write now (che_timing che)\<rparr>) w, send_buffer)))))"

definition retransmit_result ::
  "removal_order \<Rightarrow> u16 \<Rightarrow> u8 option \<Rightarrow> ('c, 'h) thp_context \<Rightarrow> bool context_result \<times> ('c, 'h) thp_context" where
  "retransmit_result R cid retry w =
     (case retry of
        None \<Rightarrow> (Ok True, w)
      | Some r \<Rightarrow> if r > MAX_RETRANSMISSION_COUNT then (Ok False, channel_close R cid w) else (Ok True, w))"

definition message_retransmit ::
  "removal_order \<Rightarrow> ('c, 'h) thp_context \<Rightarrow> u16 \<Rightarrow> bool context_result \<times> ('c, 'h) thp_context" where
  "message_retransmit R w cid =
     (case map_of (channel_appdata w) cid of
        Some che \<Rightarrow>
          let (res, ch) = channel_message_retransmit (che_channel che)
          in and_then_st (map_err Protocol res, put_channel cid (che\<lparr>che_channel := ch\<rparr>) w) (\<lambda>_ w.
             retransmit_result R cid (sending_retry ch) w)
      | None \<Rightarrow>
          (case map_of (channel_opening w) cid of
             Some che \<Rightarrow>
               let (res, d) = device_open_retransmit (che_channel che)
               in and_then_st (map_err Protocol res, put_opening cid (che\<lparr>che_channel := d\<rparr>) w) (\<lambda>_ w.
                  retransmit_result R cid (device_sending_retry d) w)
           | None \<Rightarrow> (Err ChannelNotFound, w)))"

definition context_message_out_ready :: "('c, 'h) thp_context \<Rightarrow> u8 \<Rightarrow> u16 option" where
  "context_message_out_ready w iface_num =
     map_option fst (find (\<lambda>(_, che). channel_message_out_ready (che_channel che))
       (filter (\<lambda>(_, che). che_iface_num che = iface_num) (channel_appdata w)))"

section \<open>State of channels\<close>

definition handshake_hash :: "('c, 'h) thp_context \<Rightarrow> u16 \<Rightarrow> bytes context_result" where
  "handshake_hash w cid =
     and_then (lookup_channel cid w) (\<lambda>che. map_err Protocol (channel_handshake_hash (che_channel che)))"

definition remote_static_pubkey :: "('c, 'h) thp_context \<Rightarrow> u16 \<Rightarrow> bytes context_result" where
  "remote_static_pubkey w cid =
     and_then (lookup_channel cid w) (\<lambda>che. map_err Protocol (channel_remote_static_pubkey (che_channel che)))"

definition channel_info :: "instant \<Rightarrow> ('c, 'h) thp_context \<Rightarrow> u16 \<Rightarrow> (u32 option \<times> phase) context_result" where
  "channel_info clock w cid =
     and_then (lookup_channel cid w) (\<lambda>che.
     Ok (map_option to_millis (last_write_age (context_now clock w) (che_timing che)), channel_phase (che_channel che)))"

text \<open>The established channel of another id with the same key on the same interface.\<close>

fun find_replaced :: "u8 \<Rightarrow> u16 \<Rightarrow> bytes \<Rightarrow> (u16 \<times> 'c channel channel_entry) list \<Rightarrow> u16 option context_result" where
  "find_replaced iface_num cid host_key [] = Ok None"
| "find_replaced iface_num cid host_key ((_, che) # m) =
     (if che_iface_num che = iface_num \<and> channel_id (che_channel che) \<noteq> cid
         \<and> is_encrypted_transport (che_channel che)
      then and_then (map_err Protocol (channel_remote_static_pubkey (che_channel che))) (\<lambda>key.
           if key = host_key then Ok (Some (channel_id (che_channel che))) else find_replaced iface_num cid host_key m)
      else find_replaced iface_num cid host_key m)"

definition channel_paired ::
  "removal_order \<Rightarrow> ('c, 'h) thp_context \<Rightarrow> u16 \<Rightarrow> u16 option context_result \<times> ('c, 'h) thp_context" where
  "channel_paired R w cid =
     and_then_st (lookup_channel cid w, w) (\<lambda>che w.
     if is_encrypted_transport (che_channel che) then (Ok None, w)
     else
       let ch = end_pairing (che_channel che); w = put_channel cid (che\<lparr>che_channel := ch\<rparr>) w in
       and_then_st (map_err Protocol (channel_remote_static_pubkey ch), w) (\<lambda>host_key w.
       and_then_st (find_replaced (che_iface_num che) cid host_key (channel_appdata w), w) (\<lambda>old w.
       let w = channel_close_opt R old w in
       if thp_aux_locked w then (Err CannotUnlock, w)
       else (Ok old, w\<lparr>thp_aux := delete_credential cid (thp_aux w)\<rparr>))))"

definition channel_update_last_usage :: "u16 \<Rightarrow> ('c, 'h) thp_context \<Rightarrow> ('c, 'h) thp_context" where
  "channel_update_last_usage cid w =
     (let (n, w) = last_usage_next w in
      case map_of (channel_appdata w) cid of
        None \<Rightarrow> w
      | Some che \<Rightarrow> put_channel cid (che\<lparr>che_timing := update_last_usage n (che_timing che)\<rparr>) w)"

text \<open>The channels of an interface that are sending, with the number of the retry.\<close>

definition sending_channels :: "('c, 'h) thp_context \<Rightarrow> u8 \<Rightarrow> (u16 \<times> u8 \<times> channel_timing) list" where
  "sending_channels w iface_num =
     List.map_filter (\<lambda>(_, che). map_option (\<lambda>retry. (channel_id (che_channel che), retry, che_timing che))
         (sending_retry (che_channel che)))
       (filter (\<lambda>(_, che). che_iface_num che = iface_num) (channel_appdata w))
     @ List.map_filter (\<lambda>(_, che). map_option (\<lambda>retry. (channel_id (do_channel (che_channel che)), retry, che_timing che))
         (device_sending_retry (che_channel che)))
       (filter (\<lambda>(_, che). che_iface_num che = iface_num) (channel_opening w))"

fun earliest_loop :: "instant \<Rightarrow> (u16 \<times> u32) option \<Rightarrow> (u16 \<times> u8 \<times> channel_timing) list \<Rightarrow> (u16 \<times> u32) option" where
  "earliest_loop now earliest [] = earliest"
| "earliest_loop now earliest ((cid, retry, timing) # sending) =
     (let t_cur = to_millis (timeout_from_now now retry timing) in
      case earliest of
        None \<Rightarrow> earliest_loop now (Some (cid, t_cur)) sending
      | Some (_, t_best) \<Rightarrow>
          if t_cur < t_best then earliest_loop now (Some (cid, t_cur)) sending
          else earliest_loop now earliest sending)"

definition next_timeout :: "instant \<Rightarrow> ('c, 'h) thp_context \<Rightarrow> u8 \<Rightarrow> (u16 \<times> u32) option" where
  "next_timeout clock w iface_num = earliest_loop (context_now clock w) None (sending_channels w iface_num)"

definition context_transport_busy :: "('c, 'h) thp_context \<Rightarrow> u16 \<Rightarrow> unit context_result \<times> ('c, 'h) thp_context" where
  "context_transport_busy w cid =
     and_then_st (lookup_channel cid w, w) (\<lambda>che w.
     (Ok (), put_channel cid (che\<lparr>che_channel := send_error TransportBusy (che_channel che)\<rparr>) w))"

section \<open>The static key\<close>

fun device_locked_loop ::
  "u8 \<Rightarrow> (u16 \<times> ('c, 'h) device_open channel_entry) list
     \<Rightarrow> thp_error option \<times> (u16 \<times> ('c, 'h) device_open channel_entry) list" where
  "device_locked_loop iface_num [] = (None, [])"
| "device_locked_loop iface_num ((cid, che) # m) =
     (let (err, m) = device_locked_loop iface_num m in
      if che_iface_num che = iface_num \<and> static_key_required (che_channel che) then
        (case send_device_locked (che_channel che) of
           (Err e, d) \<Rightarrow> (Some e, (cid, che\<lparr>che_channel := d\<rparr>) # m)
         | (_, d) \<Rightarrow> (err, (cid, che\<lparr>che_channel := d\<rparr>) # m))
      else (err, (cid, che) # m))"

definition context_device_locked :: "('c, 'h) thp_context \<Rightarrow> u8 \<Rightarrow> unit context_result \<times> ('c, 'h) thp_context" where
  "context_device_locked w iface_num =
     (let (first_err, opening) = device_locked_loop iface_num (channel_opening w); w = w\<lparr>channel_opening := opening\<rparr>
      in case first_err of None \<Rightarrow> (Ok (), w) | Some e \<Rightarrow> (Err (Protocol e), w))"

text \<open>Each channel that waits for the key gets it, with an ephemeral key of its own.\<close>

fun static_key_loop ::
  "('c, 'h) backend \<Rightarrow> instant \<Rightarrow> u8 \<Rightarrow> bytes \<Rightarrow> (u16 \<Rightarrow> bytes) \<Rightarrow> (u16 \<times> ('c, 'h) device_open channel_entry) list
     \<Rightarrow> u16 list context_result \<times> (u16 \<times> ('c, 'h) device_open channel_entry) list" where
  "static_key_loop B now iface_num key ephemeral [] = (Ok [], [])"
| "static_key_loop B now iface_num key ephemeral ((cid, che) # m) =
     (let (failed, m) = static_key_loop B now iface_num key ephemeral m in
      if che_iface_num che = iface_num \<and> static_key_required (che_channel che) then
        (case set_static_key B (che_channel che) key (ephemeral cid) of
           (Ok _, d) \<Rightarrow>
             (failed, (cid, che\<lparr>che_channel := d,
                che_timing := if device_sending_retry d = Some 0 then update_last_write now (che_timing che)
                              else che_timing che\<rparr>) # m)
         | (Err _, d) \<Rightarrow> (map_ok ((#) (channel_id (do_channel d))) failed, (cid, che\<lparr>che_channel := d\<rparr>) # m)
         | (Panic, d) \<Rightarrow> (Panic, (cid, che\<lparr>che_channel := d\<rparr>) # m))
      else (failed, (cid, che) # m))"

definition handshake_static_key ::
  "('c, 'h) backend \<Rightarrow> removal_order \<Rightarrow> instant \<Rightarrow> (u16 \<Rightarrow> bytes) \<Rightarrow> ('c, 'h) thp_context \<Rightarrow> u8 \<Rightarrow> bytes
     \<Rightarrow> unit context_result \<times> ('c, 'h) thp_context" where
  "handshake_static_key B R clock ephemeral w iface_num local_static_privkey =
     (let now = context_now clock w in
      if length local_static_privkey \<noteq> PRIVKEY_LEN then (Err InvalidKeyLength, w)
      else
        let (res, opening) = static_key_loop B now iface_num local_static_privkey ephemeral (channel_opening w) in
        and_then_st (res, w\<lparr>channel_opening := opening\<rparr>) (\<lambda>failed w.
        case vec_from_slice MAX_CHANNELS_OPENING failed of
          None \<Rightarrow> (Panic, w)
        | Some failed \<Rightarrow> (Ok (), fold (channel_close R) failed w)))"

end
