(* ===== verification/Thp_Context_Wf.thy ===== *)
theory Thp_Context_Wf
  imports Thp_Context
begin

text \<open>
  The invariant of the firmware's context, with what it rests on: the parts of a channel that
  its methods leave alone, the single call of the credential check, the search for an unused
  id, and closing channels to make room. Lemmas about removals from a map hold for every order
  of the remaining entries and are proved in the locale \<open>linear_map\<close>.
\<close>

section \<open>What methods leave alone\<close>

definition channel_kept :: "'c channel \<Rightarrow> 'c channel \<Rightarrow> bool" where
  "channel_kept ch ch' \<longleftrightarrow> channel_id ch' = channel_id ch \<and> channel_phase ch' = channel_phase ch
     \<and> map_option nc_remote_static_pubkey (channel_noise ch') = map_option nc_remote_static_pubkey (channel_noise ch)"

lemma channel_kept_refl [simp]: "channel_kept ch ch"
  by (simp add: channel_kept_def)

lemma channel_kept_trans: "channel_kept a b \<Longrightarrow> channel_kept b c \<Longrightarrow> channel_kept a c"
  by (simp add: channel_kept_def)

lemma channel_kept_updates [simp]:
  "channel_kept ch (ch'\<lparr>receive_state := rt\<rparr>) = channel_kept ch ch'" "channel_kept ch (ch'\<lparr>send_state := st\<rparr>) = channel_kept ch ch'"
  "channel_kept ch (ch'\<lparr>send_ack := a\<rparr>) = channel_kept ch ch'" "channel_kept ch (ch'\<lparr>channel_sync_state := s\<rparr>) = channel_kept ch ch'"
  "channel_kept ch (become_failed ch') = channel_kept ch ch'" "channel_kept ch (send_error e ch') = channel_kept ch ch'"
  by (simp_all add: channel_kept_def become_failed_def send_error_def)

lemma packet_in_kept: "channel_kept ch (fst (snd (channel_packet_in r ch packet buf)))"
  using channel_packet_in_frame [of ch r packet buf] by (simp add: packet_frame_def channel_kept_def)

lemma packet_out_kept: "channel_kept ch (fst (snd (channel_packet_out r ch packet buf)))"
  unfolding channel_packet_out_def Let_def case_prod_unfold
  by (cases "send_ack ch"; cases "send_state ch")
    (auto intro!: and_then_st_state [where P = "\<lambda>st. channel_kept ch (fst st)"])

lemma raw_in_kept [simp]: "channel_kept ch (snd (raw_in_ext ch' h buf b)) = channel_kept ch ch'"
proof -
  have "channel_kept ch' (snd (raw_in_ext ch' h buf b))"
    unfolding raw_in_ext_def Let_def
    by (auto intro!: and_then_st_state [where P = "channel_kept ch'"])
  then show ?thesis by (simp add: channel_kept_def)
qed

lemma raw_out_kept [simp]: "channel_kept ch (snd (raw_out ch' buf)) = channel_kept ch ch'"
proof -
  have "channel_kept ch' (snd (raw_out ch' buf))"
    unfolding raw_out_def Let_def case_prod_unfold
    by (auto intro!: and_then_st_state [where P = "channel_kept ch'"] split: receive_state.split)
  then show ?thesis by (simp add: channel_kept_def)
qed

lemma noise_crypt_kept:
  "nc_remote_static_pubkey (fst (snd (noise_encrypt B nc buf n))) = nc_remote_static_pubkey nc"
  "nc_remote_static_pubkey (fst (snd (noise_decrypt B nc ct))) = nc_remote_static_pubkey nc"
  by (auto simp: noise_encrypt_def noise_decrypt_def Let_def case_prod_unfold split: option.splits)

lemma message_in_kept: "channel_kept ch (fst (snd (channel_message_in B ch n buf)))"
  unfolding channel_message_in_def Let_def case_prod_unfold raw_in_def
  by (auto intro!: and_then_st_state [where P = "\<lambda>st. channel_kept ch (fst st)"] simp: noise_crypt_kept
      channel_kept_def [of ch "_\<lparr>channel_noise := _\<rparr>"])

lemma message_out_kept: "channel_kept ch (fst (snd (channel_message_out B r ch buf)))"
proof -
  have noise: "channel_kept ch (ch'\<lparr>channel_noise := Some (fst (snd (noise_decrypt B nc ct)))\<rparr>)"
    if "channel_kept ch ch'" "channel_noise ch' = Some nc" for ch' nc ct
    using that by (simp add: channel_kept_def noise_crypt_kept)
  show ?thesis
    unfolding channel_message_out_def Let_def case_prod_unfold
    by (intro and_then_st_state [where P = "\<lambda>st. channel_kept ch (fst st)"])
      (auto intro!: and_then_st_state [where P = "\<lambda>st. channel_kept ch (fst st)"] noise split: result.split list.split)
qed

lemma retransmit_kept: "channel_kept ch (snd (channel_message_retransmit ch))"
  by (auto simp: channel_message_retransmit_def Let_def split: send_state.splits)


text \<open>The id of a handshake object.\<close>

definition same_id :: "('c, 'h) device_open \<Rightarrow> ('c, 'h) device_open \<Rightarrow> bool" where
  "same_id d d' \<longleftrightarrow> channel_id (do_channel d') = channel_id (do_channel d)"

lemma same_id_updates [simp]:
  "same_id d d" "same_id d (d'\<lparr>do_state := s\<rparr>) = same_id d d'" "same_id d (d'\<lparr>do_noise := n\<rparr>) = same_id d d'"
  "same_id d (d'\<lparr>do_send_buffer := b\<rparr>) = same_id d d'" "same_id d (d'\<lparr>do_receive_buffer := b\<rparr>) = same_id d d'"
  "same_id d (d'\<lparr>do_cred_verif := v\<rparr>) = same_id d d'"
  "same_id (d\<lparr>do_cred_verif := v\<rparr>) d' = same_id d d'"
  by (simp_all add: same_id_def)

lemma same_id_channel:
  "channel_kept (do_channel d') ch \<Longrightarrow> same_id d d' \<Longrightarrow> same_id d (d''\<lparr>do_channel := ch\<rparr>)"
  by (simp add: same_id_def channel_kept_def)

lemma raw_in_id [simp]: "channel_id (snd (raw_in ch h buf)) = channel_id ch"
  using raw_in_kept [of ch ch h buf False] by (simp add: raw_in_def channel_kept_def)

lemma raw_out_id [simp]: "channel_id (snd (raw_out ch buf)) = channel_id ch"
  using raw_out_kept [of ch ch buf] by (simp add: channel_kept_def)

lemma device_send_handshake_id: "same_id d d' \<Longrightarrow> same_id d (snd (device_send_handshake d' phase))"
  unfolding device_send_handshake_def Let_def case_prod_unfold
  by (rule and_then_st_state [where P = "same_id d"]) (auto simp: same_id_def)

lemma send_initiation_response_id: "same_id d d' \<Longrightarrow> same_id d (snd (send_initiation_response B d' s e))"
  unfolding send_initiation_response_def Let_def case_prod_unfold
  by (rule and_then_st_state [where P = "same_id d"]) (auto intro: device_send_handshake_id)

lemma send_completion_response_id: "same_id d d' \<Longrightarrow> same_id d (snd (send_completion_response B d'))"
  unfolding send_completion_response_def Let_def case_prod_unfold
  by (intro and_then_st_state [where P = "same_id d"]) 
    (auto intro!: device_send_handshake_id simp: same_id_def [of d "_\<lparr>do_channel := _\<rparr>"] same_id_def [of d d'])

lemma enable_ack_piggybacking_id [simp]:
  "same_id d (enable_ack_piggybacking_if_requested sb d') = same_id d d'"
  by (simp add: enable_ack_piggybacking_if_requested_def same_id_def)

lemma device_handle_message_id: "same_id d d' \<Longrightarrow> same_id d (snd (device_handle_message B d' sb h))"
  unfolding device_handle_message_def Let_def case_prod_unfold
  by (auto intro!: and_then_st_state [where P = "same_id d"] send_completion_response_id
      split: device_handshake_state.split option.split handshake_message.split)

lemma device_incoming_internal_id: "same_id d d' \<Longrightarrow> same_id d (snd (device_incoming_internal B d'))"
  unfolding device_incoming_internal_def Let_def case_prod_unfold
  by (auto intro!: and_then_st_state [where P = "same_id d"] device_handle_message_id
      simp: same_id_def [of d "_\<lparr>do_channel := _\<rparr>"] same_id_def [of d d'] split: receive_state.split)

lemma device_message_received_id: "same_id d d' \<Longrightarrow> same_id d (snd (device_message_received B d' res))"
  using device_incoming_internal_id [of d d' B]
  by (cases "device_incoming_internal B d'"; cases "fst (device_incoming_internal B d')")
    (auto simp: device_message_received_def split: device_handshake_state.splits)

lemma device_open_packet_in_id: "same_id d (snd (device_open_packet_in B d packet))"
proof -
  let ?r = "channel_packet_in Device (do_channel d) packet (do_receive_buffer d)"
  let ?d = "d\<lparr>do_channel := fst (snd ?r), do_receive_buffer := snd (snd ?r)\<rparr>"
  have 1: "same_id d ?d" using packet_in_kept [of "do_channel d" Device packet "do_receive_buffer d"]
    by (simp add: same_id_def channel_kept_def)
  then have 2: "same_id d (?d\<lparr>do_channel := (do_channel ?d)\<lparr>receive_state := ReceiveIdle\<rparr>\<rparr>)" by (simp add: same_id_def)
  show ?thesis
    unfolding device_open_packet_in_def Let_def case_prod_unfold
    by (rule and_then_st_state [where P = "same_id d"]) (use 1 2 in \<open>auto intro: device_message_received_id\<close>)
qed

lemma device_open_packet_out_id: "same_id d (fst (snd (device_open_packet_out d packet)))"
  using packet_out_kept [of "do_channel d" Device packet "do_send_buffer d"]
  by (simp add: device_open_packet_out_def Let_def case_prod_unfold same_id_def channel_kept_def)

lemma device_open_retransmit_id: "same_id d (snd (device_open_retransmit d))"
  using retransmit_kept [of "do_channel d"]
  by (simp add: device_open_retransmit_def Let_def case_prod_unfold same_id_def channel_kept_def)

lemma set_static_key_id: "same_id d (snd (set_static_key B d s e))"
  using send_initiation_response_id [of d d B s e]
  by (cases "send_initiation_response B d s e"; cases "fst (send_initiation_response B d s e)") (auto simp: set_static_key_def)

lemma send_device_locked_id: "same_id d (snd (send_device_locked d))"
  by (simp add: send_device_locked_def same_id_def send_error_def)

section \<open>The call of the credential check\<close>

text \<open>
  The handshake object depends on the check only through the one call that \<open>verify_call\<close>
  describes: two checks that agree there cannot be told apart.
\<close>

abbreviation with_verify :: "credential_verifier \<Rightarrow> ('a \<times> ('c, 'h) device_open) \<Rightarrow> ('a \<times> ('c, 'h) device_open)" where
  "with_verify v \<equiv> map_prod id (\<lambda>d. d\<lparr>do_cred_verif := v\<rparr>)"

lemma and_then_st_with:
  "(\<And>x d. f x (d\<lparr>do_cred_verif := v\<rparr>) = with_verify v (f' x d)) \<Longrightarrow>
     and_then_st (with_verify v m) f = with_verify v (and_then_st m f')"
  by (cases m; cases "fst m") auto

lemma device_send_handshake_with:
  "device_send_handshake (d\<lparr>do_cred_verif := v\<rparr>) phase = with_verify v (device_send_handshake d phase)"
  by (cases "new_handshake (channel_id (do_channel d)) phase (do_send_buffer d)")
    (auto simp: device_send_handshake_def case_prod_unfold Let_def)

lemma write_completion_response_call:
  assumes "\<And>k c. completion_call B hss incoming = Some (k, c) \<Longrightarrow> v k c = v' k c"
  shows "write_completion_response B hss incoming v' dest = write_completion_response B hss incoming v dest"
proof -
  let ?cred_len = "length incoming - hs_overhead B hss"
  obtain r h cred where read: "hs_read_message B hss incoming (replicate ?cred_len 0) = (r, (h, cred))" by (metis prod.exhaust)
  show ?thesis
  proof (cases "length incoming < hs_overhead B hss \<or> ?cred_len > MAX_CREDENTIAL_LEN \<or> \<not> is_ok r \<or> \<not> hs_completed B h \<or> hs_get_rs B h = None")
    case True
    then show ?thesis using read by (cases r) (auto simp: write_completion_response_def Let_def)
  next
    case False
    then obtain rs where rs: "hs_get_rs B h = Some rs" by auto
    show ?thesis
    proof (cases "length rs = PUBKEY_LEN \<and> length (hs_get_hash B h) = HANDSHAKE_HASH_LEN")
      case True
      then have "completion_call B hss incoming = Some (rs, cred)" using False rs read by (simp add: completion_call_def Let_def)
      then have "v rs cred = v' rs cred" by (rule assms)
      then show ?thesis
        using False True rs read by (cases r; cases "hs_get_ciphers B h") (simp_all add: write_completion_response_def Let_def to_array_def)
    next
      case no: False
      then show ?thesis using False rs read by (cases r) (auto simp: write_completion_response_def Let_def to_array_def)
    qed
  qed
qed

lemma send_completion_response_call:
  assumes "\<And>k c. completion_call B (do_noise d) (do_receive_buffer d) = Some (k, c) \<Longrightarrow> do_cred_verif d k c = v k c"
  shows "send_completion_response B (d\<lparr>do_cred_verif := v\<rparr>) = with_verify v (send_completion_response B d)"
proof -
  obtain r hss buf where w: "write_completion_response B (do_noise d) (do_receive_buffer d) (do_cred_verif d)
      (prepare_zeroed HANDSHAKE_BUFFER_DTH_LEN) = (r, (hss, buf))" by (metis prod.exhaust)
  have w': "write_completion_response B (do_noise d) (do_receive_buffer d) v (prepare_zeroed HANDSHAKE_BUFFER_DTH_LEN) = (r, (hss, buf))"
    using write_completion_response_call [of B "do_noise d" "do_receive_buffer d" "do_cred_verif d" v] assms w by metis
  show ?thesis
  proof (cases r)
    case (Ok x)
    obtain nc ps len where x: "x = (nc, ps, len)" by (cases x)
    let ?d = "d\<lparr>do_noise := hss, do_send_buffer := take len buf, do_channel := (do_channel d)\<lparr>channel_noise := Some nc\<rparr>\<rparr>"
    let ?d' = "d\<lparr>do_cred_verif := v, do_noise := hss, do_send_buffer := take len buf, do_channel := (do_channel d)\<lparr>channel_noise := Some nc\<rparr>\<rparr>"
    have "?d' = ?d\<lparr>do_cred_verif := v\<rparr>" by simp
    then have "device_send_handshake ?d' CompletionResponse = with_verify v (device_send_handshake ?d CompletionResponse)"
      by (simp only: device_send_handshake_with)
    then show ?thesis
      using w w' Ok x by (simp add: send_completion_response_def Let_def and_then_st_with [where f' = "\<lambda>_. Pair (Ok ps)"])
  qed (use w w' in \<open>simp_all add: send_completion_response_def Let_def\<close>)
qed

lemma device_handle_message_call:
  assumes "\<And>k c. do_state d = SendingInitiationResponse \<Longrightarrow> header_handshake_phase h = Some CompletionRequest \<Longrightarrow>
    completion_call B (do_noise d) (do_receive_buffer d) = Some (k, c) \<Longrightarrow> do_cred_verif d k c = v k c"
  shows "device_handle_message B (d\<lparr>do_cred_verif := v\<rparr>) sb h = with_verify v (device_handle_message B d sb h)"
proof -
  have init: "(let d = enable_ack_piggybacking_if_requested sb (d\<lparr>do_cred_verif := v\<rparr>);
              (res, hss) = read_initiation_request B (do_noise d) (do_receive_buffer d)
          in and_then_st (res, d\<lparr>do_noise := hss\<rparr>) (\<lambda>try_to_unlock d. (Ok (), d\<lparr>do_state := StaticKeyRequired try_to_unlock\<rparr>)))
      = with_verify v (let d = enable_ack_piggybacking_if_requested sb d;
              (res, hss) = read_initiation_request B (do_noise d) (do_receive_buffer d)
          in and_then_st (res, d\<lparr>do_noise := hss\<rparr>) (\<lambda>try_to_unlock d. (Ok (), d\<lparr>do_state := StaticKeyRequired try_to_unlock\<rparr>)))"
    by (cases "read_initiation_request B (do_noise d) (do_receive_buffer d)"; cases "fst (read_initiation_request B (do_noise d) (do_receive_buffer d))")
      (auto simp: enable_ack_piggybacking_if_requested_def Let_def)
  have comp: "and_then_st (send_completion_response B (d\<lparr>do_cred_verif := v\<rparr>)) (\<lambda>ps d. (Ok (), d\<lparr>do_state := SendingCompletionResponse ps\<rparr>))
      = with_verify v (and_then_st (send_completion_response B d) (\<lambda>ps d. (Ok (), d\<lparr>do_state := SendingCompletionResponse ps\<rparr>)))"
    if "do_state d = SendingInitiationResponse" "header_handshake_phase h = Some CompletionRequest"
    using send_completion_response_call [of B d v] assms that by (simp add: and_then_st_with)
  show ?thesis
    using init comp unfolding device_handle_message_def
    by (auto split: device_handshake_state.split option.split handshake_message.split)
qed

lemma device_incoming_internal_call:
  assumes "\<And>h len k c. fst (raw_out (do_channel d) (do_receive_buffer d)) = Ok (h, len) \<Longrightarrow> do_state d = SendingInitiationResponse \<Longrightarrow>
    header_handshake_phase h = Some CompletionRequest \<Longrightarrow>
    completion_call B (do_noise d) (take len (do_receive_buffer d)) = Some (k, c) \<Longrightarrow> do_cred_verif d k c = v k c"
  shows "device_incoming_internal B (d\<lparr>do_cred_verif := v\<rparr>) = with_verify v (device_incoming_internal B d)"
proof (cases "receive_state (do_channel d)")
  case (Receiving x)
  obtain r ch where out: "raw_out (do_channel d) (do_receive_buffer d) = (r, ch)" by fastforce
  show ?thesis
  proof (cases r)
    case (Ok hl)
    obtain h len where hl: "hl = (h, len)" by fastforce
    let ?d = "d\<lparr>do_channel := ch, do_receive_buffer := take len (do_receive_buffer d)\<rparr>"
    let ?d' = "d\<lparr>do_cred_verif := v, do_channel := ch, do_receive_buffer := take len (do_receive_buffer d)\<rparr>"
    have upd: "?d' = ?d\<lparr>do_cred_verif := v\<rparr>" by simp
    have "device_handle_message B ?d' (reas_sync_bits x) h = with_verify v (device_handle_message B ?d (reas_sync_bits x) h)"
      unfolding upd by (rule device_handle_message_call) (use assms out Ok hl in simp)
    then show ?thesis
      using Receiving out Ok hl
      by (simp add: device_incoming_internal_def Let_def and_then_st_with
          [where f' = "\<lambda>_ d. (Ok (), d\<lparr>do_receive_buffer := prepare_zeroed HANDSHAKE_BUFFER_HTD_LEN\<rparr>)"])
  qed (use Receiving out in \<open>simp_all add: device_incoming_internal_def Let_def\<close>)
qed (simp_all add: device_incoming_internal_def)

lemma device_message_received_call:
  assumes "device_incoming_internal B (d\<lparr>do_cred_verif := v\<rparr>) = with_verify v (device_incoming_internal B d)"
  shows "device_message_received B (d\<lparr>do_cred_verif := v\<rparr>) res = with_verify v (device_message_received B d res)"
  using assms
  by (cases "device_incoming_internal B d"; cases "fst (device_incoming_internal B d)")
    (auto simp: device_message_received_def split: device_handshake_state.splits)

lemma device_open_packet_in_call:
  assumes "\<And>k c. verify_call B d packet = Some (k, c) \<Longrightarrow> do_cred_verif d k c = v k c"
  shows "device_open_packet_in B (d\<lparr>do_cred_verif := v\<rparr>) packet = with_verify v (device_open_packet_in B d packet)"
proof -
  obtain r ch buf where pin: "channel_packet_in Device (do_channel d) packet (do_receive_buffer d) = (r, (ch, buf))" by (metis prod.exhaust)
  let ?d = "d\<lparr>do_channel := ch, do_receive_buffer := buf\<rparr>"
  have upd: "d\<lparr>do_cred_verif := v, do_channel := ch, do_receive_buffer := buf\<rparr> = ?d\<lparr>do_cred_verif := v\<rparr>" by simp
  have "device_message_received B (d\<lparr>do_cred_verif := v, do_channel := ch, do_receive_buffer := buf\<rparr>) res
      = with_verify v (device_message_received B ?d res)"
    if "r = Ok (Accepted a True b None)" for a b res
    unfolding upd by (rule device_message_received_call, rule device_incoming_internal_call)
      (use assms pin that in \<open>auto simp: verify_call_def\<close>)
  then show ?thesis
    using pin
    by (cases r) (auto simp: device_open_packet_in_def split: packet_in_result.split option.split)
qed

section \<open>The invariant\<close>

definition entries_wf :: "nat \<Rightarrow> (u16 \<Rightarrow> 'a \<Rightarrow> bool) \<Rightarrow> (u16 \<times> 'a channel_entry) list \<Rightarrow> bool" where
  "entries_wf capacity P m \<longleftrightarrow>
     distinct (map fst m) \<and> length m \<le> capacity
     \<and> (\<forall>(cid, che) \<in> set m. P cid (che_channel che) \<and> timing_wf (che_timing che))"

definition open_wf :: "u16 \<Rightarrow> ('c, 'h) device_open \<Rightarrow> bool" where
  "open_wf cid d \<longleftrightarrow> device_open_wf d \<and> channel_id (do_channel d) = cid"

definition established_wf :: "u16 \<Rightarrow> 'c channel \<Rightarrow> bool" where
  "established_wf cid ch \<longleftrightarrow> channel_wf Device ch \<and> channel_id ch = cid \<and> channel_noise ch \<noteq> None"

definition host_key :: "'c channel channel_entry \<Rightarrow> bytes option" where
  "host_key che = map_option nc_remote_static_pubkey (channel_noise (che_channel che))"

text \<open>Two entries that the channel replacement does not let stand beside each other.\<close>

definition same_peer :: "'c channel channel_entry \<Rightarrow> 'c channel channel_entry \<Rightarrow> bool" where
  "same_peer e e' \<longleftrightarrow> che_iface_num e = che_iface_num e' \<and> is_encrypted_transport (che_channel e)
     \<and> is_encrypted_transport (che_channel e') \<and> host_key e = host_key e'"

definition one_per_peer :: "(u16 \<times> 'c channel channel_entry) list \<Rightarrow> bool" where
  "one_per_peer m \<longleftrightarrow> (\<forall>(c, e) \<in> set m. \<forall>(c', e') \<in> set m. same_peer e e' \<longrightarrow> c = c')"

definition aux_wf :: "auxiliary_info \<Rightarrow> bool" where
  "aux_wf aux \<longleftrightarrow> length (host_keys aux) \<le> MAX_CHANNELS_APPDATA \<and> length (credentials aux) \<le> MAX_CHANNELS_APPDATA
     \<and> (\<forall>(_, cred) \<in> set (credentials aux). length cred \<le> MAX_CREDENTIAL_LEN)"

definition context_wf :: "bool \<Rightarrow> ('c, 'h) thp_context \<Rightarrow> bool" where
  "context_wf ble w \<longleftrightarrow>
     distinct (map fst (ifaces w)) \<and> length (ifaces w) \<le> MAX_INTERFACES ble \<and> (\<forall>(_, m) \<in> set (ifaces w). device_mux_wf m)
     \<and> entries_wf MAX_CHANNELS_OPENING open_wf (channel_opening w)
     \<and> entries_wf MAX_CHANNELS_APPDATA established_wf (channel_appdata w)
     \<and> fst ` set (channel_opening w) \<inter> fst ` set (channel_appdata w) = {}
     \<and> one_per_peer (channel_appdata w) \<and> aux_wf (thp_aux w)"

lemma context_new_wf [simp]: "context_wf ble (context_new counter)"
  by (simp add: context_wf_def context_new_def entries_wf_def one_per_peer_def aux_wf_def aux_new_def)

lemma context_wf_frame [simp]:
  "context_wf ble (w\<lparr>channel_closed := b\<rparr>) = context_wf ble w"
  "context_wf ble (w\<lparr>last_usage_counter := n\<rparr>) = context_wf ble w"
  "context_wf ble (w\<lparr>channel_id_counter := a\<rparr>) = context_wf ble w"
  by (simp_all add: context_wf_def)

lemma context_wf_aux: "context_wf ble w \<Longrightarrow> aux_wf aux \<Longrightarrow> context_wf ble (w\<lparr>thp_aux := aux\<rparr>)"
  by (simp add: context_wf_def)

lemma entries_wf_member:
  "entries_wf n P m \<Longrightarrow> map_of m cid = Some che \<Longrightarrow> P cid (che_channel che) \<and> timing_wf (che_timing che)"
  by (auto simp: entries_wf_def dest!: map_of_SomeD)

lemma entries_wf_set:
  assumes "entries_wf n P m" "P cid (che_channel che)" "timing_wf (che_timing che)"
  shows "entries_wf n P (lm_set cid che m)"
  using assms unfolding entries_wf_def by (auto dest!: lm_set_mem)

lemma entries_wf_append:
  assumes "entries_wf n P m" "length m < n" "cid \<notin> fst ` set m" "P cid (che_channel che)" "timing_wf (che_timing che)"
  shows "entries_wf n P (m @ [(cid, che)])"
  using assms by (auto simp: entries_wf_def)

lemma lookup_wf:
  assumes "context_wf ble w" "map_of (channel_appdata w) cid = Some che"
  shows "channel_wf Device (che_channel che)" "channel_id (che_channel che) = cid" "channel_noise (che_channel che) \<noteq> None"
    "timing_wf (che_timing che)" "map_of (channel_opening w) cid = None"
proof -
  have "entries_wf MAX_CHANNELS_APPDATA established_wf (channel_appdata w)" using assms(1) by (simp add: context_wf_def)
  from entries_wf_member [OF this assms(2)]
  show "channel_wf Device (che_channel che)" "channel_id (che_channel che) = cid" "channel_noise (che_channel che) \<noteq> None"
    "timing_wf (che_timing che)" by (simp_all add: established_wf_def)
  show "map_of (channel_opening w) cid = None"
    using assms map_of_SomeD [OF assms(2)] unfolding context_wf_def map_of_eq_None_iff by force
qed

lemma opening_lookup_wf:
  assumes "context_wf ble w" "map_of (channel_opening w) cid = Some che"
  shows "device_open_wf (che_channel che)" "channel_id (do_channel (che_channel che)) = cid" "timing_wf (che_timing che)"
    "map_of (channel_appdata w) cid = None"
proof -
  have "entries_wf MAX_CHANNELS_OPENING open_wf (channel_opening w)" using assms(1) by (simp add: context_wf_def)
  from entries_wf_member [OF this assms(2)]
  show "device_open_wf (che_channel che)" "channel_id (do_channel (che_channel che)) = cid" "timing_wf (che_timing che)"
    by (simp_all add: open_wf_def)
  show "map_of (channel_appdata w) cid = None"
    using assms map_of_SomeD [OF assms(2)] unfolding context_wf_def map_of_eq_None_iff by force
qed

lemma mux_lookup_wf: "context_wf ble w \<Longrightarrow> map_of (ifaces w) i = Some m \<Longrightarrow> device_mux_wf m"
  by (auto simp: context_wf_def dest!: map_of_SomeD)

lemma put_mux_wf: "context_wf ble w \<Longrightarrow> device_mux_wf m \<Longrightarrow> context_wf ble (put_mux i m w)"
  unfolding context_wf_def put_mux_def by (auto dest!: lm_set_mem)

lemma put_opening_wf:
  assumes "context_wf ble w" "open_wf cid (che_channel che)" "timing_wf (che_timing che)"
  shows "context_wf ble (put_opening cid che w)"
  using assms by (simp add: context_wf_def put_opening_def entries_wf_set)

lemma same_peer_kept:
  assumes "channel_kept (che_channel e) (che_channel f)" "che_iface_num f = che_iface_num e"
  shows "same_peer f = same_peer e" "same_peer x f = same_peer x e"
  using assms by (auto simp: same_peer_def fun_eq_iff host_key_def channel_kept_def is_encrypted_transport_def)

lemma one_per_peer_set:
  assumes "one_per_peer m" "distinct (map fst m)" "map_of m cid = Some che"
    and kept: "channel_kept (che_channel che) (che_channel che')" "che_iface_num che' = che_iface_num che"
  shows "one_per_peer (lm_set cid che' m)"
  unfolding one_per_peer_def
proof (intro ballI, clarify)
  fix c e c' e'
  assume mem: "(c, e) \<in> set (lm_set cid che' m)" "(c', e') \<in> set (lm_set cid che' m)" and same: "same_peer e e'"
  have old: "\<exists>f. (b, f) \<in> set m \<and> (same_peer g = same_peer f) \<and> (\<forall>x. same_peer x g = same_peer x f)"
    if "(b, g) \<in> set (lm_set cid che' m)" for b g
    using lm_set_mem [OF that assms(2)] same_peer_kept [OF kept] map_of_SomeD [OF assms(3)] by blast
  from old [OF mem(1)] old [OF mem(2)] show "c = c'" using same assms(1) unfolding one_per_peer_def by fastforce
qed

lemma put_channel_wf:
  assumes wf: "context_wf ble w" and che: "map_of (channel_appdata w) cid = Some che"
    and "channel_wf Device (che_channel che')" "timing_wf (che_timing che')"
    and kept: "channel_kept (che_channel che) (che_channel che')" "che_iface_num che' = che_iface_num che"
  shows "context_wf ble (put_channel cid che' w)"
proof -
  have "established_wf cid (che_channel che')"
    using assms(3) kept(1) lookup_wf(2,3) [OF wf che] by (auto simp: established_wf_def channel_kept_def)
  then show ?thesis
    using wf assms(4) one_per_peer_set [OF _ _ che kept] by (simp add: context_wf_def put_channel_def entries_wf_set entries_wf_def [of _ _ "channel_appdata w"])
qed

lemma put_channel_lookup [simp]:
  "map_of (channel_appdata w) cid = Some che \<Longrightarrow> map_of (channel_appdata (put_channel cid che' w)) cid = Some che'"
  by (simp add: put_channel_def map_of_lm_set)

lemma put_channel_other [simp]:
  "ifaces (put_channel cid che w) = ifaces w" "channel_opening (put_channel cid che w) = channel_opening w"
  "thp_aux (put_channel cid che w) = thp_aux w" "thp_aux_locked (put_channel cid che w) = thp_aux_locked w"
  by (simp_all add: put_channel_def)

section \<open>The search for an id\<close>

lemma channel_id_search_returns:
  "\<exists>cid \<in> set (id_allocator_take n a). unique cid \<Longrightarrow>
     \<exists>cid a'. channel_id_search unique a = Some (cid, a') \<and> unique cid \<and> unicast_valid cid"
proof (induction n arbitrary: a)
  case (Suc n)
  obtain c a1 where get: "id_allocator_get a = (c, a1)" by fastforce
  have valid: "unicast_valid c" using id_allocator_get_valid [of a] get by simp
  show ?case
  proof (cases "unique c")
    case True
    then show ?thesis using get valid by (subst channel_id_search.simps) simp
  next
    case False
    then have "\<exists>cid \<in> set (id_allocator_take n a1). unique cid" using Suc.prems get by simp
    then show ?thesis using Suc.IH [of a1] False get by (subst channel_id_search.simps) simp
  qed
qed simp

lemma get_channel_id_returns:
  assumes "length (channel_opening w) \<le> MAX_CHANNELS_OPENING" "length (channel_appdata w) \<le> MAX_CHANNELS_APPDATA"
  obtains cid counter where "get_channel_id w = Some (cid, counter)" "unicast_valid cid"
    "map_of (channel_opening w) cid = None" "map_of (channel_appdata w) cid = None"
proof -
  let ?used = "fst ` set (channel_appdata w) \<union> fst ` set (channel_opening w)"
  let ?unique = "\<lambda>cid. map_of (channel_appdata w) cid = None \<and> map_of (channel_opening w) cid = None"
  have "card ?used \<le> card (fst ` set (channel_appdata w)) + card (fst ` set (channel_opening w))" by (rule card_Un_le)
  moreover have "card (fst ` set (channel_appdata w)) \<le> length (channel_appdata w)"
    "card (fst ` set (channel_opening w)) \<le> length (channel_opening w)"
    by (metis card_length length_map set_map)+
  ultimately have "card ?used \<le> 14" using assms by (simp add: MAX_CHANNELS_OPENING_def MAX_CHANNELS_APPDATA_def)
  moreover have len: "length (id_allocator_take n a) = n" for n a
    by (induction n arbitrary: a) (auto simp: case_prod_unfold Let_def)
  have "card (set (id_allocator_take 15 (channel_id_counter w))) = 15"
    using distinct_card [OF id_allocator_take_distinct [of 15 "channel_id_counter w"]] len by simp
  ultimately have "\<not> set (id_allocator_take 15 (channel_id_counter w)) \<subseteq> ?used"
    using card_mono [of ?used "set (id_allocator_take 15 (channel_id_counter w))"] by auto
  then have "\<exists>cid \<in> set (id_allocator_take 15 (channel_id_counter w)). ?unique cid"
    by (auto simp: map_of_eq_None_iff)
  from channel_id_search_returns [where unique = ?unique, OF this] show thesis
    using that unfolding get_channel_id_def by blast
qed

section \<open>Making room\<close>

lemma lru_needs_closing_full:
  fixes channels :: "(u16 \<times> 'a channel_entry) list"
  assumes "length channels \<le> capacity" "0 < capacity"
  obtains (room) "lru_needs_closing capacity channels = Ok None" "length channels < capacity"
  | (full) cid che where "lru_needs_closing capacity channels = Ok (Some cid)" "length channels = capacity"
      "(cid, che) \<in> set channels"
      "\<And>cid' che'. (cid', che') \<in> set channels \<Longrightarrow> last_usage (che_timing che) \<le> last_usage (che_timing che')"
proof (cases "length channels = capacity")
  case True
  let ?l = "map (\<lambda>(cid, che). (cid, che_timing che)) channels"
  have "?l \<noteq> []" using True assms(2) by auto
  then obtain c t where l: "least_recently_used ?l = Some c" "(c, t) \<in> set ?l"
    "\<And>c' t'. (c', t') \<in> set ?l \<Longrightarrow> last_usage t \<le> last_usage t'"
    by (rule least_recently_used_Some) blast
  then obtain che where che: "(c, che) \<in> set channels" "t = che_timing che" by auto
  have "last_usage (che_timing che) \<le> last_usage (che_timing che')" if "(c', che') \<in> set channels" for c' che'
    using l(3) [of c' "che_timing che'"] that che(2) by force
  then show thesis using full [of c che] l(1) che True by (simp add: lru_needs_closing_def)
qed (use assms room in \<open>simp add: lru_needs_closing_def\<close>)

lemma insert_channel_Ok:
  assumes "length channels < capacity" "map_of channels cid = None"
  shows "insert_channel capacity channels iface_num cid channel timing =
    Ok (channels @ [(cid, \<lparr>che_channel = channel, che_iface_num = iface_num, che_timing = timing\<rparr>)])"
  using assms by (simp add: insert_channel_def lm_insert_def)

lemma aux_wf_delete [simp]: "aux_wf aux \<Longrightarrow> aux_wf (delete_credential cid aux)" "aux_wf aux \<Longrightarrow> aux_wf (delete_credential_all aux)"
  by (auto simp: aux_wf_def delete_credential_def delete_credential_all_def intro: le_trans [OF length_filter_le])

lemma one_per_peer_subset: "one_per_peer m \<Longrightarrow> set m' \<subseteq> set m \<Longrightarrow> one_per_peer m'"
  unfolding one_per_peer_def by blast

lemma entries_wf_subset:
  "entries_wf n P m \<Longrightarrow> set m' \<subseteq> set m \<Longrightarrow> distinct (map fst m') \<Longrightarrow> length m' \<le> length m \<Longrightarrow> entries_wf n P m'"
  by (auto simp: entries_wf_def)

lemma context_wf_distinct:
  "context_wf ble w \<Longrightarrow> distinct (map fst (channel_opening w))" "context_wf ble w \<Longrightarrow> distinct (map fst (channel_appdata w))"
  "context_wf ble w \<Longrightarrow> length (channel_opening w) \<le> MAX_CHANNELS_OPENING"
  "context_wf ble w \<Longrightarrow> length (channel_appdata w) \<le> MAX_CHANNELS_APPDATA"
  "context_wf ble w \<Longrightarrow> aux_wf (thp_aux w)"
  by (simp_all add: context_wf_def entries_wf_def)

definition tables_ok :: "('c, 'h) thp_context \<Rightarrow> bool" where
  "tables_ok w \<longleftrightarrow> distinct (map fst (channel_opening w)) \<and> distinct (map fst (channel_appdata w))
     \<and> fst ` set (channel_opening w) \<inter> fst ` set (channel_appdata w) = {} \<and> aux_wf (thp_aux w)"

lemma context_wf_tables: "context_wf ble w \<Longrightarrow> tables_ok w"
  by (simp add: context_wf_def entries_wf_def tables_ok_def)

context linear_map
begin

lemma channel_close_tables:
  assumes "tables_ok w"
  shows "channel_appdata (channel_close R cid w) = snd (lm_remove R cid (channel_appdata w))"
    "channel_opening (channel_close R cid w) = snd (lm_remove R cid (channel_opening w))"
    "ifaces (channel_close R cid w) = ifaces w" "thp_aux_locked (channel_close R cid w) = thp_aux_locked w"
    "last_usage_counter (channel_close R cid w) = last_usage_counter w" "now_instant (channel_close R cid w) = now_instant w"
    "aux_wf (thp_aux (channel_close R cid w))"
proof -
  have "lm_remove R cid (channel_appdata w) = (None, channel_appdata w)" if "map_of (channel_appdata w) cid = None"
    using that by (rule lm_remove_absent)
  moreover have "lm_remove R cid (channel_opening w) = (None, channel_opening w)" if "map_of (channel_appdata w) cid = Some che" for che
  proof (rule lm_remove_absent)
    show "map_of (channel_opening w) cid = None"
      using map_of_SomeD [OF that] assms unfolding tables_ok_def map_of_eq_None_iff by force
  qed
  moreover have "fst (lm_remove R cid (channel_appdata w)) = map_of (channel_appdata w) cid" using assms by (simp add: tables_ok_def)
  ultimately show "channel_appdata (channel_close R cid w) = snd (lm_remove R cid (channel_appdata w))"
    "channel_opening (channel_close R cid w) = snd (lm_remove R cid (channel_opening w))"
    "ifaces (channel_close R cid w) = ifaces w" "thp_aux_locked (channel_close R cid w) = thp_aux_locked w"
    "last_usage_counter (channel_close R cid w) = last_usage_counter w" "now_instant (channel_close R cid w) = now_instant w"
    "aux_wf (thp_aux (channel_close R cid w))"
    using assms by (cases "map_of (channel_appdata w) cid"; simp add: channel_close_def case_prod_unfold Let_def tables_ok_def)+
qed

lemma channel_close_wf:
  assumes "context_wf ble w"
  shows "context_wf ble (channel_close R cid w)"
proof -
  note dist = context_wf_distinct [OF assms]
  have sub: "set (snd (lm_remove R cid m)) \<subseteq> set m" "length (snd (lm_remove R cid m)) \<le> length m" if "distinct (map fst m)" for m :: "(u16 \<times> 'x) list"
    using that by (auto simp: lm_remove_set lm_remove_length)
  have "fst ` set (channel_opening w) \<inter> fst ` set (channel_appdata w) = {}" using assms by (simp add: context_wf_def)
  then have "fst ` set (snd (lm_remove R cid (channel_opening w))) \<inter> fst ` set (snd (lm_remove R cid (channel_appdata w))) = {}"
    using image_mono [OF sub(1) [OF dist(1)], of fst] image_mono [OF sub(1) [OF dist(2)], of fst] by blast
  moreover have "entries_wf MAX_CHANNELS_OPENING open_wf (snd (lm_remove R cid (channel_opening w)))"
    by (rule entries_wf_subset [where m = "channel_opening w"]) (use assms dist(1) sub [OF dist(1)] in \<open>simp_all add: context_wf_def\<close>)
  moreover have "entries_wf MAX_CHANNELS_APPDATA established_wf (snd (lm_remove R cid (channel_appdata w)))"
    by (rule entries_wf_subset [where m = "channel_appdata w"]) (use assms dist(2) sub [OF dist(2)] in \<open>simp_all add: context_wf_def\<close>)
  moreover have "one_per_peer (snd (lm_remove R cid (channel_appdata w)))"
    by (rule one_per_peer_subset [where m = "channel_appdata w"]) (use assms sub [OF dist(2)] in \<open>simp_all add: context_wf_def\<close>)
  ultimately show ?thesis
    using assms channel_close_tables [OF context_wf_tables [OF assms], of cid] unfolding context_wf_def by simp
qed

lemma channel_close_opt_wf: "context_wf ble w \<Longrightarrow> context_wf ble (channel_close_opt R cid w)"
  by (simp add: channel_close_opt_def channel_close_wf split: option.split)

lemma channel_close_fold_wf: "context_wf ble w \<Longrightarrow> context_wf ble (fold (channel_close R) cids w)"
  by (induction cids arbitrary: w) (simp_all add: channel_close_wf)

end

end
