(* ===== verification/Thp_Context_Ops.thy ===== *)
theory Thp_Context_Ops
  imports Thp_Context_Wf
begin

text \<open>
  Every operation of the firmware's context keeps its invariant and does not panic, and what
  pairing does to the established channels.
\<close>

section \<open>Auxiliary data\<close>

lemma insert_replace_queue_Ok:
  assumes "length q \<le> capacity" "0 < capacity"
  obtains q' where "insert_replace_queue capacity q x = Ok q'" "length q' \<le> capacity" "set q' \<subseteq> insert x (set q)"
proof
  let ?q = "(if length q = capacity then tl q else q) @ [x]"
  show "insert_replace_queue capacity q x = Ok ?q" "length ?q \<le> capacity"
    using assms by (auto simp: insert_replace_queue_def deque_push_back_def Let_def)
  show "set ?q \<subseteq> insert x (set q)" by (cases q) auto
qed

lemma add_credential_wf:
  assumes "aux_wf aux"
  shows "\<exists>aux'. add_credential cid cred aux = Ok aux' \<and> aux_wf aux' \<and> host_keys aux' = host_keys aux"
proof (cases "length cred \<le> MAX_CREDENTIAL_LEN")
  case True
  have "length (credentials aux) \<le> MAX_CHANNELS_APPDATA" "0 < MAX_CHANNELS_APPDATA"
    using assms by (simp_all add: aux_wf_def MAX_CHANNELS_APPDATA_def)
  then obtain q where q: "insert_replace_queue MAX_CHANNELS_APPDATA (credentials aux) (cid, cred) = Ok q"
    "length q \<le> MAX_CHANNELS_APPDATA" "set q \<subseteq> insert (cid, cred) (set (credentials aux))"
    by (rule insert_replace_queue_Ok)
  then have "\<forall>(_, c) \<in> set q. length c \<le> MAX_CREDENTIAL_LEN" using True assms by (auto simp: aux_wf_def)
  then show ?thesis
    using True q(1,2) assms by (simp add: add_credential_def vec_from_slice_def vec_extend_def aux_wf_def)
qed (use assms in \<open>simp add: add_credential_def vec_from_slice_def vec_extend_def\<close>)

lemma trezor_verify_wf:
  assumes "aux_wf aux"
  shows "\<exists>ps aux'. trezor_verify cid f locked key cred aux = Ok (ps, aux') \<and> aux_wf aux'"
  using add_credential_wf [OF assms, of cid cred] assms
  by (auto simp: trezor_verify_def split: option.split result.split)

lemma collect_host_keys_Ok:
  assumes "\<And>cid che. (cid, che) \<in> set m \<Longrightarrow> channel_noise (che_channel che) \<noteq> None"
  shows "\<exists>keys. collect_host_keys i m = Ok keys \<and> length keys \<le> length m"
  using assms
proof (induction m)
  case (Cons x m)
  obtain cid che where x: "x = (cid, che)" by fastforce
  obtain keys where "collect_host_keys i m = Ok keys" "length keys \<le> length m" using Cons by auto
  moreover obtain nc where "channel_noise (che_channel che) = Some nc" using Cons.prems [of cid che] x by auto
  ultimately show ?case using x by (simp add: channel_remote_static_pubkey_def)
qed simp

lemma host_keys_copy_from_Ok:
  assumes "context_wf ble w"
  shows "\<exists>aux. host_keys_copy_from i (channel_appdata w) (thp_aux w) = Ok aux \<and> aux_wf aux \<and> credentials aux = credentials (thp_aux w)"
proof -
  have "\<exists>keys. collect_host_keys i (channel_appdata w) = Ok keys \<and> length keys \<le> length (channel_appdata w)"
    by (rule collect_host_keys_Ok) (use assms in \<open>auto simp: context_wf_def entries_wf_def established_wf_def\<close>)
  then obtain keys where keys: "collect_host_keys i (channel_appdata w) = Ok keys" "length keys \<le> MAX_CHANNELS_APPDATA"
    using context_wf_distinct(4) [OF assms] le_trans by blast
  then have "host_keys_copy_from i (channel_appdata w) (thp_aux w) = Ok ((thp_aux w)\<lparr>host_keys := keys\<rparr>)"
    by (simp add: host_keys_copy_from_def vec_extend_def)
  then show ?thesis using keys(2) context_wf_distinct(5) [OF assms] by (simp add: aux_wf_def)
qed

section \<open>Safety of the operations\<close>

lemma safely_map_err: "safely P (map_err g r, s) \<longleftrightarrow> r \<noteq> Panic \<and> P s"
  by (auto simp: safely_def)

lemma safely_lookup:
  assumes "P s" "\<And>x. r = Ok x \<Longrightarrow> safely P (f x s)" "r \<noteq> Panic"
  shows "safely P (and_then_st (r, s) f)"
  using assms by (cases r) auto

lemma device_channel_alloc_cases:
  fixes B :: "('c, 'h) backend"
  assumes "device_mux_wf m" "unicast_valid cid"
  obtains (no) e where "device_channel_alloc B m cid v = (Err e, m)"
  | (ok) d m' where "device_channel_alloc B m cid v = (Ok d, m')" "device_mux_wf m'" "open_wf cid d"
proof (cases "dm_new_channel m")
  case None
  then have "device_channel_alloc B m cid v
      = (Err (if \<not> channel_id_valid cid \<or> cid = BROADCAST_CHANNEL_ID then UnexpectedInput else NotReady), m)"
    by (simp add: device_channel_alloc_def)
  then show thesis by (rule no)
next
  case (Some nonce)
  obtain d where d: "device_channel_alloc B m cid v = (Ok d, m\<lparr>dm_new_channel := None\<rparr>)" "device_open_wf d"
    by (rule device_channel_alloc_Ok [OF assms(1) Some assms(2)])
  have "device_mux_wf (m\<lparr>dm_new_channel := None\<rparr>)" using assms(1) by (simp add: device_mux_wf_def)
  moreover have "channel_id (do_channel d) = cid"
    using d(1) Some by (auto simp: device_channel_alloc_def device_open_new_def case_prod_unfold Let_def channel_new_def split: if_splits)
  ultimately show thesis using ok d by (simp add: open_wf_def)
qed

lemma insert_opening_wf:
  assumes "context_wf ble w" "length (channel_opening w) < MAX_CHANNELS_OPENING" "map_of (channel_opening w) cid = None"
    "map_of (channel_appdata w) cid = None" "open_wf cid d" "timing_wf t"
  shows "context_wf ble (w\<lparr>channel_opening := channel_opening w @ [(cid, \<lparr>che_channel = d, che_iface_num = i, che_timing = t\<rparr>)]\<rparr>)"
  using assms entries_wf_append [of MAX_CHANNELS_OPENING open_wf "channel_opening w" cid]
  by (simp add: context_wf_def map_of_eq_None_iff)

lemma insert_appdata_wf:
  assumes "context_wf ble w" "length (channel_appdata w) < MAX_CHANNELS_APPDATA" "map_of (channel_opening w) cid = None"
    "map_of (channel_appdata w) cid = None" "established_wf cid ch" "timing_wf t" "\<not> is_encrypted_transport ch"
  shows "context_wf ble (w\<lparr>channel_appdata := channel_appdata w @ [(cid, \<lparr>che_channel = ch, che_iface_num = i, che_timing = t\<rparr>)]\<rparr>)"
proof -
  have "one_per_peer (channel_appdata w @ [(cid, \<lparr>che_channel = ch, che_iface_num = i, che_timing = t\<rparr>)])"
    using assms(1,7) by (simp add: one_per_peer_def context_wf_def same_peer_def [of "\<lparr>che_channel = ch, che_iface_num = i, che_timing = t\<rparr>"]
      same_peer_def [of _ "\<lparr>che_channel = ch, che_iface_num = i, che_timing = t\<rparr>"])
  then show ?thesis
    using assms entries_wf_append [of MAX_CHANNELS_APPDATA established_wf "channel_appdata w" cid]
    by (simp add: context_wf_def map_of_eq_None_iff)
qed

lemma add_interface_safe:
  assumes "context_wf ble w"
  shows "safely (context_wf ble) (add_interface ble w i props)"
proof (cases "map_of (ifaces w) i")
  case None
  then have "i \<notin> fst ` set (ifaces w)" by (simp add: map_of_eq_None_iff)
  then have "safely (context_wf ble) (case lm_insert (MAX_INTERFACES ble) i m (ifaces w) of
            None \<Rightarrow> (Err TooManyInterfaces, w) | Some (_, muxes) \<Rightarrow> (Ok (), w\<lparr>ifaces := muxes\<rparr>))"
    if "device_mux_new props = Ok m" for m
    using assms None device_mux_new_wf [OF that] by (auto simp: lm_insert_def context_wf_def)
  then show ?thesis
    using None assms by (auto simp: add_interface_def device_mux_new_def and_then_eq_Panic intro!: safely_lookup)
qed (use assms in \<open>simp add: add_interface_def\<close>)

context linear_map
begin

lemma channel_close_lookup:
  "context_wf ble w \<Longrightarrow> map_of (channel_appdata (channel_close R c w)) = (map_of (channel_appdata w))(c := None)"
  "context_wf ble w \<Longrightarrow> map_of (channel_opening (channel_close R c w)) = (map_of (channel_opening w))(c := None)"
  by (simp_all add: channel_close_tables context_wf_tables context_wf_distinct)

lemma make_room:
  assumes "context_wf ble w"
  obtains lru where "lru_needs_closing MAX_CHANNELS_OPENING (channel_opening w) = Ok lru"
    "length (channel_opening (channel_close_opt R lru w)) < MAX_CHANNELS_OPENING"
proof -
  have "length (channel_opening w) \<le> MAX_CHANNELS_OPENING" "0 < MAX_CHANNELS_OPENING"
    using context_wf_distinct [OF assms] by (simp_all add: MAX_CHANNELS_OPENING_def)
  then show thesis
  proof (cases rule: lru_needs_closing_full)
    case room
    then show ?thesis using that by (simp add: channel_close_opt_def)
  next
    case (full cid che)
    then have "map_of (channel_opening w) cid \<noteq> None" using weak_map_of_SomeI [OF full(3)] by auto
    then show ?thesis
      using that full(1,2) context_wf_distinct [OF assms] channel_close_tables(2) [OF context_wf_tables [OF assms]]
      by (simp add: channel_close_opt_def lm_remove_length MAX_CHANNELS_OPENING_def)
  qed
qed

lemma make_room_appdata:
  assumes "context_wf ble w"
  obtains lru where "lru_needs_closing MAX_CHANNELS_APPDATA (channel_appdata w) = Ok lru"
    "length (channel_appdata (channel_close_opt R lru w)) < MAX_CHANNELS_APPDATA"
proof -
  have "length (channel_appdata w) \<le> MAX_CHANNELS_APPDATA" "0 < MAX_CHANNELS_APPDATA"
    using context_wf_distinct [OF assms] by (simp_all add: MAX_CHANNELS_APPDATA_def)
  then show thesis
  proof (cases rule: lru_needs_closing_full)
    case room
    then show ?thesis using that by (simp add: channel_close_opt_def)
  next
    case (full cid che)
    then have "map_of (channel_appdata w) cid \<noteq> None" using weak_map_of_SomeI [OF full(3)] by auto
    then show ?thesis
      using that full(1,2) context_wf_distinct [OF assms] channel_close_tables(1) [OF context_wf_tables [OF assms]]
      by (simp add: channel_close_opt_def lm_remove_length MAX_CHANNELS_APPDATA_def)
  qed
qed

lemma channel_close_opt_absent:
  "context_wf ble w \<Longrightarrow> map_of (channel_opening w) cid = None \<Longrightarrow> map_of (channel_opening (channel_close_opt R c w)) cid = None"
  "context_wf ble w \<Longrightarrow> map_of (channel_appdata w) cid = None \<Longrightarrow> map_of (channel_appdata (channel_close_opt R c w)) cid = None"
  by (auto simp: channel_close_opt_def channel_close_lookup split: option.split)

lemma packet_in_alloc_safe:
  fixes w :: "('c, 'h) thp_context"
  assumes "context_wf ble w"
  shows "safely (context_wf ble) (packet_in_alloc B R clock w i)"
proof -
  obtain cid counter where id: "get_channel_id w = Some (cid, counter)" "unicast_valid cid"
    "map_of (channel_opening w) cid = None" "map_of (channel_appdata w) cid = None"
    by (rule get_channel_id_returns [OF context_wf_distinct(3,4) [OF assms]]) blast
  have insert: "safely (context_wf ble) (and_then_st (lru_needs_closing MAX_CHANNELS_OPENING (channel_opening v), v) (\<lambda>lru w.
          let w = channel_close_opt R lru w; timing = channel_timing_new (context_now clock w);
              (n, w) = last_usage_next w; timing = update_last_usage n timing
          in and_then_st (insert_channel MAX_CHANNELS_OPENING (channel_opening w) i cid d timing, w) (\<lambda>opening w.
             (Ok (), w\<lparr>channel_opening := opening\<rparr>))))"
    if v: "context_wf ble v" "channel_opening v = channel_opening w" "channel_appdata v = channel_appdata w" "open_wf cid d"
    for v :: "('c, 'h) thp_context" and d
  proof (rule make_room [OF v(1)])
    fix lru
    assume lru: "lru_needs_closing MAX_CHANNELS_OPENING (channel_opening v) = Ok lru"
      "length (channel_opening (channel_close_opt R lru v)) < MAX_CHANNELS_OPENING"
    let ?v = "channel_close_opt R lru v"
    let ?u = "?v\<lparr>last_usage_counter := last_usage_counter ?v + 1\<rparr>"
    have "map_of (channel_opening ?v) cid = None" "map_of (channel_appdata ?v) cid = None"
      using channel_close_opt_absent [OF v(1)] id(3,4) v(2,3) by simp_all
    then show ?thesis
      using lru v(4) channel_close_opt_wf [OF v(1), of lru] insert_opening_wf [of ble ?u cid d]
      by (simp add: last_usage_next_def Let_def insert_channel_Ok)
  qed
  show ?thesis
    unfolding packet_in_alloc_def id(1) option.case prod.case Let_def
  proof (rule safely_lookup)
    fix mux
    assume mux: "ok_or InterfaceNotFound (map_of (ifaces (w\<lparr>channel_id_counter := counter\<rparr>)) i) = Ok mux"
    then have wf: "device_mux_wf mux" using mux_lookup_wf [OF assms] by simp
    show "safely (context_wf ble) (case device_channel_alloc B mux cid no_verify of (res, mux) \<Rightarrow>
        and_then_st (map_err Protocol res, put_mux i mux (w\<lparr>channel_id_counter := counter\<rparr>)) (\<lambda>channel w.
          and_then_st (lru_needs_closing MAX_CHANNELS_OPENING (channel_opening w), w) (\<lambda>lru w.
          case last_usage_next (channel_close_opt R lru w) of (n, wa) \<Rightarrow>
            and_then_st (insert_channel MAX_CHANNELS_OPENING (channel_opening wa) i cid channel
              (update_last_usage n (channel_timing_new (context_now clock (channel_close_opt R lru w)))), wa) (\<lambda>opening w.
             (Ok (), w\<lparr>channel_opening := opening\<rparr>)))))"
      using wf id(2)
    proof (cases rule: device_channel_alloc_cases [where B = B and v = no_verify])
      case (no e)
      then show ?thesis using assms wf by (simp add: put_mux_wf)
    next
      case (ok d m')
      have "context_wf ble (put_mux i m' (w\<lparr>channel_id_counter := counter\<rparr>))" using assms ok(2) by (simp add: put_mux_wf)
      then show ?thesis using ok insert [of "put_mux i m' (w\<lparr>channel_id_counter := counter\<rparr>)" d] by (simp add: put_mux_def Let_def)
    qed
  qed (use assms in simp_all)
qed

end

lemma device_complete_established:
  assumes "device_complete d = Ok ch" "open_wf cid d"
  shows "established_wf cid ch" "\<not> is_encrypted_transport ch"
  using assms
  by (auto simp: device_complete_def open_wf_def device_open_wf_def established_wf_def is_encrypted_transport_def
      split: if_splits device_handshake_state.splits)

lemma device_complete_no_panic [simp]: "device_complete d \<noteq> Panic"
  by (auto simp: device_complete_def split: device_handshake_state.splits)

lemma handshake_timing_wf: "timing_wf t \<Longrightarrow> timing_wf (handshake_timing now pir d t)"
  by (simp add: handshake_timing_def Let_def)

lemma device_open_packet_in_open_wf:
  assumes "open_wf cid d" "backend_ok B" "device_open_packet_in B (d\<lparr>do_cred_verif := v\<rparr>) packet = (r, d')"
  shows "r \<noteq> Panic" "open_wf cid (d'\<lparr>do_cred_verif := v'\<rparr>)"
proof -
  have wf: "device_open_wf (d\<lparr>do_cred_verif := v\<rparr>)" using assms(1) by (simp add: open_wf_def device_open_wf_def)
  show "r \<noteq> Panic" "open_wf cid (d'\<lparr>do_cred_verif := v'\<rparr>)"
    using device_open_packet_in_safe [OF wf assms(2), of packet] device_open_packet_in_id [of "d\<lparr>do_cred_verif := v\<rparr>" B packet] assms(1,3)
    by (auto simp: safely_def open_wf_def device_open_wf_def same_id_def)
qed

context linear_map
begin

lemma remove_opening_wf:
  assumes "context_wf ble w"
  shows "context_wf ble (w\<lparr>channel_opening := snd (lm_remove R cid (channel_opening w))\<rparr>)"
proof -
  note dist = context_wf_distinct(1) [OF assms]
  have sub: "set (snd (lm_remove R cid (channel_opening w))) \<subseteq> set (channel_opening w)" using dist by (auto simp: lm_remove_set)
  have "entries_wf MAX_CHANNELS_OPENING open_wf (snd (lm_remove R cid (channel_opening w)))"
    by (rule entries_wf_subset [where m = "channel_opening w"])
      (use assms dist sub in \<open>simp_all add: context_wf_def lm_remove_length\<close>)
  moreover have "fst ` set (snd (lm_remove R cid (channel_opening w))) \<inter> fst ` set (channel_appdata w) = {}"
    using assms image_mono [OF sub, of fst] unfolding context_wf_def by blast
  ultimately show ?thesis using assms by (simp add: context_wf_def)
qed

lemma handshake_finish_safe:
  fixes w :: "('c, 'h) thp_context"
  assumes "context_wf ble w" "map_of (channel_opening w) cid = Some che"
  shows "safely (context_wf ble) (handshake_finish R w cid)"
proof -
  let ?w = "w\<lparr>channel_opening := snd (lm_remove R cid (channel_opening w))\<rparr>"
  let ?v = "?w\<lparr>last_usage_counter := last_usage_counter w + 1\<rparr>"
  note dist = context_wf_distinct(1) [OF assms(1)] and open_che = opening_lookup_wf [OF assms]
  have wf: "context_wf ble ?w" "context_wf ble ?v" using remove_opening_wf [OF assms(1)] by simp_all
  have absent: "map_of (channel_opening ?v) cid = None" "map_of (channel_appdata ?v) cid = None"
    using dist open_che(4) by simp_all
  have move: "safely (context_wf ble) (and_then_st (lru_needs_closing MAX_CHANNELS_APPDATA (channel_appdata ?v), ?v) (\<lambda>lru w.
             let w = channel_close_opt R lru w in
             and_then_st (insert_channel MAX_CHANNELS_APPDATA (channel_appdata w) (che_iface_num che) cid ch t, w)
               (\<lambda>appdata w. (Ok (), w\<lparr>channel_appdata := appdata\<rparr>))))"
    if ch: "device_complete (che_channel che) = Ok ch" and t: "timing_wf t" for ch t
  proof (rule make_room_appdata [OF wf(2)])
    fix lru
    assume lru: "lru_needs_closing MAX_CHANNELS_APPDATA (channel_appdata ?v) = Ok lru"
      "length (channel_appdata (channel_close_opt R lru ?v)) < MAX_CHANNELS_APPDATA"
    have "open_wf cid (che_channel che)" using open_che(1,2) by (simp add: open_wf_def)
    note est = device_complete_established [OF ch this]
    show ?thesis
      using lru channel_close_opt_absent [OF wf(2), of cid lru] absent channel_close_opt_wf [OF wf(2), of lru]
        insert_appdata_wf [of ble "channel_close_opt R lru ?v" cid ch t] est t
      by (simp add: insert_channel_Ok Let_def)
  qed
  show ?thesis
  proof (cases "device_complete (che_channel che)")
    case (Ok ch)
    then show ?thesis
      using move [OF Ok, of "update_last_usage (last_usage_counter w + 1) (che_timing che)"] open_che(3) assms(2) dist
      by (simp add: handshake_finish_def case_prod_unfold Let_def last_usage_next_def)
  qed (use wf(1) assms(2) dist in \<open>simp_all add: handshake_finish_def case_prod_unfold Let_def\<close>)
qed

lemma handshake_result_safe:
  assumes "context_wf ble w" "map_of (channel_opening w) cid = Some che"
  shows "safely (context_wf ble) (handshake_result R w cid d pir)"
  using assms handshake_finish_safe [OF assms] channel_close_wf [OF assms(1), of cid]
  by (cases pir) (auto simp: handshake_result_def Let_def intro: safely_and_then)

lemma packet_in_handshake_cases:
  fixes w :: "('c, 'h) thp_context"
  assumes wf: "context_wf ble w" and B: "backend_ok B" and che: "map_of (channel_opening w) cid = Some che"
  obtains (locked) "packet_in_handshake B R clock f w cid packet = (Err CannotUnlock, w)"
  | (error) aux e where "packet_in_handshake B R clock f w cid packet = (Err (Protocol e), w\<lparr>thp_aux := aux\<rparr>)" "aux_wf aux"
  | (result) aux che' d pir where
      "packet_in_handshake B R clock f w cid packet = handshake_result R (put_opening cid che' (w\<lparr>thp_aux := aux\<rparr>)) cid d pir"
      "context_wf ble (put_opening cid che' (w\<lparr>thp_aux := aux\<rparr>))" "che_iface_num che' = che_iface_num che"
      "map_of (channel_opening (put_opening cid che' (w\<lparr>thp_aux := aux\<rparr>))) cid = Some che'" "aux_wf aux"
proof -
  note open_che = opening_lookup_wf [OF wf che]
  have och: "open_wf cid (che_channel che)" using open_che(1,2) by (simp add: open_wf_def)
  obtain aux where aux: "host_keys_copy_from (che_iface_num che) (channel_appdata w) (thp_aux w) = Ok aux" "aux_wf aux"
    using host_keys_copy_from_Ok [OF wf] by blast
  define verify where "verify = (\<lambda>key cred. case trezor_verify cid f False key cred aux of Ok (ps, _) \<Rightarrow> ps | _ \<Rightarrow> Unpaired)"
  define d where "d = (che_channel che)\<lparr>do_cred_verif := verify\<rparr>"
  obtain aux' where aux': "(case verify_call B d packet of None \<Rightarrow> Ok aux
      | Some (key, cred) \<Rightarrow> map_ok snd (trezor_verify cid f False key cred aux)) = Ok aux'" "aux_wf aux'"
  proof (cases "verify_call B d packet")
    case (Some kc)
    obtain ps a where "trezor_verify cid f False (fst kc) (snd kc) aux = Ok (ps, a)" "aux_wf a"
      using trezor_verify_wf [OF aux(2)] by blast
    then show thesis using that [of a] Some by (cases kc) simp
  qed (use that aux(2) in simp)
  obtain pir d' where step: "device_open_packet_in B d packet = (pir, d')" by fastforce
  note kept = device_open_packet_in_open_wf [OF och B step [unfolded d_def]]
  let ?d = "d'\<lparr>do_cred_verif := no_verify\<rparr>"
  let ?e = "\<lambda>p. che\<lparr>che_channel := ?d, che_timing := handshake_timing (context_now clock w) p ?d (che_timing che)\<rparr>"
  have put: "context_wf ble (put_opening cid (?e p) (w\<lparr>thp_aux := aux'\<rparr>))"
    "map_of (channel_opening (put_opening cid (?e p) (w\<lparr>thp_aux := aux'\<rparr>))) cid = Some (?e p)" for p
    using put_opening_wf [OF context_wf_aux [OF wf aux'(2)], of cid "?e p"] che kept(2) [of no_verify] open_che(3)
    by (simp_all add: put_opening_def map_of_lm_set handshake_timing_wf)
  have run: "packet_in_handshake B R clock f w cid packet =
      (if thp_aux_locked w then (Err CannotUnlock, w) else
         and_then_st (map_err Protocol pir, w\<lparr>thp_aux := aux'\<rparr>) (\<lambda>p w. handshake_result R (put_opening cid (?e p) w) cid ?d p))"
    using che aux(1) aux'(1) step unfolding packet_in_handshake_def
    by (simp add: Let_def d_def [symmetric] verify_def [symmetric])
  show thesis
  proof (cases "thp_aux_locked w")
    case False
    show thesis
    proof (cases pir)
      case (Ok p)
      then show thesis using result [of "?e p" aux' ?d p] run put [of p] aux'(2) False by simp
    next
      case (Err e)
      then show thesis using error [of e aux'] run aux'(2) False by simp
    qed (use kept(1) in simp)
  qed (use locked run in simp)
qed

lemma packet_in_handshake_safe:
  fixes w :: "('c, 'h) thp_context"
  assumes wf: "context_wf ble w" and B: "backend_ok B"
  shows "safely (context_wf ble) (packet_in_handshake B R clock f w cid packet)"
proof (cases "map_of (channel_opening w) cid")
  case (Some che)
  with wf B show ?thesis
  proof (cases rule: packet_in_handshake_cases [where clock = clock and f = f and packet = packet])
    case (result aux che' d pir)
    then show ?thesis using handshake_result_safe by simp
  qed (simp_all add: wf context_wf_aux)
qed (use wf in \<open>simp add: packet_in_handshake_def\<close>)

end

abbreviation context_buf_wf :: "bool \<Rightarrow> ('c, 'h) thp_context \<times> bytes \<Rightarrow> bool" where
  "context_buf_wf ble \<equiv> \<lambda>(w, _). context_wf ble w"

lemma lookup_channel_eq [simp]:
  "lookup_channel cid w = Ok che \<longleftrightarrow> map_of (channel_appdata w) cid = Some che" "lookup_channel cid w \<noteq> Panic"
  by (simp_all add: lookup_channel_def)

lemma mux_no_panic:
  "device_mux_wf m \<Longrightarrow> fst (device_mux_packet_in m packet) \<noteq> Panic \<and> device_mux_wf (snd (device_mux_packet_in m packet))"
  "device_mux_wf m \<Longrightarrow> fst (send_unallocated_channel m cid) \<noteq> Panic \<and> device_mux_wf (snd (send_unallocated_channel m cid))"
  using device_mux_packet_in_safe [of m packet] mux_enqueue_wf [of m "OutError cid UnallocatedChannel"]
  by (auto simp: safely_def send_unallocated_channel_def)

lemma packet_unallocated_safe:
  assumes "context_wf ble w" "device_mux_wf m"
  shows "safely (context_wf ble) (packet_unallocated w i m cid packet)"
  using mux_no_panic(2) [OF assms(2), of cid] put_mux_wf [OF assms(1)] assms(1)
  by (auto simp: packet_unallocated_def case_prod_unfold Let_def intro!: safely_lookup)

text \<open>A method of an established channel, with the entry put back.\<close>

lemma method_wf:
  assumes "context_wf ble w" "map_of (channel_appdata w) cid = Some che" "channel_wf Device ch" "channel_kept (che_channel che) ch"
  shows "context_wf ble (put_channel cid (che\<lparr>che_channel := ch\<rparr>) w)"
    "timing_wf t \<Longrightarrow> context_wf ble (put_channel cid (che\<lparr>che_channel := ch, che_timing := t\<rparr>) w)"
    "timing_wf t \<Longrightarrow> context_wf ble (put_channel cid (che\<lparr>che_channel := ch, che_timing := t\<rparr>) (put_channel cid (che\<lparr>che_channel := ch\<rparr>) w))"
proof -
  show 1: "context_wf ble (put_channel cid (che\<lparr>che_channel := ch\<rparr>) w)"
    using assms lookup_wf(4) [OF assms(1,2)] by (auto intro!: put_channel_wf [OF assms(1,2)])
  show "timing_wf t \<Longrightarrow> context_wf ble (put_channel cid (che\<lparr>che_channel := ch, che_timing := t\<rparr>) w)"
    using assms by (auto intro!: put_channel_wf [OF assms(1,2)])
  show "timing_wf t \<Longrightarrow> context_wf ble (put_channel cid (che\<lparr>che_channel := ch, che_timing := t\<rparr>) (put_channel cid (che\<lparr>che_channel := ch\<rparr>) w))"
    using assms by (auto intro!: put_channel_wf [OF 1])
qed

lemma context_message_out_safe:
  assumes "context_wf ble w" "backend_ok B"
  shows "safely (context_buf_wf ble) (message_out B w cid buf)"
proof (cases "map_of (channel_appdata w) cid")
  case (Some che)
  have "safely (\<lambda>(ch', b). channel_wf Device ch') (channel_message_out B Device (che_channel che) buf)"
    using channel_message_out_safe [OF lookup_wf(1) [OF assms(1) Some] assms(2), of buf Device] by (auto simp: safely_def)
  then show ?thesis
    using Some method_wf(1) [OF assms(1) Some _ message_out_kept, of B Device buf]
    by (auto simp: message_out_def lookup_channel_def case_prod_unfold Let_def safely_def map_ok_def and_then_eq_Panic)
qed (use assms(1) in \<open>simp add: message_out_def lookup_channel_def\<close>)

lemma context_message_in_safe:
  assumes "context_wf ble w" "backend_ok B"
  shows "safely (context_buf_wf ble) (message_in B clock w cid n buf)"
proof (cases "map_of (channel_appdata w) cid")
  case (Some che)
  obtain r ch b where step: "channel_message_in B (che_channel che) n buf = (r, (ch, b))" by (metis prod.exhaust)
  have r: "r \<noteq> Panic" "channel_wf Device ch"
    using channel_message_in_safe [OF lookup_wf(1) [OF assms(1) Some] assms(2), of buf n] step by (auto simp: safely_def)
  have "channel_kept (che_channel che) ch" using message_in_kept [of "che_channel che" B n buf] step by simp
  note put = method_wf(1,3) [OF assms(1) Some r(2) this]
  show ?thesis
    using Some step put r(1) lookup_wf(4) [OF assms(1) Some]
    by (cases r) (simp_all add: message_in_def lookup_channel_def Let_def)
qed (use assms(1) in \<open>simp add: message_in_def lookup_channel_def\<close>)

lemma context_transport_busy_safe:
  assumes "context_wf ble w"
  shows "safely (context_wf ble) (context_transport_busy w cid)"
proof (cases "map_of (channel_appdata w) cid")
  case (Some che)
  then show ?thesis
    using method_wf(1) [OF assms Some, of "send_error TransportBusy (che_channel che)"] lookup_wf(1) [OF assms Some]
    by (simp add: context_transport_busy_def lookup_channel_def)
qed (use assms in \<open>simp add: context_transport_busy_def lookup_channel_def\<close>)

lemma channel_update_last_usage_wf:
  assumes "context_wf ble w"
  shows "context_wf ble (channel_update_last_usage cid w)"
proof (cases "map_of (channel_appdata w) cid")
  case (Some che)
  let ?w = "w\<lparr>last_usage_counter := last_usage_counter w + 1\<rparr>"
  have "context_wf ble ?w" "map_of (channel_appdata ?w) cid = Some che" using assms Some by simp_all
  from method_wf(2) [OF this lookup_wf(1) [OF assms Some] channel_kept_refl, of "update_last_usage (last_usage_counter w + 1) (che_timing che)"]
  show ?thesis using Some lookup_wf(4) [OF assms Some] by (simp add: channel_update_last_usage_def last_usage_next_def Let_def)
qed (use assms in \<open>simp add: channel_update_last_usage_def last_usage_next_def Let_def\<close>)

context linear_map
begin

lemma context_packet_in_safe:
  assumes wf: "context_wf ble w" and B: "backend_ok B"
  shows "safely (context_wf ble) (packet_in B R clock f w i packet)"
proof (cases "map_of (ifaces w) i")
  case (Some mux)
  obtain pir m where step: "device_mux_packet_in mux packet = (pir, m)" by fastforce
  have m: "pir \<noteq> Panic" "device_mux_wf m" using mux_no_panic(1) [OF mux_lookup_wf [OF wf Some], of packet] step by auto
  note put = put_mux_wf [OF wf m(2), of i]
  show ?thesis
  proof (cases pir)
    case (Ok p)
    then show ?thesis
      using Some step put packet_unallocated_safe [OF put m(2)] packet_in_handshake_safe [OF put B] packet_in_alloc_safe [OF put]
      by (cases p) (auto simp: packet_in_def intro!: safely_and_then split: option.split)
  qed (use Some step put m(1) in \<open>simp_all add: packet_in_def\<close>)
qed (use wf in \<open>simp add: packet_in_def\<close>)

lemma packet_in_channel_safe:
  assumes wf: "context_wf ble w"
  shows "safely (context_buf_wf ble) (packet_in_channel R clock w cid packet buf)"
proof (cases "map_of (channel_appdata w) cid")
  case (Some che)
  obtain p ch b where step: "channel_packet_in Device (che_channel che) packet buf = (Ok p, (ch, b))" and ch: "channel_wf Device ch"
    using channel_packet_in_Ok [of Device "che_channel che" packet buf] lookup_wf(1) [OF wf Some] by metis
  have "channel_kept (che_channel che) ch" using packet_in_kept [of "che_channel che" Device packet buf] step by simp
  note put = method_wf(1,3) [OF wf Some ch this]
  show ?thesis
    using Some step put channel_close_wf [OF put(1), of cid]
    by (cases p) (simp_all add: packet_in_channel_def lookup_channel_def Let_def)
qed (use wf in \<open>simp add: packet_in_channel_def lookup_channel_def\<close>)

lemma packet_out_channel_safe:
  assumes wf: "context_wf ble w"
  shows "safely (context_buf_wf ble) (packet_out_channel R w cid send_buffer packet)"
proof (cases "map_of (channel_appdata w) cid")
  case (Some che)
  obtain r ch b where step: "channel_packet_out Device (che_channel che) packet send_buffer = (r, (ch, b))" by (metis prod.exhaust)
  have r: "r \<noteq> Panic" "channel_wf Device ch"
    using channel_packet_out_safe [OF lookup_wf(1) [OF wf Some], of packet send_buffer] step by (auto simp: safely_def)
  have "channel_kept (che_channel che) ch" using packet_out_kept [of "che_channel che" Device packet send_buffer] step by simp
  note put = method_wf(1) [OF wf Some r(2) this]
  show ?thesis
    using Some step put channel_close_wf [OF put, of cid] r(1)
    by (cases r) (simp_all add: packet_out_channel_def lookup_channel_def Let_def)
qed (use wf in \<open>simp add: packet_out_channel_def lookup_channel_def\<close>)

lemma retransmit_result_safe: "context_wf ble w \<Longrightarrow> safely (context_wf ble) (retransmit_result R cid retry w)"
  by (auto simp: retransmit_result_def channel_close_wf split: option.split)

lemma message_retransmit_safe:
  assumes wf: "context_wf ble w"
  shows "safely (context_wf ble) (message_retransmit R w cid)"
proof (cases "map_of (channel_appdata w) cid")
  case (Some che)
  have "safely (channel_wf Device) (channel_message_retransmit (che_channel che))"
    by (rule channel_message_retransmit_wf [OF lookup_wf(1) [OF wf Some]])
  then show ?thesis
    using Some method_wf(1) [OF wf Some _ retransmit_kept]
    by (auto simp: message_retransmit_def case_prod_unfold Let_def safely_def [of "channel_wf Device"] intro!: safely_lookup retransmit_result_safe)
next
  case None
  show ?thesis
  proof (cases "map_of (channel_opening w) cid")
    case (Some che)
    note o = opening_lookup_wf [OF wf Some]
    have "safely device_open_wf (device_open_retransmit (che_channel che))"
      using channel_message_retransmit_wf [of Device "do_channel (che_channel che)"] o(1)
      by (simp add: device_open_retransmit_def device_open_wf_def safely_def case_prod_unfold Let_def)
    moreover from this have "open_wf cid (snd (device_open_retransmit (che_channel che)))"
      using device_open_retransmit_id [of "che_channel che"] o(2) by (simp add: open_wf_def same_id_def safely_def)
    ultimately show ?thesis
      using Some None put_opening_wf [OF wf, of cid "che\<lparr>che_channel := snd (device_open_retransmit (che_channel che))\<rparr>"] o(3)
      by (auto simp: message_retransmit_def case_prod_unfold Let_def safely_def [of device_open_wf] intro!: safely_lookup retransmit_result_safe)
  qed (use None wf in \<open>simp add: message_retransmit_def\<close>)
qed

end

text \<open>Loops over the handshake objects change objects and timing, but neither ids nor interfaces.\<close>

definition openings_wf :: "(u16 \<times> ('c, 'h) device_open channel_entry) list \<Rightarrow> bool" where
  "openings_wf m \<longleftrightarrow> (\<forall>(cid, che) \<in> set m. open_wf cid (che_channel che) \<and> timing_wf (che_timing che))"

lemma openings_wf_simps [simp]:
  "openings_wf []"
  "openings_wf ((cid, che) # m) \<longleftrightarrow> open_wf cid (che_channel che) \<and> timing_wf (che_timing che) \<and> openings_wf m"
  by (simp_all add: openings_wf_def)

lemma opening_map_wf:
  assumes "context_wf ble w" "map fst m = map fst (channel_opening w)" "openings_wf m"
  shows "context_wf ble (w\<lparr>channel_opening := m\<rparr>)"
proof -
  have "length m = length (channel_opening w)" using arg_cong [OF assms(2), of length] by simp
  moreover have "fst ` set m = fst ` set (channel_opening w)" using arg_cong [OF assms(2), of set] by simp
  ultimately show ?thesis using assms by (auto simp: context_wf_def entries_wf_def openings_wf_def)
qed

lemma opening_entries: "context_wf ble w \<Longrightarrow> openings_wf (channel_opening w)"
  by (auto simp: context_wf_def entries_wf_def openings_wf_def)

lemma packet_out_loop_safe:
  assumes "openings_wf m" "packet_out_loop i m packet = (r, (m', packet'))"
  shows "r \<noteq> Panic \<and> map fst m' = map fst m \<and> openings_wf m'"
  using assms
proof (induction m arbitrary: m' r packet')
  case (Cons x m)
  obtain cid che where x: "x = (cid, che)" by fastforce
  show ?case
  proof (cases "che_iface_num che = i \<and> channel_packet_out_ready (do_channel (che_channel che))")
    case True
    obtain r1 d p where out: "device_open_packet_out (che_channel che) packet = (r1, (d, p))" by (metis prod.exhaust)
    have "r1 \<noteq> Panic" "open_wf cid d"
      using Cons.prems(1) x out device_open_packet_out_id [of "che_channel che" packet]
        channel_packet_out_safe [of Device "do_channel (che_channel che)" packet "do_send_buffer (che_channel che)"]
      by (auto simp: open_wf_def device_open_wf_def same_id_def device_open_packet_out_def safely_def case_prod_unfold Let_def)
    then show ?thesis using Cons.prems x True out by (auto simp: map_ok_def and_then_eq_Panic)
  next
    case False
    obtain r1 m1 p where rec: "packet_out_loop i m packet = (r1, (m1, p))" by (metis prod.exhaust)
    then show ?thesis using Cons.IH [OF _ rec] Cons.prems x False by auto
  qed
qed simp

lemma device_locked_loop_wf:
  "openings_wf m \<Longrightarrow>
     map fst (snd (device_locked_loop i m)) = map fst m \<and> openings_wf (snd (device_locked_loop i m))"
proof (induction m)
  case (Cons x m)
  obtain cid che where x: "x = (cid, che)" by fastforce
  obtain r d where lock: "send_device_locked (che_channel che) = (r, d)" by fastforce
  have "open_wf cid d"
    using Cons.prems x lock send_device_locked_id [of "che_channel che"]
    by (auto simp: open_wf_def same_id_def send_device_locked_def device_open_wf_def split: if_splits)
  then show ?case
    using Cons x lock by (cases r) (auto simp: Let_def case_prod_unfold)
qed simp

lemma context_device_locked_safe:
  assumes "context_wf ble w"
  shows "safely (context_wf ble) (context_device_locked w i)"
proof -
  have "context_wf ble (w\<lparr>channel_opening := snd (device_locked_loop i (channel_opening w))\<rparr>)"
    by (rule opening_map_wf [OF assms]) (use device_locked_loop_wf [OF opening_entries [OF assms]] in auto)
  then show ?thesis by (auto simp: context_device_locked_def case_prod_unfold Let_def split: option.split)
qed

lemma static_key_loop_safe:
  assumes "openings_wf m" "backend_ok B"
  shows "\<exists>failed. fst (static_key_loop B now i key e m) = Ok failed \<and> length failed \<le> length m
    \<and> map fst (snd (static_key_loop B now i key e m)) = map fst m \<and> openings_wf (snd (static_key_loop B now i key e m))"
  using assms(1)
proof (induction m)
  case (Cons x m)
  obtain cid che where x: "x = (cid, che)" by fastforce
  obtain r d where set: "set_static_key B (che_channel che) key (e cid) = (r, d)" by fastforce
  have d: "r \<noteq> Panic" "open_wf cid d"
    using set Cons.prems x set_static_key_safe [of "che_channel che" B key "e cid"]
      set_static_key_id [of "che_channel che" B key "e cid"] assms(2)
    by (auto simp: open_wf_def same_id_def safely_def)
  obtain failed m' where rec: "static_key_loop B now i key e m = (Ok failed, m')" "length failed \<le> length m"
    "map fst m' = map fst m" "openings_wf m'"
    using Cons x by (cases "static_key_loop B now i key e m") auto
  show ?case
    using Cons.prems x set rec d by (cases r) (simp_all add: Let_def)
qed simp

lemma lm_set_iff:
  assumes "distinct (map fst m)" "map_of m k = Some w"
  shows "(a, f) \<in> set (lm_set k v m) \<longleftrightarrow> (a = k \<and> f = v) \<or> (a \<noteq> k \<and> (a, f) \<in> set m)"
  using map_of_eq_Some_iff [of "lm_set k v m" a f] map_of_eq_Some_iff [OF assms(1), of a f] assms
  by (cases "a = k") (auto simp: map_of_lm_set simp del: map_of_eq_Some_iff)

text \<open>What the search for the channel to replace finds.\<close>

definition replacement :: "u8 \<Rightarrow> u16 \<Rightarrow> bytes \<Rightarrow> (u16 \<times> 'c channel channel_entry) list \<Rightarrow> u16 option \<Rightarrow> bool" where
  "replacement i cid key m r \<longleftrightarrow>
     (let same = (\<lambda>(c, f). c \<noteq> cid \<and> che_iface_num f = i \<and> is_encrypted_transport (che_channel f) \<and> host_key f = Some key)
      in case r of None \<Rightarrow> \<forall>x \<in> set m. \<not> same x | Some c \<Rightarrow> \<exists>f. (c, f) \<in> set m \<and> same (c, f))"

lemma replacement_set:
  "distinct (map fst m) \<Longrightarrow> map_of m cid = Some che \<Longrightarrow> replacement i cid key (lm_set cid e m) r = replacement i cid key m r"
  unfolding replacement_def Let_def by (cases r) (auto simp: lm_set_iff)

lemma find_replaced_replacement:
  assumes "\<And>c che. (c, che) \<in> set m \<Longrightarrow> established_wf c (che_channel che)"
  shows "\<exists>r. find_replaced i cid key m = Ok r \<and> replacement i cid key m r"
  using assms
proof (induction m)
  case (Cons x m)
  obtain c che where x: "x = (c, che)" by fastforce
  obtain nc where nc: "channel_noise (che_channel che) = Some nc" "channel_id (che_channel che) = c"
    using Cons.prems [of c che] x by (auto simp: established_wf_def)
  then have key: "channel_remote_static_pubkey (che_channel che) = Ok (nc_remote_static_pubkey nc)"
    "host_key che = Some (nc_remote_static_pubkey nc)"
    by (simp_all add: channel_remote_static_pubkey_def host_key_def)
  obtain r where r: "find_replaced i cid key m = Ok r" "replacement i cid key m r" using Cons by auto
  show ?case
  proof (cases "che_iface_num che = i \<and> c \<noteq> cid \<and> is_encrypted_transport (che_channel che) \<and> nc_remote_static_pubkey nc = key")
    case True
    then show ?thesis using x nc key by (auto simp: replacement_def)
  next
    case False
    then have "find_replaced i cid key (x # m) = Ok r" using x nc key r(1) by auto
    moreover have "replacement i cid key (x # m) r"
      using r(2) False x key by (cases r) (auto simp: replacement_def)
    ultimately show ?thesis by blast
  qed
qed (simp add: replacement_def)

lemma one_per_peer_replace:
  assumes "one_per_peer m" "distinct (map fst m)" "map_of m cid = Some che"
    and "che_iface_num e = i" "host_key e = Some key" "replacement i cid key m r"
  shows "one_per_peer (filter (\<lambda>x. r \<noteq> Some (fst x)) (lm_set cid e m))"
  unfolding one_per_peer_def
proof (intro ballI, clarify)
  fix a f b g
  assume "(a, f) \<in> set (filter (\<lambda>x. r \<noteq> Some (fst x)) (lm_set cid e m))" "(b, g) \<in> set (filter (\<lambda>x. r \<noteq> Some (fst x)) (lm_set cid e m))"
    and same: "same_peer f g"
  then have ab: "(a = cid \<and> f = e) \<or> (a \<noteq> cid \<and> (a, f) \<in> set m)" "(b = cid \<and> g = e) \<or> (b \<noteq> cid \<and> (b, g) \<in> set m)"
    "r \<noteq> Some a" "r \<noteq> Some b"
    using lm_set_iff [OF assms(2,3)] by auto
  have uniq: "c = d" if "(c, x) \<in> set m" "(d, y) \<in> set m" "same_peer x y" for c d x y
    using assms(1) that unfolding one_per_peer_def by blast
  have other: "r = Some c" if "(c, x) \<in> set m" "c \<noteq> cid" "same_peer e x" for c x
  proof (cases r)
    case None
    then show ?thesis using assms(4-6) that by (auto simp: replacement_def same_peer_def)
  next
    case (Some d)
    then obtain y where "(d, y) \<in> set m" "che_iface_num y = i" "is_encrypted_transport (che_channel y)" "host_key y = Some key"
      using assms(6) by (auto simp: replacement_def)
    then show ?thesis using uniq [of d y c x] that assms(4,5) Some by (auto simp: same_peer_def)
  qed
  have "same_peer g f" using same by (auto simp: same_peer_def)
  then show "a = b" using ab same uniq other by blast
qed

context linear_map
begin

lemma context_packet_out_safe:
  assumes wf: "context_wf ble w"
  shows "safely (context_buf_wf ble) (packet_out R w i packet)"
proof (cases "map_of (ifaces w) i")
  case (Some mux)
  note mw = mux_lookup_wf [OF wf Some]
  show ?thesis
  proof (cases "device_mux_packet_out_ready mux")
    case True
    obtain r m p where out: "device_mux_packet_out mux packet = (r, (m, p))" by (metis prod.exhaust)
    have "r \<noteq> Panic" "device_mux_wf m" using device_mux_packet_out_safe [OF mw, of packet] out by (auto simp: safely_def)
    then show ?thesis
      using Some True out put_mux_wf [OF wf, of m i] by (cases r) (simp_all add: packet_out_def Let_def)
  next
    case False
    obtain r m p where out: "packet_out_loop i (channel_opening w) packet = (r, (m, p))" by (metis prod.exhaust)
    note l = packet_out_loop_safe [OF opening_entries [OF wf] out]
    have "context_wf ble (w\<lparr>channel_opening := m\<rparr>)" by (rule opening_map_wf [OF wf]) (use l in simp_all)
    then show ?thesis
      using Some False out l channel_close_opt_wf [of ble "w\<lparr>channel_opening := m\<rparr>"]
      by (cases r) (auto simp: packet_out_def Let_def)
  qed
qed (use wf in \<open>simp add: packet_out_def\<close>)

lemma handshake_static_key_safe:
  assumes wf: "context_wf ble w" and B: "backend_ok B"
  shows "safely (context_wf ble) (handshake_static_key B R clock e w i key)"
proof -
  let ?l = "static_key_loop B (context_now clock w) i key e (channel_opening w)"
  obtain failed where l: "fst ?l = Ok failed" "length failed \<le> length (channel_opening w)" "map fst (snd ?l) = map fst (channel_opening w)"
    "openings_wf (snd ?l)"
    using static_key_loop_safe [OF opening_entries [OF wf] B] by blast
  have "context_wf ble (w\<lparr>channel_opening := snd ?l\<rparr>)" by (rule opening_map_wf [OF wf]) (use l in auto)
  then show ?thesis
    using wf l(1,2) context_wf_distinct(3) [OF wf]
    by (simp add: handshake_static_key_def Let_def case_prod_unfold vec_from_slice_def vec_extend_def channel_close_fold_wf)
qed

end

lemma channel_close_all_wf:
  assumes wf: "context_wf ble w"
  shows "context_wf ble (channel_close_all exclude w)"
proof -
  let ?f = "filter (\<lambda>(cid, _). Some cid = exclude) (channel_appdata w)"
  have "entries_wf MAX_CHANNELS_APPDATA established_wf ?f"
    by (rule entries_wf_subset [where m = "channel_appdata w"])
      (use wf context_wf_distinct(2) [OF wf] in \<open>auto simp: context_wf_def distinct_map_filter\<close>)
  moreover have "one_per_peer ?f"
    by (rule one_per_peer_subset [where m = "channel_appdata w"]) (use wf in \<open>auto simp: context_wf_def\<close>)
  moreover have keys: "map (fst \<circ> (\<lambda>(i, m). (i, device_mux_reset m))) xs = map fst xs" for xs :: "(u8 \<times> device_mux) list"
    by (simp add: case_prod_unfold comp_def)
  moreover have "\<forall>(_, m) \<in> set (map (\<lambda>(i, m). (i, device_mux_reset m)) (ifaces w)). device_mux_wf m"
    using wf by (auto simp: context_wf_def device_mux_reset_def device_mux_wf_def)
  ultimately show ?thesis
    using wf by (simp add: channel_close_all_def Let_def context_wf_def entries_wf_def [of _ open_wf] keys)
qed

context linear_map
begin

lemma channel_close_opt_tables:
  assumes "tables_ok w"
  shows "set (channel_appdata (channel_close_opt R c w)) = {x \<in> set (channel_appdata w). c \<noteq> Some (fst x)}"
    "set (channel_opening (channel_close_opt R c w)) = {x \<in> set (channel_opening w). c \<noteq> Some (fst x)}"
    "map_of (channel_appdata (channel_close_opt R c w)) = (case c of None \<Rightarrow> map_of (channel_appdata w) | Some c \<Rightarrow> (map_of (channel_appdata w))(c := None))"
    "length (channel_appdata (channel_close_opt R c w)) \<le> length (channel_appdata w)"
    "length (channel_opening (channel_close_opt R c w)) \<le> length (channel_opening w)"
    "tables_ok (channel_close_opt R c w)"
    "ifaces (channel_close_opt R c w) = ifaces w" "thp_aux_locked (channel_close_opt R c w) = thp_aux_locked w"
proof -
  have d: "distinct (map fst (channel_opening w))" "distinct (map fst (channel_appdata w))" using assms by (simp_all add: tables_ok_def)
  note t = channel_close_tables [OF assms]
  have "tables_ok (channel_close R cid w)" for cid
    using assms t [of cid] d by (auto simp: tables_ok_def lm_remove_set)
  then show "set (channel_appdata (channel_close_opt R c w)) = {x \<in> set (channel_appdata w). c \<noteq> Some (fst x)}"
    "set (channel_opening (channel_close_opt R c w)) = {x \<in> set (channel_opening w). c \<noteq> Some (fst x)}"
    "map_of (channel_appdata (channel_close_opt R c w)) = (case c of None \<Rightarrow> map_of (channel_appdata w) | Some c \<Rightarrow> (map_of (channel_appdata w))(c := None))"
    "length (channel_appdata (channel_close_opt R c w)) \<le> length (channel_appdata w)"
    "length (channel_opening (channel_close_opt R c w)) \<le> length (channel_opening w)"
    "tables_ok (channel_close_opt R c w)"
    "ifaces (channel_close_opt R c w) = ifaces w" "thp_aux_locked (channel_close_opt R c w) = thp_aux_locked w"
    using t d assms by (cases c; auto simp: channel_close_opt_def lm_remove_set lm_remove_length)+
qed


lemma channel_paired_replaces:
  assumes wf: "context_wf ble w" and che: "map_of (channel_appdata w) cid = Some che"
    and new: "\<not> is_encrypted_transport (che_channel che)" and key: "host_key che = Some key"
  obtains old w' where
    "channel_paired R w cid = (if thp_aux_locked w then Err CannotUnlock else Ok old, w')" "context_wf ble w'"
    "map_of (channel_appdata w') =
      (\<lambda>c. if old = Some c then None else ((map_of (channel_appdata w))(cid \<mapsto> che\<lparr>che_channel := end_pairing (che_channel che)\<rparr>)) c)"
    "set (channel_opening w') = set (channel_opening w)" "replacement (che_iface_num che) cid key (channel_appdata w) old"
proof -
  define e where "e = che\<lparr>che_channel := end_pairing (che_channel che)\<rparr>"
  have dist: "distinct (map fst (channel_appdata w))" and one: "one_per_peer (channel_appdata w)"
    and ent: "entries_wf MAX_CHANNELS_APPDATA established_wf (channel_appdata w)"
    using wf by (simp_all add: context_wf_def entries_wf_def)
  have e: "che_iface_num e = che_iface_num che" "host_key e = Some key" "established_wf cid (che_channel e)" "timing_wf (che_timing e)"
    using key lookup_wf [OF wf che] by (simp_all add: e_def host_key_def end_pairing_def established_wf_def)
  let ?w = "put_channel cid e w"
  have ent': "entries_wf MAX_CHANNELS_APPDATA established_wf (lm_set cid e (channel_appdata w))"
    by (rule entries_wf_set [OF ent e(3,4)])
  have "\<exists>r. find_replaced (che_iface_num che) cid key (lm_set cid e (channel_appdata w)) = Ok r
      \<and> replacement (che_iface_num che) cid key (lm_set cid e (channel_appdata w)) r"
    by (rule find_replaced_replacement) (use ent' in \<open>auto simp: entries_wf_def\<close>)
  then obtain r where r: "find_replaced (che_iface_num che) cid key (lm_set cid e (channel_appdata w)) = Ok r"
    "replacement (che_iface_num che) cid key (channel_appdata w) r"
    by (auto simp: replacement_set [OF dist che])
  let ?v = "channel_close_opt R r ?w"
  let ?u = "if thp_aux_locked w then ?v else ?v\<lparr>thp_aux := delete_credential cid (thp_aux ?v)\<rparr>"
  have ok: "tables_ok ?w" using context_wf_tables [OF wf] by (simp add: tables_ok_def put_channel_def)
  note t = channel_close_opt_tables [OF ok, of r]
  have "channel_remote_static_pubkey (end_pairing (che_channel che)) = Ok key"
    using key by (auto simp: channel_remote_static_pubkey_def end_pairing_def host_key_def)
  then have run: "channel_paired R w cid = (if thp_aux_locked w then Err CannotUnlock else Ok r, ?u)"
    using che new r(1) t(8)
    by (simp add: channel_paired_def lookup_channel_def Let_def e_def [symmetric]) (simp add: put_channel_def)
  have r_cid: "r \<noteq> Some cid" using r(2) by (auto simp: replacement_def)
  have open_r: "r \<noteq> Some (fst x)" if "x \<in> set (channel_opening w)" for x
    using r(2) that wf by (cases r) (force simp: replacement_def context_wf_def)+
  then have opening_v: "set (channel_opening ?v) = set (channel_opening w)" using t(2) by auto
  have set_v: "set (channel_appdata ?v) = set (filter (\<lambda>x. r \<noteq> Some (fst x)) (lm_set cid e (channel_appdata w)))"
    using t(1) by (simp add: put_channel_def)
  have "one_per_peer (channel_appdata ?v)"
    using one_per_peer_subset [OF one_per_peer_replace [OF one dist che e(1,2) r(2)]] set_v by blast
  moreover have "entries_wf MAX_CHANNELS_APPDATA established_wf (channel_appdata ?v)"
    by (rule entries_wf_subset [OF ent']) (use set_v t(4,6) in \<open>auto simp: put_channel_def tables_ok_def\<close>)
  moreover have "entries_wf MAX_CHANNELS_OPENING open_wf (channel_opening ?v)"
    by (rule entries_wf_subset [where m = "channel_opening w"]) (use wf opening_v t(5,6) in \<open>auto simp: context_wf_def tables_ok_def\<close>)
  ultimately have v: "context_wf ble ?v"
    using wf t(6,7) by (simp add: context_wf_def tables_ok_def)
  then have "context_wf ble ?u" using context_wf_aux [OF v aux_wf_delete(1) [OF context_wf_distinct(5) [OF v]]] by simp
  moreover have "map_of (channel_appdata ?u) =
      (\<lambda>c. if r = Some c then None else ((map_of (channel_appdata w))(cid \<mapsto> e)) c)"
    using t(3) che by (cases r) (auto simp: put_channel_def map_of_lm_set fun_eq_iff)
  moreover have "set (channel_opening ?u) = set (channel_opening w)" using opening_v by simp
  ultimately show thesis using that [OF run _ _ _ r(2)] unfolding e_def by blast
qed

lemma channel_paired_safe:
  assumes "context_wf ble w"
  shows "safely (context_wf ble) (channel_paired R w cid)"
proof (cases "map_of (channel_appdata w) cid")
  case (Some che)
  obtain key where key: "host_key che = Some key" using lookup_wf(3) [OF assms Some] by (auto simp: host_key_def)
  show ?thesis
  proof (cases "is_encrypted_transport (che_channel che)")
    case False
    show ?thesis by (rule channel_paired_replaces [OF assms Some False key]) (simp add: safely_def)
  qed (use assms Some in \<open>simp add: channel_paired_def lookup_channel_def\<close>)
qed (use assms in \<open>simp add: channel_paired_def lookup_channel_def\<close>)

end

end
