(* ===== verification/Thp_Firmware.thy ===== *)
theory Thp_Firmware
  imports Thp_Context_Ops
begin

text \<open>
  Runs of the firmware's context: its operations in any order, and the properties of the
  context as a whole.
\<close>

section \<open>Sequences of operations\<close>

text \<open>
  Everything the event loop can do with the context, with the time and the callback of the
  call; \<open>CtxLock\<close> takes or releases the lock of the auxiliary data.
\<close>

datatype context_op =
    CtxAddInterface u8 bytes
  | CtxPacketIn instant verify_fn u8 bytes
  | CtxPacketInChannel instant u16 bytes bytes
  | CtxPacketOut u8 bytes
  | CtxPacketOutChannel u16 bytes bytes
  | CtxMessageOut u16 bytes
  | CtxMessageIn instant u16 nat bytes
  | CtxRetransmit u16
  | CtxInfo instant u16
  | CtxPaired u16
  | CtxClose u16
  | CtxCloseAll "u16 option"
  | CtxWasClosed
  | CtxUpdateLastUsage u16
  | CtxTransportBusy u16
  | CtxDeviceLocked u8
  | CtxStaticKey instant "u16 \<Rightarrow> bytes" u8 bytes
  | CtxLock bool

fun context_exec ::
  "('c, 'h) backend \<Rightarrow> removal_order \<Rightarrow> bool \<Rightarrow> ('c, 'h) thp_context \<Rightarrow> context_op \<Rightarrow> ('c, 'h) thp_context option" where
  "context_exec B R ble w (CtxAddInterface i props) = settle (add_interface ble w i props)"
| "context_exec B R ble w (CtxPacketIn clock f i packet) = settle (packet_in B R clock f w i packet)"
| "context_exec B R ble w (CtxPacketInChannel clock cid packet buf) =
     map_option fst (settle (packet_in_channel R clock w cid packet buf))"
| "context_exec B R ble w (CtxPacketOut i packet) = map_option fst (settle (packet_out R w i packet))"
| "context_exec B R ble w (CtxPacketOutChannel cid buf packet) =
     map_option fst (settle (packet_out_channel R w cid buf packet))"
| "context_exec B R ble w (CtxMessageOut cid buf) = map_option fst (settle (message_out B w cid buf))"
| "context_exec B R ble w (CtxMessageIn clock cid n buf) = map_option fst (settle (message_in B clock w cid n buf))"
| "context_exec B R ble w (CtxRetransmit cid) = settle (message_retransmit R w cid)"
| "context_exec B R ble w (CtxInfo clock cid) =
     settle (and_then (channel_info clock w cid) (\<lambda>_. and_then (handshake_hash w cid) (\<lambda>_. remote_static_pubkey w cid)), w)"
| "context_exec B R ble w (CtxPaired cid) = settle (channel_paired R w cid)"
| "context_exec B R ble w (CtxClose cid) = Some (channel_close R cid w)"
| "context_exec B R ble w (CtxCloseAll exclude) = Some (channel_close_all exclude w)"
| "context_exec B R ble w CtxWasClosed = Some (snd (channel_was_closed w))"
| "context_exec B R ble w (CtxUpdateLastUsage cid) = Some (channel_update_last_usage cid w)"
| "context_exec B R ble w (CtxTransportBusy cid) = settle (context_transport_busy w cid)"
| "context_exec B R ble w (CtxDeviceLocked i) = settle (context_device_locked w i)"
| "context_exec B R ble w (CtxStaticKey clock ephemeral i key) = settle (handshake_static_key B R clock ephemeral w i key)"
| "context_exec B R ble w (CtxLock b) = Some (w\<lparr>thp_aux_locked := b\<rparr>)"

fun context_exec_all ::
  "('c, 'h) backend \<Rightarrow> removal_order \<Rightarrow> bool \<Rightarrow> ('c, 'h) thp_context \<Rightarrow> context_op list \<Rightarrow> ('c, 'h) thp_context option" where
  "context_exec_all B R ble w [] = Some w"
| "context_exec_all B R ble w (x # xs) =
     (case context_exec B R ble w x of None \<Rightarrow> None | Some w \<Rightarrow> context_exec_all B R ble w xs)"

lemma channel_info_safe:
  assumes "context_wf ble w"
  shows "safely (context_wf ble)
    (and_then (channel_info clock w cid) (\<lambda>_. and_then (handshake_hash w cid) (\<lambda>_. remote_static_pubkey w cid)), w)"
proof (cases "map_of (channel_appdata w) cid")
  case (Some che)
  then show ?thesis
    using assms lookup_wf(3) [OF assms Some]
    by (auto simp: channel_info_def handshake_hash_def remote_static_pubkey_def lookup_channel_def
        channel_handshake_hash_def channel_remote_static_pubkey_def)
qed (use assms in \<open>simp add: channel_info_def lookup_channel_def\<close>)

context linear_map
begin

lemma context_exec_wf:
  assumes wf: "context_wf ble w" and B: "backend_ok B"
  shows "\<exists>w'. context_exec B R ble w x = Some w' \<and> context_wf ble w'"
proof (cases x)
  case (CtxAddInterface i props)
  then show ?thesis using settle_safely [OF add_interface_safe [OF wf]] by simp
next
  case (CtxPacketIn clock f i packet)
  then show ?thesis using settle_safely [OF context_packet_in_safe [OF wf B]] by simp
next
  case (CtxPacketInChannel clock cid packet buf)
  then show ?thesis using settle_safely [OF packet_in_channel_safe [OF wf, of clock cid packet buf]] by auto
next
  case (CtxPacketOut i packet)
  then show ?thesis using settle_safely [OF context_packet_out_safe [OF wf, of i packet]] by auto
next
  case (CtxPacketOutChannel cid buf packet)
  then show ?thesis using settle_safely [OF packet_out_channel_safe [OF wf, of cid buf packet]] by auto
next
  case (CtxMessageOut cid buf)
  then show ?thesis using settle_safely [OF context_message_out_safe [OF wf B, of cid buf]] by auto
next
  case (CtxMessageIn clock cid n buf)
  then show ?thesis using settle_safely [OF context_message_in_safe [OF wf B, of clock cid n buf]] by auto
next
  case (CtxRetransmit cid)
  then show ?thesis using settle_safely [OF message_retransmit_safe [OF wf]] by simp
next
  case (CtxInfo clock cid)
  then show ?thesis using settle_safely [OF channel_info_safe [OF wf]] by simp
next
  case (CtxPaired cid)
  then show ?thesis using settle_safely [OF channel_paired_safe [OF wf]] by simp
next
  case (CtxTransportBusy cid)
  then show ?thesis using settle_safely [OF context_transport_busy_safe [OF wf]] by simp
next
  case (CtxDeviceLocked i)
  then show ?thesis using settle_safely [OF context_device_locked_safe [OF wf]] by simp
next
  case (CtxStaticKey clock e i key)
  then show ?thesis using settle_safely [OF handshake_static_key_safe [OF wf B]] by simp
next
  case (CtxLock b)
  then show ?thesis using wf by (simp add: context_wf_def)
qed (use wf in \<open>simp_all add: channel_close_wf channel_close_all_wf channel_was_closed_def channel_update_last_usage_wf\<close>)

lemma context_exec_all_wf:
  "context_wf ble w \<Longrightarrow> backend_ok B \<Longrightarrow> \<exists>w'. context_exec_all B R ble w xs = Some w' \<and> context_wf ble w'"
proof (induction xs arbitrary: w)
  case (Cons x xs)
  then obtain w1 where "context_exec B R ble w x = Some w1" "context_wf ble w1" using context_exec_wf by blast
  then show ?case using Cons by simp
qed simp

end

section \<open>Properties\<close>



text \<open>
  C11. When a channel finishes pairing, it enters the encrypted transport phase and replaces
  the channel of the same interface and host key that was in this phase, if there is one: that
  one is closed and its id is returned, and nothing is returned only if there is none. All
  other channels stay as they are, and afterwards the channel is the only one for its host.
\<close>

theorem pairing_replaces_channel:
  assumes "linear_map R" "context_wf ble w" "\<not> thp_aux_locked w"
    and "map_of (channel_appdata w) cid = Some che" "\<not> is_encrypted_transport (che_channel che)" "host_key che = Some key"
  shows "\<exists>old w'. channel_paired R w cid = (Ok old, w') \<and> channel_is_open cid w'
    \<and> map_of (channel_appdata w') = (\<lambda>c. if old = Some c then None
        else ((map_of (channel_appdata w))(cid \<mapsto> che\<lparr>che_channel := end_pairing (che_channel che)\<rparr>)) c)
    \<and> set (channel_opening w') = set (channel_opening w)
    \<and> replacement (che_iface_num che) cid key (channel_appdata w) old
    \<and> replacement (che_iface_num che) cid key (channel_appdata w') None"
proof (rule linear_map.channel_paired_replaces [OF assms(1,2,4-6)])
  fix old w'
  assume p: "channel_paired R w cid = (if thp_aux_locked w then Err CannotUnlock else Ok old, w')" "context_wf ble w'"
    "map_of (channel_appdata w') = (\<lambda>c. if old = Some c then None
      else ((map_of (channel_appdata w))(cid \<mapsto> che\<lparr>che_channel := end_pairing (che_channel che)\<rparr>)) c)"
    "set (channel_opening w') = set (channel_opening w)" "replacement (che_iface_num che) cid key (channel_appdata w) old"
  let ?e = "che\<lparr>che_channel := end_pairing (che_channel che)\<rparr>"
  have "old \<noteq> Some cid" using p(5) by (auto simp: replacement_def)
  then have cid: "map_of (channel_appdata w') cid = Some ?e" using p(3) by simp
  then have "(cid, ?e) \<in> set (channel_appdata w')" by (rule map_of_SomeD)
  moreover have "host_key ?e = Some key" "is_encrypted_transport (che_channel ?e)" "che_iface_num ?e = che_iface_num che"
    using assms(6) by (simp_all add: host_key_def end_pairing_def is_encrypted_transport_def)
  ultimately have "c = cid" if "(c, f) \<in> set (channel_appdata w')" "che_iface_num f = che_iface_num che"
      "is_encrypted_transport (che_channel f)" "host_key f = Some key" for c f
    using p(2) that unfolding context_wf_def one_per_peer_def same_peer_def by fastforce
  then have "replacement (che_iface_num che) cid key (channel_appdata w') None" by (auto simp: replacement_def)
  then show ?thesis
    using p assms(3) cid by (simp add: channel_is_open_def is_encrypted_transport_def end_pairing_def)
qed

text \<open>Two channels of one host: the first one established, the second one being paired.\<close>

definition demo_entry :: "u16 \<Rightarrow> phase \<Rightarrow> u32 \<Rightarrow> nat channel channel_entry" where
  "demo_entry cid ph usage = \<lparr>che_channel = demo_channel\<lparr>channel_id := cid, channel_phase := ph\<rparr>, che_iface_num = 1,
     che_timing = update_last_usage usage (channel_timing_new (Instant 0))\<rparr>"

definition demo_context :: "(nat, nat) thp_context" where
  "demo_context = (context_new (id_allocator_new_from 7))\<lparr>ifaces := [(1, demo_device_mux)],
     channel_appdata := [(0x10, demo_entry 0x10 EncryptedTransport 1), (0x20, demo_entry 0x20 (PairingCredential Paired) 2)]\<rparr>"

lemma demo_entry_wf: "unicast_valid cid \<Longrightarrow> established_wf cid (che_channel (demo_entry cid ph n)) \<and> timing_wf (che_timing (demo_entry cid ph n))"
  by (simp add: demo_entry_def established_wf_def demo_channel_def channel_wf_def channel_new_def)

lemma demo_entry_same_peer: "same_peer (demo_entry c ph n) (demo_entry c' ph' n') \<longleftrightarrow> ph = EncryptedTransport \<and> ph' = EncryptedTransport"
  by (auto simp: same_peer_def demo_entry_def is_encrypted_transport_def host_key_def)

lemma demo_context_wf: "context_wf True demo_context"
proof -
  have "unicast_valid 0x10" "unicast_valid 0x20" by (simp_all add: unicast_valid_def channel_id_valid_def header_consts)
  then have "entries_wf MAX_CHANNELS_APPDATA established_wf (channel_appdata demo_context)"
    by (simp add: entries_wf_def demo_context_def demo_entry_wf MAX_CHANNELS_APPDATA_def)
  moreover have "one_per_peer (channel_appdata demo_context)"
    by (simp add: one_per_peer_def demo_context_def demo_entry_same_peer)
  ultimately show ?thesis
    using demo_device_mux_wf
    by (simp add: context_wf_def) (simp add: demo_context_def context_new_def aux_new_def aux_wf_def entries_wf_def MAX_INTERFACES_def)
qed

theorem pairing_replaces_channel_witness:
  "\<exists>old w'. channel_paired swap_order demo_context 0x20 = (Ok old, w') \<and> channel_is_open 0x20 w'
     \<and> replacement 1 0x20 (nc_remote_static_pubkey demo_ciphers) (channel_appdata w') None"
proof -
  let ?e = "demo_entry 0x20 (PairingCredential Paired) 2"
  have e: "\<not> thp_aux_locked demo_context" "map_of (channel_appdata demo_context) 0x20 = Some ?e"
    by (simp_all add: demo_context_def context_new_def)
  have f: "\<not> is_encrypted_transport (che_channel ?e)" "host_key ?e = Some (nc_remote_static_pubkey demo_ciphers)" "che_iface_num ?e = 1"
    by (simp_all add: demo_entry_def is_encrypted_transport_def host_key_def demo_channel_def)
  show ?thesis
    using pairing_replaces_channel [OF swap.linear_map_axioms demo_context_wf e f(1,2)] unfolding f(3) by blast
qed

section \<open>Timeouts\<close>





section \<open>Eviction\<close>

context linear_map
begin

lemma packet_in_alloc_run:
  fixes w :: "('c, 'h) thp_context"
  assumes wf: "context_wf ble w" and mux: "map_of (ifaces w) i = Some mux" "dm_new_channel mux = Some nonce"
  obtains cid d counter m evicted where "unicast_valid cid" "map_of (channel_opening w) cid = None" "map_of (channel_appdata w) cid = None"
    "lru_needs_closing MAX_CHANNELS_OPENING (channel_opening w) = Ok evicted"
    "packet_in_alloc B R clock w i =
       (let v = channel_close_opt R evicted (put_mux i m (w\<lparr>channel_id_counter := counter\<rparr>)); n = last_usage_counter w + 1;
            che = \<lparr>che_channel = d, che_iface_num = i, che_timing = update_last_usage n (channel_timing_new (context_now clock v))\<rparr>
        in (Ok (), v\<lparr>last_usage_counter := n, channel_opening := channel_opening v @ [(cid, che)]\<rparr>))"
proof -
  obtain cid counter where id: "get_channel_id w = Some (cid, counter)" "unicast_valid cid"
    "map_of (channel_opening w) cid = None" "map_of (channel_appdata w) cid = None"
    by (rule get_channel_id_returns [OF context_wf_distinct(3,4) [OF wf]]) blast
  obtain d where d: "device_channel_alloc B mux cid no_verify = (Ok d, mux\<lparr>dm_new_channel := None\<rparr>)"
    by (rule device_channel_alloc_Ok [OF mux_lookup_wf [OF wf mux(1)] mux(2) id(2)])
  let ?v = "put_mux i (mux\<lparr>dm_new_channel := None\<rparr>) (w\<lparr>channel_id_counter := counter\<rparr>)"
  have v: "context_wf ble ?v" "channel_opening ?v = channel_opening w" "channel_appdata ?v = channel_appdata w"
    "last_usage_counter ?v = last_usage_counter w"
    using mux_lookup_wf [OF wf mux(1)] put_mux_wf [of ble "w\<lparr>channel_id_counter := counter\<rparr>"] wf
    by (simp_all add: put_mux_def device_mux_wf_def)
  obtain lru where lru: "lru_needs_closing MAX_CHANNELS_OPENING (channel_opening ?v) = Ok lru"
    "length (channel_opening (channel_close_opt R lru ?v)) < MAX_CHANNELS_OPENING"
    by (rule make_room [OF v(1)])
  have "map_of (channel_opening (channel_close_opt R lru ?v)) cid = None"
    using channel_close_opt_absent(1) [OF v(1)] id(3) v(2) by simp
  moreover have "last_usage_counter (channel_close_opt R lru ?v) = last_usage_counter w"
    using channel_close_tables(5) [OF context_wf_tables [OF v(1)]] v(4) by (simp add: channel_close_opt_def split: option.split)
  ultimately show thesis
    using that [of cid lru "mux\<lparr>dm_new_channel := None\<rparr>" counter d] id d mux(1) lru v(2)
    by (simp add: packet_in_alloc_def Let_def last_usage_next_def insert_channel_Ok)
qed

end

text \<open>
  C18. A requested channel is always opened, under a new valid id: while there are fewer than
  four handshakes nothing else changes, and otherwise exactly one handshake is given up, one
  that has not been used for longest by the clock of usages. Established channels stay.
\<close>

theorem allocation_evicts_oldest:
  assumes "linear_map R" "context_wf ble w" "map_of (ifaces w) i = Some mux" "dm_new_channel mux = Some nonce"
  shows "\<exists>cid che evicted w'. packet_in_alloc B R clock w i = (Ok (), w')
    \<and> unicast_valid cid \<and> map_of (channel_opening w) cid = None \<and> map_of (channel_appdata w) cid = None
    \<and> che_iface_num che = i \<and> last_usage (che_timing che) = last_usage_counter w + 1
    \<and> set (channel_opening w') = insert (cid, che) {x \<in> set (channel_opening w). evicted \<noteq> Some (fst x)}
    \<and> set (channel_appdata w') = set (channel_appdata w)
    \<and> (case evicted of
         None \<Rightarrow> length (channel_opening w) < MAX_CHANNELS_OPENING
       | Some c \<Rightarrow> length (channel_opening w) = MAX_CHANNELS_OPENING
           \<and> (\<exists>e. (c, e) \<in> set (channel_opening w)
                \<and> (\<forall>(_, e') \<in> set (channel_opening w). last_usage (che_timing e) \<le> last_usage (che_timing e'))))"
proof (rule linear_map.packet_in_alloc_run [OF assms, of B clock])
  fix cid d counter m evicted
  assume id: "unicast_valid cid" "map_of (channel_opening w) cid = None" "map_of (channel_appdata w) cid = None"
    and lru: "lru_needs_closing MAX_CHANNELS_OPENING (channel_opening w) = Ok evicted"
    and run: "packet_in_alloc B R clock w i =
       (let v = channel_close_opt R evicted (put_mux i m (w\<lparr>channel_id_counter := counter\<rparr>)); n = last_usage_counter w + 1;
            che = \<lparr>che_channel = d, che_iface_num = i, che_timing = update_last_usage n (channel_timing_new (context_now clock v))\<rparr>
        in (Ok (), v\<lparr>last_usage_counter := n, channel_opening := channel_opening v @ [(cid, che)]\<rparr>))"
  let ?v = "put_mux i m (w\<lparr>channel_id_counter := counter\<rparr>)"
  let ?n = "last_usage_counter w + 1"
  let ?u = "channel_close_opt R evicted ?v"
  let ?che = "\<lparr>che_channel = d, che_iface_num = i, che_timing = update_last_usage ?n (channel_timing_new (context_now clock ?u))\<rparr>"
  have v: "channel_opening ?v = channel_opening w" "channel_appdata ?v = channel_appdata w" "tables_ok ?v"
    using context_wf_tables [OF assms(2)] by (simp_all add: put_mux_def tables_ok_def)
  note t = linear_map.channel_close_opt_tables(1,2) [OF assms(1) v(3), of evicted]
  have cap: "length (channel_opening w) \<le> MAX_CHANNELS_OPENING" "0 < MAX_CHANNELS_OPENING"
    using context_wf_distinct [OF assms(2)] by (simp_all add: MAX_CHANNELS_OPENING_def)
  have case_evicted: "case evicted of None \<Rightarrow> length (channel_opening w) < MAX_CHANNELS_OPENING
       | Some c \<Rightarrow> length (channel_opening w) = MAX_CHANNELS_OPENING \<and> (\<exists>e. (c, e) \<in> set (channel_opening w)
                \<and> (\<forall>(_, e') \<in> set (channel_opening w). last_usage (che_timing e) \<le> last_usage (che_timing e')))"
    using cap
  proof (cases rule: lru_needs_closing_full)
    case room
    then show ?thesis using lru by simp
  next
    case (full c e)
    then show ?thesis using lru by auto
  qed
  have "evicted \<noteq> Some (fst x)" if "x \<in> set (channel_appdata w)" for x
  proof (cases evicted)
    case (Some c)
    then obtain e where "(c, e) \<in> set (channel_opening w)" using case_evicted by auto
    then show ?thesis using Some that assms(2) unfolding context_wf_def by force
  qed simp
  then have "set (channel_appdata ?u) = set (channel_appdata w)" using t(1) v(2) by auto
  then show ?thesis
    using id run t(2) v(1) case_evicted
    by (intro exI [of _ cid] exI [of _ ?che] exI [of _ evicted]) (simp add: Let_def update_last_usage_def)
qed

theorem allocation_evicts_oldest_witness:
  "\<exists>cid che w'. packet_in_alloc plain_backend swap_order (Instant 9) demo_context 1 = (Ok (), w')
     \<and> (cid, che) \<in> set (channel_opening w') \<and> che_iface_num che = 1"
proof -
  have "map_of (ifaces demo_context) 1 = Some demo_device_mux" "dm_new_channel demo_device_mux = Some (Nonce [1, 2, 3, 4, 5, 6, 7, 8])"
    by (simp_all add: demo_context_def context_new_def demo_device_mux_def)
  from allocation_evicts_oldest [OF swap.linear_map_axioms demo_context_wf this, of plain_backend "Instant 9"] show ?thesis
    by blast
qed

section \<open>Interfaces are separate\<close>

definition foreign_kept :: "u8 \<Rightarrow> ('c, 'h) thp_context \<Rightarrow> ('c, 'h) thp_context \<Rightarrow> bool" where
  "foreign_kept i w w' \<longleftrightarrow>
     {x \<in> set (channel_opening w'). che_iface_num (snd x) \<noteq> i} \<subseteq> set (channel_opening w)
     \<and> {x \<in> set (channel_appdata w'). che_iface_num (snd x) \<noteq> i} \<subseteq> set (channel_appdata w)
     \<and> (\<forall>j. j \<noteq> i \<longrightarrow> map_of (ifaces w') j = map_of (ifaces w) j)"

lemma foreign_kept_refl [simp]: "foreign_kept i w w"
  by (auto simp: foreign_kept_def)

lemma foreign_kept_trans: "foreign_kept i a b \<Longrightarrow> foreign_kept i b c \<Longrightarrow> foreign_kept i a c"
  by (auto simp: foreign_kept_def)

lemma foreign_kept_frame [simp]:
  "foreign_kept i a (w\<lparr>thp_aux := x\<rparr>) = foreign_kept i a w" "foreign_kept i a (w\<lparr>last_usage_counter := n\<rparr>) = foreign_kept i a w"
  "foreign_kept i a (w\<lparr>channel_id_counter := c\<rparr>) = foreign_kept i a w"
  by (simp_all add: foreign_kept_def)

lemma foreign_kept_put_mux [simp]: "foreign_kept i a (put_mux i m w) = foreign_kept i a w"
  by (auto simp: foreign_kept_def put_mux_def map_of_lm_set)

lemma foreign_kept_put_opening:
  "foreign_kept i a w \<Longrightarrow> context_wf ble w \<Longrightarrow> che_iface_num che = i \<Longrightarrow> foreign_kept i a (put_opening cid che w)"
  by (auto simp: foreign_kept_def put_opening_def dest!: lm_set_mem [OF _ context_wf_distinct(1)])

context linear_map
begin

lemma foreign_kept_close: "foreign_kept i a w \<Longrightarrow> tables_ok w \<Longrightarrow> foreign_kept i a (channel_close_opt R c w)"
  using channel_close_opt_tables(1,2,7) [of w c] by (auto simp: foreign_kept_def)

lemma packet_in_alloc_foreign:
  fixes w :: "('c, 'h) thp_context"
  assumes wf: "context_wf ble w"
  shows "foreign_kept i w (snd (packet_in_alloc B R clock w i))"
proof (cases "\<exists>mux nonce. map_of (ifaces w) i = Some mux \<and> dm_new_channel mux = Some nonce")
  case True
  then obtain mux nonce where mux: "map_of (ifaces w) i = Some mux" "dm_new_channel mux = Some nonce" by blast
  show ?thesis
  proof (rule packet_in_alloc_run [OF wf mux, of B clock])
    fix cid d counter m evicted
    assume run: "packet_in_alloc B R clock w i =
       (let v = channel_close_opt R evicted (put_mux i m (w\<lparr>channel_id_counter := counter\<rparr>)); n = last_usage_counter w + 1;
            che = \<lparr>che_channel = d, che_iface_num = i, che_timing = update_last_usage n (channel_timing_new (context_now clock v))\<rparr>
        in (Ok (), v\<lparr>last_usage_counter := n, channel_opening := channel_opening v @ [(cid, che)]\<rparr>))"
    have "foreign_kept i w (channel_close_opt R evicted (put_mux i m (w\<lparr>channel_id_counter := counter\<rparr>)))"
      by (rule foreign_kept_close) (use context_wf_tables [OF wf] in \<open>simp_all add: tables_ok_def put_mux_def [of _ _ "w\<lparr>channel_id_counter := counter\<rparr>"]
        foreign_kept_def map_of_lm_set\<close>)
    then show ?thesis unfolding run Let_def by (auto simp: foreign_kept_def)
  qed
next
  case False
  obtain cid counter where id: "get_channel_id w = Some (cid, counter)"
    by (rule get_channel_id_returns [OF context_wf_distinct(3,4) [OF wf]])
  show ?thesis
  proof (cases "map_of (ifaces w) i")
    case (Some mux)
    then have "dm_new_channel mux = None" using False by auto
    then show ?thesis using Some id by (simp add: packet_in_alloc_def device_channel_alloc_def)
  qed (use id in \<open>simp add: packet_in_alloc_def\<close>)
qed

lemma handshake_finish_foreign:
  fixes w :: "('c, 'h) thp_context"
  assumes wf: "context_wf ble w" and che: "map_of (channel_opening w) cid = Some che" "che_iface_num che = i"
  shows "foreign_kept i w (snd (handshake_finish R w cid))"
proof -
  let ?w = "w\<lparr>channel_opening := snd (lm_remove R cid (channel_opening w))\<rparr>"
  let ?v = "?w\<lparr>last_usage_counter := last_usage_counter w + 1\<rparr>"
  have kept: "foreign_kept i w ?w" using context_wf_distinct(1) [OF wf] by (auto simp: foreign_kept_def lm_remove_set)
  have v: "context_wf ble ?v" using remove_opening_wf [OF wf] by simp
  show ?thesis
  proof (cases "device_complete (che_channel che)")
    case (Ok ch)
    obtain lru where lru: "lru_needs_closing MAX_CHANNELS_APPDATA (channel_appdata ?v) = Ok lru"
      "length (channel_appdata (channel_close_opt R lru ?v)) < MAX_CHANNELS_APPDATA"
      by (rule make_room_appdata [OF v])
    have "map_of (channel_appdata (channel_close_opt R lru ?v)) cid = None"
      by (rule channel_close_opt_absent(2) [OF v]) (use opening_lookup_wf(4) [OF wf che(1)] in simp)
    moreover have "foreign_kept i w (channel_close_opt R lru ?v)"
      by (rule foreign_kept_close [OF _ context_wf_tables [OF v]]) (use kept in simp)
    ultimately show ?thesis
      using Ok che lru context_wf_distinct(1) [OF wf]
      by (auto simp: handshake_finish_def case_prod_unfold Let_def last_usage_next_def insert_channel_Ok foreign_kept_def)
  qed (use che kept context_wf_distinct(1) [OF wf] in \<open>simp_all add: handshake_finish_def case_prod_unfold Let_def\<close>)
qed

lemma handshake_result_foreign:
  fixes w :: "('c, 'h) thp_context"
  assumes wf: "context_wf ble w" and che: "map_of (channel_opening w) cid = Some che" "che_iface_num che = i"
  shows "foreign_kept i w (snd (handshake_result R w cid d pir))"
  using handshake_finish_foreign [OF assms] foreign_kept_close [OF foreign_kept_refl context_wf_tables [OF wf], of i "Some cid"]
  by (cases pir) (auto simp: handshake_result_def Let_def channel_close_opt_def intro: and_then_st_state [where P = "foreign_kept i w"])

lemma packet_in_handshake_foreign:
  fixes w :: "('c, 'h) thp_context"
  assumes wf: "context_wf ble w" and B: "backend_ok B" and che: "map_of (channel_opening w) cid = Some che" "che_iface_num che = i"
  shows "foreign_kept i w (snd (packet_in_handshake B R clock f w cid packet))"
  using wf B che(1)
proof (cases rule: packet_in_handshake_cases [where clock = clock and f = f and packet = packet])
  case (result aux che' d pir)
  have "foreign_kept i w (put_opening cid che' (w\<lparr>thp_aux := aux\<rparr>))"
    by (rule foreign_kept_put_opening [OF _ context_wf_aux [OF wf result(5)]]) (use result(3) che(2) in simp_all)
  then show ?thesis
    unfolding result(1)
    by (rule foreign_kept_trans) (rule handshake_result_foreign [OF result(2,4)], use result(3) che(2) in simp)
qed simp_all

lemma context_packet_in_foreign:
  fixes w :: "('c, 'h) thp_context"
  assumes wf: "context_wf ble w" and B: "backend_ok B"
  shows "foreign_kept i w (snd (packet_in B R clock f w i packet))"
proof (cases "map_of (ifaces w) i")
  case (Some mux)
  obtain pir m where step: "device_mux_packet_in mux packet = (pir, m)" by fastforce
  have m: "device_mux_wf m" using mux_no_panic(1) [OF mux_lookup_wf [OF wf Some], of packet] step by auto
  let ?w = "put_mux i m w"
  note put = put_mux_wf [OF wf m, of i]
  have un: "foreign_kept i w (snd (packet_unallocated ?w i m cid packet))" for cid
    by (auto simp: packet_unallocated_def case_prod_unfold Let_def intro!: and_then_st_state [where P = "foreign_kept i w"])
  have kept: "foreign_kept i w x" if "foreign_kept i ?w x" for x
    using that foreign_kept_trans [of i w ?w x] by simp
  show ?thesis
  proof (cases pir)
    case (Ok p)
    then show ?thesis
      using Some step un kept [OF packet_in_handshake_foreign [OF put B]] kept [OF packet_in_alloc_foreign [OF put]]
      by (cases p) (auto simp: packet_in_def intro!: and_then_st_state [where P = "foreign_kept i w"] split: option.split)
  qed (use Some step in \<open>simp_all add: packet_in_def\<close>)
qed (simp add: packet_in_def)

end



end
