(* ===== verification/Proto_Io.thy ===== *)
theory Proto_Io
  imports Thp_Prelude
begin

text \<open>
  The byte streams of the message codec: \<open>InputStream\<close> of \<open>core/embed/rust/src/io.rs\<close>, the trait
  \<open>OutputStream\<close> with its two implementations in \<open>protobuf/encode.rs\<close>, the variable-length
  integers that both read and write, and the zigzag encoding of signed integers in
  \<open>protobuf/zigzag.rs\<close>.

  The firmware runs on a 32-bit processor, so that \<open>usize\<close> has 32 bits. Positions are natural
  numbers; the one sum that can leave the range, in \<open>read\<close>, has the check of debug builds
  written out: \<open>checks\<close> says whether overflow checks are compiled in. Without them the sum wraps
  around to a value below the position, and the range is invalid, which is an error.
\<close>

type_synonym u64 = "64 word"

definition USIZE_MAX :: nat where "USIZE_MAX = 2 ^ 32 - 1"

section \<open>Errors\<close>

datatype io_error = IoEOFError | IoOutOfRange

text \<open>The variants of \<open>micropython::Error\<close> that the codec returns.\<close>

datatype py_error =
    TypeError
  | OutOfRange
  | EOFError
  | KeyError u16
  | AttributeError u16
  | ValueError string
  | ValueErrorParam string u16
  | Exception

fun from_io_error :: "io_error \<Rightarrow> py_error" where
  "from_io_error IoEOFError = EOFError"
| "from_io_error IoOutOfRange = OutOfRange"

definition io :: "('a, io_error) result \<times> 's \<Rightarrow> ('a, py_error) result \<times> 's" where
  "io m = ((case fst m of Ok x \<Rightarrow> Ok x | Err e \<Rightarrow> Err (from_io_error e) | Panic \<Rightarrow> Panic), snd m)"

text \<open>\<open>usize::try_from\<close> of a \<open>u64\<close>.\<close>

definition to_usize :: "u64 \<Rightarrow> (nat, py_error) result" where
  "to_usize n = (if unat n \<le> USIZE_MAX then Ok (unat n) else Err OutOfRange)"

section \<open>Input\<close>

record input_stream =
  is_buf :: bytes
  is_pos :: nat

definition input_stream_new :: "bytes \<Rightarrow> input_stream" where
  "input_stream_new buf = \<lparr>is_buf = buf, is_pos = 0\<rparr>"

definition remaining :: "input_stream \<Rightarrow> nat" where
  "remaining s = length (is_buf s) - is_pos s"

definition tell :: "input_stream \<Rightarrow> nat" where
  "tell s = is_pos s"

definition stream_read :: "bool \<Rightarrow> nat \<Rightarrow> input_stream \<Rightarrow> (bytes, io_error) result \<times> input_stream" where
  "stream_read checks len s =
     (if is_pos s + len > USIZE_MAX then (if checks then Panic else Err IoEOFError, s)
      else if is_pos s + len \<le> length (is_buf s)
      then (Ok (take len (drop (is_pos s) (is_buf s))), s\<lparr>is_pos := is_pos s + len\<rparr>)
      else (Err IoEOFError, s))"

definition read_stream :: "bool \<Rightarrow> nat \<Rightarrow> input_stream \<Rightarrow> (input_stream, io_error) result \<times> input_stream" where
  "read_stream checks len s = (let (res, s) = stream_read checks len s in (map_ok input_stream_new res, s))"

definition stream_rest :: "input_stream \<Rightarrow> bytes" where
  "stream_rest s = (if is_pos s > length (is_buf s) then [] else drop (is_pos s) (is_buf s))"

definition read_byte :: "input_stream \<Rightarrow> (u8, io_error) result \<times> input_stream" where
  "read_byte s =
     (if is_pos s < length (is_buf s) then (Ok (is_buf s ! is_pos s), s\<lparr>is_pos := is_pos s + 1\<rparr>)
      else (Err IoEOFError, s))"

fun u16_from_le :: "bytes \<Rightarrow> u16" where
  "u16_from_le [a, b] = ucast a OR push_bit 8 (ucast b)"
| "u16_from_le _ = 0"

fun u32_from_le :: "bytes \<Rightarrow> u32" where
  "u32_from_le [a, b, c, d] =
     ucast a OR push_bit 8 (ucast b) OR push_bit 16 (ucast c) OR push_bit 24 (ucast d)"
| "u32_from_le _ = 0"

definition read_u16_le :: "bool \<Rightarrow> input_stream \<Rightarrow> (u16, io_error) result \<times> input_stream" where
  "read_u16_le checks s = and_then_st (stream_read checks 2 s) (\<lambda>buf s. (Ok (u16_from_le buf), s))"

definition read_u32_le :: "bool \<Rightarrow> input_stream \<Rightarrow> (u32, io_error) result \<times> input_stream" where
  "read_u32_le checks s = and_then_st (stream_read checks 4 s) (\<lambda>buf s. (Ok (u32_from_le buf), s))"

definition leading_zeros :: "u64 \<Rightarrow> nat" where
  "leading_zeros w = length (takeWhile Not (rev (map (bit w) [0..<64])))"

lemma and_then_st_cong [fundef_cong]:
  "m = m' \<Longrightarrow> (\<And>x s. m' = (Ok x, s) \<Longrightarrow> f x s = g x s) \<Longrightarrow> and_then_st m f = and_then_st m' g"
  by (cases m'; cases "fst m'") auto

function read_uvarint_loop :: "u64 \<Rightarrow> nat \<Rightarrow> input_stream \<Rightarrow> (u64, io_error) result \<times> input_stream" where
  "read_uvarint_loop acc shift s =
     and_then_st (read_byte s) (\<lambda>byte s.
     let bits = ucast byte AND 0x7F in
     if shift \<ge> 64 \<or> shift > leading_zeros bits then (Err IoOutOfRange, s)
     else
       let acc = acc + push_bit shift bits; shift = shift + 7 in
       if byte AND 0x80 = 0 then (Ok acc, s) else read_uvarint_loop acc shift s)"
  by pat_completeness auto
termination
  by (relation "measure (\<lambda>(_, _, s). remaining s)")
    (auto simp: read_byte_def remaining_def split: if_splits)

definition read_uvarint :: "input_stream \<Rightarrow> (u64, io_error) result \<times> input_stream" where
  "read_uvarint s = read_uvarint_loop 0 0 s"

declare read_uvarint_loop.simps [simp del]

section \<open>Output\<close>

text \<open>The trait: two methods, and a third one that is derived from them.\<close>

record 's output_stream =
  os_write :: "bytes \<Rightarrow> 's \<Rightarrow> (unit, py_error) result \<times> 's"
  os_write_byte :: "u8 \<Rightarrow> 's \<Rightarrow> (unit, py_error) result \<times> 's"

function write_uvarint :: "'s output_stream \<Rightarrow> u64 \<Rightarrow> 's \<Rightarrow> (unit, py_error) result \<times> 's" where
  "write_uvarint out num s =
     (let shifted = drop_bit 7 num; byte = ucast (num AND 0x7F) in
      if shifted \<noteq> 0
      then and_then_st (os_write_byte out (byte OR 0x80) s) (\<lambda>_ s. write_uvarint out shifted s)
      else os_write_byte out byte s)"
  by pat_completeness auto
termination
proof (relation "measure (\<lambda>(_, num, _). unat num)", goal_cases)
  case (2 out num s shifted byte x t)
  have "unat num \<noteq> 0" using 2(1,3) by (metis drop_bit_of_0 unat_eq_zero)
  then show ?case using 2(1) by (simp add: drop_bit_eq_div unat_div)
qed simp

declare write_uvarint.simps [simp del]

type_synonym counter_stream = nat

definition counter_write :: "bytes \<Rightarrow> counter_stream \<Rightarrow> (unit, py_error) result \<times> counter_stream" where
  "counter_write buf len = (Ok (), len + length buf)"

definition counter_write_byte :: "u8 \<Rightarrow> counter_stream \<Rightarrow> (unit, py_error) result \<times> counter_stream" where
  "counter_write_byte val len = (Ok (), len + 1)"

definition counter_output :: "counter_stream output_stream" where
  "counter_output = \<lparr>os_write = counter_write, os_write_byte = counter_write_byte\<rparr>"

record buffer_stream =
  bs_buf :: bytes
  bs_pos :: nat

definition buffer_stream_new :: "bytes \<Rightarrow> buffer_stream" where
  "buffer_stream_new buf = \<lparr>bs_buf = buf, bs_pos = 0\<rparr>"

definition buffer_write :: "bytes \<Rightarrow> buffer_stream \<Rightarrow> (unit, py_error) result \<times> buffer_stream" where
  "buffer_write val s =
     (let pos = bs_pos s; len = length val in
      if pos + len \<le> length (bs_buf s)
      then (Ok (), s\<lparr>bs_buf := take pos (bs_buf s) @ val @ drop (pos + len) (bs_buf s), bs_pos := pos + len\<rparr>)
      else (Err EOFError, s))"

definition buffer_write_byte :: "u8 \<Rightarrow> buffer_stream \<Rightarrow> (unit, py_error) result \<times> buffer_stream" where
  "buffer_write_byte val s =
     (if bs_pos s < length (bs_buf s)
      then (Ok (), s\<lparr>bs_buf := (bs_buf s)[bs_pos s := val], bs_pos := bs_pos s + 1\<rparr>)
      else (Err EOFError, s))"

definition buffer_output :: "buffer_stream output_stream" where
  "buffer_output = \<lparr>os_write = buffer_write, os_write_byte = buffer_write_byte\<rparr>"

section \<open>Zigzag\<close>

definition zigzag_to_unsigned :: "u64 \<Rightarrow> u64" where
  "zigzag_to_unsigned n = push_bit 1 n XOR signed_drop_bit 63 n"

definition zigzag_to_signed :: "u64 \<Rightarrow> u64" where
  "zigzag_to_signed n = drop_bit 1 n XOR (- (n AND 1))"

section \<open>UTF-8\<close>

text \<open>\<open>core::str::from_utf8\<close>: the well-formed sequences of the Unicode standard.\<close>

definition utf8_cont :: "u8 \<Rightarrow> bool" where
  "utf8_cont b \<longleftrightarrow> 0x80 \<le> b \<and> b \<le> 0xBF"

fun utf8_valid :: "bytes \<Rightarrow> bool" where
  "utf8_valid [] = True"
| "utf8_valid (b # bs) =
     (if b < 0x80 then utf8_valid bs
      else if 0xC2 \<le> b \<and> b \<le> 0xDF then
        (case bs of c # bs \<Rightarrow> utf8_cont c \<and> utf8_valid bs | _ \<Rightarrow> False)
      else if 0xE0 \<le> b \<and> b \<le> 0xEF then
        (case bs of c # d # bs \<Rightarrow>
            utf8_cont c \<and> utf8_cont d \<and> (b = 0xE0 \<longrightarrow> 0xA0 \<le> c) \<and> (b = 0xED \<longrightarrow> c \<le> 0x9F) \<and> utf8_valid bs
         | _ \<Rightarrow> False)
      else if 0xF0 \<le> b \<and> b \<le> 0xF4 then
        (case bs of c # d # e # bs \<Rightarrow>
            utf8_cont c \<and> utf8_cont d \<and> utf8_cont e \<and> (b = 0xF0 \<longrightarrow> 0x90 \<le> c) \<and> (b = 0xF4 \<longrightarrow> c \<le> 0x8F)
            \<and> utf8_valid bs
         | _ \<Rightarrow> False)
      else False)"

end
