(* ===== verification/Proto_Streams.thy ===== *)
theory Proto_Streams
  imports Proto_Io
begin

text \<open>
  Facts about the byte streams: what a read consumes, the variable-length integers against
  their bytes (\<open>uvarint_bytes\<close>) and value (\<open>uvarint_value\<close>), the contract of an output stream as
  the locale \<open>byte_sink\<close> with the counter and the buffer as its interpretations, and the
  arithmetic meaning of the zigzag encoding.
\<close>

section \<open>Reading\<close>

definition advance :: "nat \<Rightarrow> input_stream \<Rightarrow> input_stream" where
  "advance n s = s\<lparr>is_pos := is_pos s + n\<rparr>"

lemma advance_simps [simp]:
  "is_buf (advance n s) = is_buf s" "is_pos (advance n s) = is_pos s + n"
  "advance m (advance n s) = advance (n + m) s" "advance 0 s = s"
  by (simp_all add: advance_def)

lemma stream_rest_eq: "stream_rest s = drop (is_pos s) (is_buf s)"
  by (simp add: stream_rest_def)

lemma stream_rest_advance [simp]: "stream_rest (advance n s) = drop n (stream_rest s)"
  by (simp add: stream_rest_eq add.commute)

lemma stream_rest_new [simp]: "stream_rest (input_stream_new buf) = buf"
  by (simp add: stream_rest_eq input_stream_new_def)

lemma remaining_rest: "remaining s = length (stream_rest s)"
  by (simp add: remaining_def stream_rest_eq)

lemma read_byte_Cons: "stream_rest s = b # bs \<Longrightarrow> read_byte s = (Ok b, advance 1 s)"
  by (auto simp: read_byte_def advance_def stream_rest_eq hd_drop_conv_nth [symmetric]
      dest: arg_cong [where f = length])

lemma read_byte_Nil: "stream_rest s = [] \<Longrightarrow> read_byte s = (Err IoEOFError, s)"
  by (simp add: read_byte_def stream_rest_eq)

text \<open>The position is inside of the buffer, and the buffer fits into the address space.\<close>

definition stream_wf :: "input_stream \<Rightarrow> bool" where
  "stream_wf s \<longleftrightarrow> is_pos s \<le> length (is_buf s) \<and> length (is_buf s) \<le> USIZE_MAX"

lemma stream_wf_new: "stream_wf (input_stream_new buf) \<longleftrightarrow> length buf \<le> USIZE_MAX"
  by (simp add: stream_wf_def input_stream_new_def)

lemma stream_wf_advance: "stream_wf s \<Longrightarrow> n \<le> length (stream_rest s) \<Longrightarrow> stream_wf (advance n s)"
  by (auto simp: stream_wf_def stream_rest_eq)

lemma stream_wf_rest: "stream_wf s \<Longrightarrow> length (stream_rest s) \<le> USIZE_MAX"
  by (auto simp: stream_wf_def stream_rest_eq)

lemma stream_read_take:
  assumes "stream_rest s = bs @ r" "stream_wf s"
  shows "stream_read checks (length bs) s = (Ok bs, advance (length bs) s)"
proof -
  have "is_pos s + length bs \<le> length (is_buf s)"
    using arg_cong [OF assms(1), of length] assms(2) by (auto simp: stream_rest_eq stream_wf_def)
  then show ?thesis
    using assms by (simp add: stream_read_def stream_rest_eq advance_def stream_wf_def)
qed

lemma stream_read_Ok:
  assumes "stream_read checks n s = (Ok bs, s')"
  shows "s' = advance n s" "length bs = n" "stream_rest s = bs @ stream_rest s'"
  using assms by (auto simp: stream_read_def stream_rest_eq advance_def add.commute split: if_splits)
    (metis append_take_drop_id drop_drop)

lemma stream_read_no_panic: "\<not> checks \<Longrightarrow> fst (stream_read checks n s) \<noteq> Panic"
  by (simp add: stream_read_def)

section \<open>Variable-length integers\<close>

lemma leading_zeros_le_iff:
  assumes "n \<le> 64"
  shows "n \<le> leading_zeros w \<longleftrightarrow> unat w * 2 ^ n < 2 ^ 64"
proof -
  let ?bs = "rev (map (bit w) [0..<64])"
  have "n \<le> leading_zeros w \<longleftrightarrow> (\<forall>i<n. \<not> ?bs ! i)"
  proof
    assume le: "n \<le> leading_zeros w"
    show "\<forall>i<n. \<not> ?bs ! i"
    proof safe
      fix i assume "i < n" "?bs ! i"
      then show False
        using le set_takeWhileD [of "takeWhile Not ?bs ! i" Not ?bs] takeWhile_nth [of i Not ?bs]
        by (simp add: leading_zeros_def) (metis less_le_trans nth_mem set_takeWhileD takeWhile_nth)
    qed
  next
    assume "\<forall>i<n. \<not> ?bs ! i"
    then show "n \<le> leading_zeros w"
      unfolding leading_zeros_def using assms by (intro length_takeWhile_less_P_nth) auto
  qed
  also have "\<dots> \<longleftrightarrow> (\<forall>j. 64 - n \<le> j \<longrightarrow> \<not> bit w j)"
  proof
    assume bits: "\<forall>i<n. \<not> ?bs ! i"
    show "\<forall>j. 64 - n \<le> j \<longrightarrow> \<not> bit w j"
    proof safe
      fix j assume j: "64 - n \<le> j" "bit w j"
      then have "j < 64" using bit_imp_le_length by fastforce
      then have "63 - j < n" "?bs ! (63 - j) = bit w j" using j by (auto simp: rev_nth)
      then show False using bits j by blast
    qed
  next
    assume "\<forall>j. 64 - n \<le> j \<longrightarrow> \<not> bit w j"
    then show "\<forall>i<n. \<not> ?bs ! i" using assms by (auto simp: rev_nth)
  qed
  also have "\<dots> \<longleftrightarrow> take_bit (64 - n) w = w"
    by (metis bit_take_bit_iff bit_word_eqI not_le)
  also have "\<dots> \<longleftrightarrow> unat w < 2 ^ (64 - n)"
    by (metis take_bit_nat_eq_self_iff unsigned_take_bit_eq word_unat_eq_iff)
  also have "\<dots> \<longleftrightarrow> unat w * 2 ^ n < 2 ^ (64 - n) * 2 ^ n" by simp
  also have "(2 :: nat) ^ (64 - n) * 2 ^ n = 2 ^ 64" using assms by (simp flip: power_add)
  finally show ?thesis .
qed

text \<open>The groups of seven bits, least significant first, with the continuation bit on all but the last.\<close>

fun uvarint_bytes :: "nat \<Rightarrow> bytes" where
  "uvarint_bytes n = (if n < 128 then [of_nat n] else of_nat (128 + n mod 128) # uvarint_bytes (n div 128))"

declare uvarint_bytes.simps [simp del]

fun uvarint_value :: "bytes \<Rightarrow> nat" where
  "uvarint_value [] = 0"
| "uvarint_value (b # bs) = unat b mod 128 + 128 * uvarint_value bs"

fun uvarint_form :: "bytes \<Rightarrow> bool" where
  "uvarint_form [] = False"
| "uvarint_form (b # bs) = (if unat b < 128 then bs = [] else uvarint_form bs)"

lemma low_bits [simp]: "unat (ucast (b :: u8) AND (0x7F :: u64)) = unat b mod 128"
proof -
  have "ucast b AND (0x7F :: u64) = take_bit 7 (ucast b)"
    by (simp add: take_bit_eq_mask mask_eq_exp_minus_1)
  moreover have "unat (take_bit 7 (ucast b :: u64)) = take_bit 7 (unat b)"
    by (simp add: unsigned_take_bit_eq unsigned_ucast_eq del: take_bit_word_beyond_length_eq)
  ultimately show ?thesis by (simp add: take_bit_eq_mod)
qed

lemma high_bit [simp]: "b AND 0x80 = 0 \<longleftrightarrow> unat (b :: u8) < 128"
proof -
  have "b AND 0x80 = 0 \<longleftrightarrow> \<not> bit b 7"
    using and_exp_eq_0_iff_not_bit [of b 7] by simp
  also have "bit b 7 \<longleftrightarrow> bit (unat b) 7" by (simp add: bit_unsigned_iff)
  also have "bit (unat b) 7 \<longleftrightarrow> odd (unat b div 128)" by (simp add: bit_iff_odd)
  also have "unat b div 128 < 2" using unsigned_less [of b, where ?'a = nat] by simp
  then have "odd (unat b div 128) \<longleftrightarrow> unat b \<ge> 128"
    by (cases "unat b div 128") (auto simp: div_eq_0_iff)
  finally show ?thesis by auto
qed

lemma push_bits_unat: "unat (w :: u64) * 2 ^ n < 2 ^ 64 \<Longrightarrow> unat (push_bit n w) = unat w * 2 ^ n"
  by (simp only: unsigned_push_bit_eq) (simp add: push_bit_eq_mult take_bit_nat_eq_self)

text \<open>Adding a group above the bits that are already there does not overflow.\<close>

lemma add_group:
  assumes "unat (acc :: u64) < 2 ^ shift" "unat g * 2 ^ shift < 2 ^ 64" "shift < 64"
  shows "unat (acc + push_bit shift g) = unat acc + unat g * 2 ^ shift"
proof -
  have "(2 :: nat) ^ 64 = 2 ^ (64 - shift) * 2 ^ shift" using assms(3) by (simp flip: power_add)
  then have "unat g < 2 ^ (64 - shift)" using assms(2) by (simp only: mult_less_cancel2)
  then have "Suc (unat g) * 2 ^ shift \<le> 2 ^ (64 - shift) * 2 ^ shift" by (intro mult_le_mono1) simp
  then have "unat acc + unat g * 2 ^ shift < 2 ^ 64" using assms by (simp flip: power_add)
  then show ?thesis using assms(2) by (simp add: unat_word_ariths push_bits_unat)
qed

lemma read_uvarint_loop_Cons:
  "stream_rest s = b # r \<Longrightarrow> read_uvarint_loop acc shift s =
     (let bits = ucast b AND 0x7F; acc' = acc + push_bit shift bits in
      if 64 \<le> shift \<or> leading_zeros bits < shift then (Err IoOutOfRange, advance 1 s)
      else if unat b < 128 then (Ok acc', advance 1 s)
      else read_uvarint_loop acc' (shift + 7) (advance 1 s))"
  by (subst read_uvarint_loop.simps) (simp add: read_byte_Cons Let_def)

lemma read_uvarint_loop_Nil: "stream_rest s = [] \<Longrightarrow> read_uvarint_loop acc shift s = (Err IoEOFError, s)"
  by (subst read_uvarint_loop.simps) (simp add: read_byte_Nil)

lemma read_uvarint_loop_inv:
  assumes "read_uvarint_loop acc shift s = (Ok v, s')" "unat acc < 2 ^ shift"
  shows "\<exists>bs. stream_rest s = bs @ stream_rest s' \<and> s' = advance (length bs) s \<and> uvarint_form bs
    \<and> unat v = unat acc + uvarint_value bs * 2 ^ shift \<and> shift + 7 * length bs < 71"
  using assms
proof (induction "stream_rest s" arbitrary: acc shift s)
  case Nil
  then show ?case by (simp add: read_uvarint_loop_Nil)
next
  case (Cons b r)
  define g where "g = ucast b AND (0x7F :: u64)"
  define acc' where "acc' = acc + push_bit shift g"
  note loop = read_uvarint_loop_Cons [OF Cons(2) [symmetric], of acc shift, folded g_def, unfolded Let_def, folded acc'_def]
  have g: "shift < 64" "shift \<le> leading_zeros g"
    using Cons(3) by (simp_all add: loop not_le not_less split: if_splits)
  have step: "if unat b < 128 then v = acc' \<and> s' = advance 1 s
      else read_uvarint_loop acc' (shift + 7) (advance 1 s) = (Ok v, s')"
    using Cons(3) g by (simp add: loop split: if_splits)
  have small: "unat g * 2 ^ shift < 2 ^ 64" using g by (simp add: leading_zeros_le_iff)
  have acc: "unat acc' = unat acc + unat b mod 128 * 2 ^ shift"
    using add_group [OF Cons(4) small g(1)] by (simp add: acc'_def g_def del: push_bit_and)
  have "unat b mod 128 * 2 ^ shift \<le> 127 * 2 ^ shift" by (intro mult_le_mono1) simp
  then have "unat acc' < 2 ^ shift * 128" using Cons(4) unfolding acc by linarith
  then have less: "unat acc' < 2 ^ (shift + 7)" by (simp add: power_add)
  have r: "r = stream_rest (advance 1 s)" using Cons(2) by (simp flip: Cons(2))
  show ?case
  proof (cases "unat b < 128")
    case True
    then have s': "v = acc'" "s' = advance 1 s" using step by simp_all
    have "stream_rest s = [b] @ stream_rest s'" by (simp add: s' flip: Cons(2))
    moreover have "s' = advance (length [b]) s \<and> uvarint_form [b] \<and> unat v = unat acc + uvarint_value [b] * 2 ^ shift
        \<and> shift + 7 * length [b] < 71"
      using s' True g acc by simp
    ultimately show ?thesis by blast
  next
    case False
    then have "read_uvarint_loop acc' (shift + 7) (advance 1 s) = (Ok v, s')" using step by simp
    from Cons(1) [OF r this less] obtain bs where
      bs: "stream_rest (advance 1 s) = bs @ stream_rest s'" "s' = advance (length bs) (advance 1 s)"
      "uvarint_form bs" "unat v = unat acc' + uvarint_value bs * 2 ^ (shift + 7)" "shift + 7 + 7 * length bs < 71"
      by blast
    have "stream_rest s = (b # bs) @ stream_rest s'" using bs(1) by (simp flip: Cons(2) r)
    moreover have "s' = advance (length (b # bs)) s \<and> uvarint_form (b # bs)
        \<and> unat v = unat acc + uvarint_value (b # bs) * 2 ^ shift \<and> shift + 7 * length (b # bs) < 71"
      using bs(2-) False acc by (simp add: algebra_simps power_add)
    ultimately show ?thesis by blast
  qed
qed

lemma unat_0_less: "unat (0 :: u64) < 2 ^ 0"
  by simp

lemma read_uvarint_Ok:
  assumes "read_uvarint s = (Ok v, s')"
  obtains bs r where "stream_rest s = bs @ r" "s' = advance (length bs) s" "uvarint_form bs"
    "unat v = uvarint_value bs" "length bs \<le> 10"
proof -
  obtain bs where bs: "stream_rest s = bs @ stream_rest s'" "s' = advance (length bs) s" "uvarint_form bs"
    "unat v = unat (0 :: u64) + uvarint_value bs * 2 ^ 0" "0 + 7 * length bs < 71"
    using read_uvarint_loop_inv [OF assms [unfolded read_uvarint_def] unat_0_less] by blast
  show ?thesis by (rule that [OF bs(1,2,3)]) (use bs(4,5) in simp_all)
qed

lemma uvarint_bytes_small [simp]: "n < 128 \<Longrightarrow> uvarint_bytes n = [of_nat n]"
  by (simp add: uvarint_bytes.simps)

lemma uvarint_bytes_nonempty [simp]: "uvarint_bytes n \<noteq> []"
  by (subst uvarint_bytes.simps) simp

lemma read_uvarint_loop_bytes:
  assumes "stream_rest s = uvarint_bytes n @ r" "unat acc < 2 ^ shift" "n * 2 ^ shift < 2 ^ 64" "shift < 64"
  shows "\<exists>v. read_uvarint_loop acc shift s = (Ok v, advance (length (uvarint_bytes n)) s)
    \<and> unat v = unat acc + n * 2 ^ shift"
  using assms
proof (induction n arbitrary: acc shift s rule: uvarint_bytes.induct)
  case (1 n)
  define b :: u8 where "b = (if n < 128 then of_nat n else of_nat (128 + n mod 128))"
  have b: "unat b = (if n < 128 then n else 128 + n mod 128)"
    by (simp add: b_def unat_of_nat del: of_nat_add)
  define g where "g = ucast b AND (0x7F :: u64)"
  have g: "unat g = n mod 128" by (simp add: g_def b)
  have "n mod 128 * 2 ^ shift \<le> n * 2 ^ shift" by (intro mult_le_mono1) simp
  then have small: "unat g * 2 ^ shift < 2 ^ 64" using "1.prems"(3) unfolding g by (rule le_less_trans)
  then have lz: "shift \<le> leading_zeros g" using "1.prems"(4) by (simp add: leading_zeros_le_iff)
  define acc' where "acc' = acc + push_bit shift g"
  have acc': "unat acc' = unat acc + n mod 128 * 2 ^ shift"
    using add_group [OF "1.prems"(2) small "1.prems"(4)] by (simp add: acc'_def g)
  have rest: "stream_rest s = b # (if n < 128 then r else uvarint_bytes (n div 128) @ r)"
    using "1.prems"(1) by (simp add: b_def uvarint_bytes.simps [of n])
  note loop = read_uvarint_loop_Cons [OF rest, of acc shift, folded g_def, unfolded Let_def, folded acc'_def]
  show ?case
  proof (cases "n < 128")
    case True
    then show ?thesis using lz "1.prems"(4) b acc' by (simp add: loop)
  next
    case False
    have "n mod 128 * 2 ^ shift \<le> 127 * 2 ^ shift" by (intro mult_le_mono1) simp
    then have "unat acc' < 2 ^ shift * 128" using "1.prems"(2) unfolding acc' by linarith
    then have less: "unat acc' < 2 ^ (shift + 7)" by (simp add: power_add)
    have "n div 128 * 2 ^ (shift + 7) \<le> n * 2 ^ shift"
      using mult_le_mono1 [OF div_times_less_eq_dividend [of n 128], of "2 ^ shift"] by (simp add: power_add ac_simps)
    then have fits: "n div 128 * 2 ^ (shift + 7) < 2 ^ 64" using "1.prems"(3) by linarith
    have "1 * 2 ^ (shift + 7) \<le> n div 128 * 2 ^ (shift + 7)" using False by (intro mult_le_mono1) simp
    then have "(2 :: nat) ^ (shift + 7) < 2 ^ 64" using fits by linarith
    then have "shift + 7 < 64" by (rule power_less_imp_less_exp [rotated]) simp
    then obtain v where "read_uvarint_loop acc' (shift + 7) (advance 1 s) =
        (Ok v, advance (length (uvarint_bytes (n div 128))) (advance 1 s))"
      and v: "unat v = unat acc' + n div 128 * 2 ^ (shift + 7)"
      using "1.IH" [OF False _ less fits, of "advance 1 s"] rest False by auto
    then have "read_uvarint_loop acc shift s = (Ok v, advance (length (uvarint_bytes n)) s)"
      using False lz "1.prems"(4) b by (simp add: loop uvarint_bytes.simps [of n])
    moreover have "unat v = unat acc + n * 2 ^ shift"
    proof -
      have "n * 2 ^ shift = (n div 128 * 128 + n mod 128) * 2 ^ shift" by simp
      then show ?thesis unfolding v acc' power_add by (simp only: distrib_right mult.assoc) simp
    qed
    ultimately show ?thesis by blast
  qed
qed

lemma read_uvarint_bytes:
  assumes "stream_rest s = uvarint_bytes (unat v) @ r"
  shows "read_uvarint s = (Ok v, advance (length (uvarint_bytes (unat v))) s)"
proof -
  have "unat v < 2 ^ 64" using unsigned_less [of v, where ?'a = nat] by simp
  then obtain w where "read_uvarint s = (Ok w, advance (length (uvarint_bytes (unat v))) s)" "unat w = unat v"
    using read_uvarint_loop_bytes [OF assms, of 0 0] by (auto simp: read_uvarint_def)
  then show ?thesis by (simp add: unsigned_word_eqI)
qed

lemma unat_continued [simp]: "unat (128 + of_nat (n mod 128) :: u8) = 128 + n mod 128"
proof -
  have "unat (of_nat (128 + n mod 128) :: u8) = 128 + n mod 128"
    by (simp add: unat_of_nat del: of_nat_add)
  then show ?thesis by (simp only: of_nat_add of_nat_numeral)
qed

lemma uvarint_value_bytes [simp]: "uvarint_value (uvarint_bytes n) = n"
proof (induction n rule: uvarint_bytes.induct)
  case (1 n)
  show ?case
  proof (cases "n < 128")
    case True
    then show ?thesis by (simp add: unat_of_nat)
  next
    case False
    then show ?thesis using 1 by (simp add: uvarint_bytes.simps [of n])
  qed
qed

lemma uvarint_form_bytes [simp]: "uvarint_form (uvarint_bytes n)"
proof (induction n rule: uvarint_bytes.induct)
  case (1 n)
  then show ?case by (cases "n < 128") (simp_all add: uvarint_bytes.simps [of n] unat_of_nat)
qed

lemma uvarint_bytes_length:
  assumes "n < 2 ^ 64"
  shows "length (uvarint_bytes n) \<le> 10"
proof -
  have digits: "length (uvarint_bytes n) \<le> Suc k" if "n < 128 ^ Suc k" for k n
    using that
  proof (induction k arbitrary: n)
    case (Suc k)
    then have "n div 128 < 128 ^ Suc k" by (simp add: less_mult_imp_div_less)
    then show ?case using Suc.IH by (subst uvarint_bytes.simps) simp
  qed simp
  have "(2 :: nat) ^ 64 \<le> 128 ^ Suc 9" by simp
  with assms have "n < 128 ^ Suc 9" by (rule less_le_trans)
  then show ?thesis using digits [of n 9] by simp
qed

section \<open>Writing\<close>

lemma uvarint_low [simp]: "ucast (v AND 0x7F :: u64) = (of_nat (unat v mod 128) :: u8)"
proof -
  have "v AND 0x7F = take_bit 7 v" by (simp add: take_bit_eq_mask mask_eq_exp_minus_1)
  moreover have "unat (take_bit 7 v) = unat v mod 128" by (simp only: unsigned_take_bit_eq) (simp add: take_bit_eq_mod)
  ultimately show ?thesis by (metis of_nat_unat)
qed

lemma uvarint_continue: "of_nat (n mod 128) OR 0x80 = (128 + of_nat (n mod 128) :: u8)"
proof -
  have zero: "of_nat (n mod 128) AND 0x80 = (0 :: u8)" by (simp add: unat_of_nat)
  show ?thesis using word_plus_and_or [of "of_nat (n mod 128)" "0x80 :: u8"] unfolding zero by (simp add: add.commute)
qed

text \<open>
  What the codec relies on: a successful write appends its bytes, one byte at a time is as good
  as all at once, and a write fails only for lack of room.
\<close>

locale byte_sink =
  fixes out :: "'s output_stream"
    and room :: "bytes \<Rightarrow> 's \<Rightarrow> bool"
    and append_to :: "'s \<Rightarrow> bytes \<Rightarrow> 's"
    and invar :: "'s \<Rightarrow> bool"
  assumes write_room: "invar s \<Longrightarrow> room bs s \<Longrightarrow> os_write out bs s = (Ok (), append_to s bs)"
    and write_full: "invar s \<Longrightarrow> \<not> room bs s \<Longrightarrow> fst (os_write out bs s) = Err EOFError"
    and write_byte_eq: "os_write_byte out b s = os_write out [b] s"
    and room_Nil: "invar s \<Longrightarrow> room [] s"
    and room_append: "invar s \<Longrightarrow> room (xs @ bs) s \<longleftrightarrow> room xs s \<and> room bs (append_to s xs)"
    and append_to_Nil: "invar s \<Longrightarrow> append_to s [] = s"
    and append_to_append: "invar s \<Longrightarrow> room xs s \<Longrightarrow> append_to s (xs @ bs) = append_to (append_to s xs) bs"
    and append_to_invar: "invar s \<Longrightarrow> room bs s \<Longrightarrow> invar (append_to s bs)"
begin

text \<open>A call that writes \<open>bs\<close>, if there is room.\<close>

definition writes :: "('s \<Rightarrow> (unit, py_error) result \<times> 's) \<Rightarrow> bytes \<Rightarrow> bool" where
  "writes m bs \<longleftrightarrow> (\<forall>s. invar s \<longrightarrow>
     (if room bs s then m s = (Ok (), append_to s bs) else fst (m s) = Err EOFError))"

lemma writes_write: "writes (os_write out bs) bs"
  by (simp add: writes_def write_room write_full)

lemma writes_nothing: "writes (\<lambda>s. (Ok (), s)) []"
  by (simp add: writes_def room_Nil append_to_Nil)

lemma writes_then:
  assumes "writes m xs" "writes k bs"
  shows "writes (\<lambda>s. and_then_st (m s) (\<lambda>_. k)) (xs @ bs)"
  unfolding writes_def
proof (intro allI impI)
  fix s assume s: "invar s"
  show "if room (xs @ bs) s then and_then_st (m s) (\<lambda>_. k) = (Ok (), append_to s (xs @ bs))
    else fst (and_then_st (m s) (\<lambda>_. k)) = Err EOFError"
  proof (cases "room xs s")
    case True
    then have "m s = (Ok (), append_to s xs)" using assms(1) s by (simp add: writes_def)
    then show ?thesis
      using assms(2) True s by (simp add: writes_def room_append append_to_append append_to_invar)
  next
    case False
    then have "fst (m s) = Err EOFError" using assms(1) s by (simp add: writes_def)
    then show ?thesis using False s by (cases "m s") (simp add: room_append)
  qed
qed

lemma writes_uvarint: "writes (write_uvarint out v) (uvarint_bytes (unat v))"
proof (induction "unat v" arbitrary: v rule: less_induct)
  case less
  have shifted: "unat (drop_bit 7 v) = unat v div 128" by (simp add: drop_bit_eq_div unat_div)
  then have zero: "drop_bit 7 v = 0 \<longleftrightarrow> unat v < 128"
    by (metis (no_types) div_eq_0_iff unat_eq_zero zero_neq_numeral)
  show ?case
  proof (cases "unat v < 128")
    case True
    then have "write_uvarint out v = os_write out [of_nat (unat v)]"
      using zero uvarint_low by (intro ext, subst write_uvarint.simps) (simp add: write_byte_eq)
    then show ?thesis using True writes_write by simp
  next
    case False
    have high: "of_nat (unat v mod 128) OR 0x80 = (of_nat (128 + unat v mod 128) :: u8)" by (simp add: uvarint_continue)
    have "write_uvarint out v =
        (\<lambda>s. and_then_st (os_write out [of_nat (128 + unat v mod 128)] s) (\<lambda>_. write_uvarint out (drop_bit 7 v)))"
      using False zero uvarint_low high by (intro ext, subst write_uvarint.simps) (simp add: write_byte_eq)
    moreover have "writes (write_uvarint out (drop_bit 7 v)) (uvarint_bytes (unat v div 128))"
      using less [of "drop_bit 7 v"] False by (simp add: shifted)
    ultimately have "writes (write_uvarint out v) ([of_nat (128 + unat v mod 128)] @ uvarint_bytes (unat v div 128))"
      by (simp only: writes_then [OF writes_write])
    then show ?thesis using False by (simp add: uvarint_bytes.simps [of "unat v"])
  qed
qed

end

interpretation counter: byte_sink counter_output "\<lambda>_ _. True" "\<lambda>n bs. n + length bs" "\<lambda>_. True"
  by unfold_locales (simp_all add: counter_output_def counter_write_def counter_write_byte_def)

definition buffer_room :: "bytes \<Rightarrow> buffer_stream \<Rightarrow> bool" where
  "buffer_room bs s \<longleftrightarrow> bs_pos s + length bs \<le> length (bs_buf s)"

definition buffer_append :: "buffer_stream \<Rightarrow> bytes \<Rightarrow> buffer_stream" where
  "buffer_append s bs =
     \<lparr>bs_buf = take (bs_pos s) (bs_buf s) @ bs @ drop (bs_pos s + length bs) (bs_buf s), bs_pos = bs_pos s + length bs\<rparr>"

definition buffer_wf :: "buffer_stream \<Rightarrow> bool" where
  "buffer_wf s \<longleftrightarrow> bs_pos s \<le> length (bs_buf s)"

interpretation buffer: byte_sink buffer_output buffer_room buffer_append buffer_wf
proof unfold_locales
  show "os_write_byte buffer_output b s = os_write buffer_output [b] s" for b s
    by (simp add: buffer_output_def buffer_write_byte_def buffer_write_def Let_def upd_conv_take_nth_drop)
qed (auto simp: buffer_output_def buffer_write_def buffer_room_def buffer_append_def buffer_wf_def Let_def
    ac_simps)

section \<open>Zigzag\<close>

lemma zigzag_bits:
  "bit (zigzag_to_unsigned n) i \<longleftrightarrow> i < 64 \<and> (bit n 63 \<noteq> (0 < i \<and> bit n (i - 1)))"
proof -
  have "bit (push_bit 1 n) i \<longleftrightarrow> i < 64 \<and> 0 < i \<and> bit n (i - 1)"
    by (auto simp only: bit_push_bit_iff) simp_all
  moreover have "bit (signed_drop_bit 63 n) i \<longleftrightarrow> i < 64 \<and> bit n 63"
    by (cases i) (auto simp: bit_signed_drop_bit_iff dest: bit_imp_le_length)
  ultimately show ?thesis by (auto simp only: zigzag_to_unsigned_def bit_xor_iff)
qed

lemma zigzag_signed_bits:
  "bit (zigzag_to_signed n) i \<longleftrightarrow> i < 64 \<and> (bit n 0 \<noteq> bit n (Suc i))"
proof -
  have "n AND 1 = (if bit n 0 then 1 else 0)"
    by (simp add: and_one_eq mod_2_eq_odd bit_0)
  then have "bit (- (n AND 1)) i \<longleftrightarrow> i < 64 \<and> bit n 0" by auto
  moreover have "bit (drop_bit 1 n) i \<longleftrightarrow> i < 64 \<and> bit n (Suc i)"
    by (auto simp: bit_drop_bit_eq dest: bit_imp_le_length)
  ultimately show ?thesis by (auto simp only: zigzag_to_signed_def bit_xor_iff)
qed

lemma zigzag_inverse [simp]:
  "zigzag_to_signed (zigzag_to_unsigned n) = n" "zigzag_to_unsigned (zigzag_to_signed n) = n"
proof -
  have "bit n 63 = bit n i" if "i < 64" "\<not> i < 63" for i using that by (cases "i = 63") auto
  then show "zigzag_to_signed (zigzag_to_unsigned n) = n"
    by (intro bit_word_eqI) (auto simp: zigzag_bits zigzag_signed_bits)
  show "zigzag_to_unsigned (zigzag_to_signed n) = n"
  proof (rule bit_word_eqI)
    fix i assume "i < LENGTH(64)"
    then show "bit (zigzag_to_unsigned (zigzag_to_signed n)) i = bit n i"
      by (cases i) (auto simp: zigzag_bits zigzag_signed_bits dest: bit_imp_le_length)
  qed
qed

lemma zigzag_value: "uint (zigzag_to_unsigned n) = (if 0 \<le> sint n then 2 * sint n else - 2 * sint n - 1)"
proof -
  have range: "- (2 ^ 63) \<le> sint n" "sint n < 2 ^ 63"
    using sint_ge [of n] sint_lt [of n] by simp_all
  have n: "n = of_int (sint n)" by simp
  have shift: "push_bit 1 n = of_int (2 * sint n)" by (simp add: push_bit_eq_mult)
  have sign: "signed_drop_bit 63 n = (if 0 \<le> sint n then 0 else - 1)"
  proof -
    have "bit n 63 \<longleftrightarrow> sint n < 0" by (simp add: bit_last_iff [where ?'a = 64, simplified])
    then show ?thesis
      by (intro bit_word_eqI) (auto simp: bit_signed_drop_bit_iff not_le dest: bit_imp_le_length)
  qed
  show ?thesis
  proof (cases "0 \<le> sint n")
    case True
    then have "zigzag_to_unsigned n = of_int (2 * sint n)" using shift sign by (simp only: zigzag_to_unsigned_def) simp
    then show ?thesis using True range by (simp add: uint_word_of_int_eq take_bit_int_eq_self del: of_int_mult)
  next
    case False
    then have "zigzag_to_unsigned n = of_int (- 2 * sint n - 1)"
      using shift sign by (simp only: zigzag_to_unsigned_def) (simp add: not_eq_complement)
    then show ?thesis using False range by (simp add: uint_word_of_int_eq take_bit_int_eq_self del: of_int_mult of_int_diff)
  qed
qed

section \<open>Properties\<close>

text \<open>
  C26. Variable-length integers are exact: what \<open>write_uvarint\<close> writes takes at most ten bytes and is
  read back as the same number with the reader just behind it, and whatever \<open>read_uvarint\<close> accepts is
  the value of the bytes that it consumed, without any overflow of the 64 bits.
\<close>

theorem uvarint_exact:
  "(let n = length (uvarint_bytes (unat v)) in
      n \<le> 10 \<and> write_uvarint counter_output v 0 = (Ok (), n)
      \<and> (n \<le> length buf \<longrightarrow>
          (\<exists>out. write_uvarint buffer_output v (buffer_stream_new buf) = (Ok (), out)
            \<and> bs_buf out = uvarint_bytes (unat v) @ drop n buf
            \<and> read_uvarint (input_stream_new (bs_buf out)) = (Ok v, advance n (input_stream_new (bs_buf out))))))
   \<and> (\<forall>w s'. read_uvarint s = (Ok w, s') \<longrightarrow>
        (\<exists>bs r. stream_rest s = bs @ r \<and> s' = advance (length bs) s \<and> uvarint_form bs \<and> unat w = uvarint_value bs))"
proof (intro conjI allI impI)
  have len: "length (uvarint_bytes (unat v)) \<le> 10"
    by (rule uvarint_bytes_length) (use unsigned_less [of v, where ?'a = nat] in simp)
  have count: "write_uvarint counter_output v 0 = (Ok (), length (uvarint_bytes (unat v)))"
    using counter.writes_uvarint [of v] by (simp add: counter.writes_def)
  have "write_uvarint buffer_output v (buffer_stream_new buf) =
      (Ok (), buffer_append (buffer_stream_new buf) (uvarint_bytes (unat v)))"
    if "length (uvarint_bytes (unat v)) \<le> length buf"
    using buffer.writes_uvarint [of v] that
    by (simp add: buffer.writes_def buffer_wf_def buffer_room_def buffer_stream_new_def)
  then show "let n = length (uvarint_bytes (unat v)) in
      n \<le> 10 \<and> write_uvarint counter_output v 0 = (Ok (), n)
      \<and> (n \<le> length buf \<longrightarrow>
          (\<exists>out. write_uvarint buffer_output v (buffer_stream_new buf) = (Ok (), out)
            \<and> bs_buf out = uvarint_bytes (unat v) @ drop n buf
            \<and> read_uvarint (input_stream_new (bs_buf out)) = (Ok v, advance n (input_stream_new (bs_buf out)))))"
    using len count
    by (auto simp: Let_def buffer_append_def buffer_stream_new_def intro!: read_uvarint_bytes)
next
  fix w s' assume "read_uvarint s = (Ok w, s')"
  then show "\<exists>bs r. stream_rest s = bs @ r \<and> s' = advance (length bs) s \<and> uvarint_form bs \<and> unat w = uvarint_value bs"
    by (rule read_uvarint_Ok) blast
qed

theorem uvarint_exact_witness:
  "\<exists>out. write_uvarint buffer_output 300 (buffer_stream_new [7, 8, 9]) = (Ok (), out) \<and> bs_buf out = [0xAC, 2, 9]
     \<and> read_uvarint (input_stream_new (bs_buf out)) = (Ok 300, advance 2 (input_stream_new (bs_buf out)))"
proof -
  have "uvarint_bytes (unat (300 :: u64)) = [0xAC, 2]" by (simp add: uvarint_bytes.simps)
  then show ?thesis using uvarint_exact [of 300 "[7, 8, 9]"] by (simp add: numeral_2_eq_2)
qed

text \<open>
  C37. Zigzag: the two conversions are inverse to each other, and the code of a signed number is
  twice its value, or one less than twice its magnitude when it is negative.
\<close>

theorem zigzag_bijection:
  "zigzag_to_signed (zigzag_to_unsigned n) = n \<and> zigzag_to_unsigned (zigzag_to_signed m) = m
   \<and> uint (zigzag_to_unsigned n) = (if 0 \<le> sint n then 2 * sint n else - 2 * sint n - 1)"
  by (simp add: zigzag_value)

end
