(* ===== verification/Proto_Defs.thy ===== *)
theory Proto_Defs
  imports Proto_Streams
begin

text \<open>
  The message definitions, \<open>core/embed/rust/src/protobuf/defs.rs\<close>. They are read from four tables
  that the build generates from the \<open>.proto\<close> files and that the model takes as an argument, the
  record \<open>proto_defs\<close>. A table that does not have the expected form makes the accessors panic: an
  index out of range, an unknown type number, an offset that breaks the alignment of the
  entries (a debug assertion; without it the layout of the entries is unspecified).
\<close>

section \<open>Tables and entries\<close>

record proto_defs =
  enum_blob :: bytes
  msg_blob :: bytes
  name_blob :: bytes
  wire_blob :: bytes

record field_def =
  fd_tag :: u8
  flags_and_type :: u8
  enum_or_msg_offset :: u16
  fd_name :: u16

record msg_def =
  md_fields :: "field_def list"
  md_defaults :: bytes
  md_is_experimental :: bool
  md_wire_id :: "u16 option"
  md_offset :: u16

record enum_def =
  ed_values :: "u16 list"

datatype field_type =
    UVarInt32 | SVarInt32 | UVarInt64 | SVarInt64
  | FBool | FBytes | FString
  | FEnum enum_def
  | FMsg msg_def

record name_def =
  nd_msg_name :: u16
  nd_msg_offset :: u16

record wire_def =
  wd_enum_name :: u16
  wd_wire_id :: u16
  wd_msg_offset :: u16

text \<open>The entries of a table, as the little-endian processor sees the bytes.\<close>

fun u16_entries :: "bytes \<Rightarrow> u16 list" where
  "u16_entries (a # b # bs) = u16_from_le [a, b] # u16_entries bs"
| "u16_entries _ = []"

fun field_entries :: "bytes \<Rightarrow> field_def list" where
  "field_entries (t # f # a # b # c # d # bs) =
     \<lparr>fd_tag = t, flags_and_type = f, enum_or_msg_offset = u16_from_le [a, b], fd_name = u16_from_le [c, d]\<rparr>
     # field_entries bs"
| "field_entries _ = []"

fun name_entries :: "bytes \<Rightarrow> name_def list" where
  "name_entries (a # b # c # d # bs) =
     \<lparr>nd_msg_name = u16_from_le [a, b], nd_msg_offset = u16_from_le [c, d]\<rparr> # name_entries bs"
| "name_entries _ = []"

fun wire_entries :: "bytes \<Rightarrow> wire_def list" where
  "wire_entries (a # b # c # d # e # f # bs) =
     \<lparr>wd_enum_name = u16_from_le [a, b], wd_wire_id = u16_from_le [c, d], wd_msg_offset = u16_from_le [e, f]\<rparr>
     # wire_entries bs"
| "wire_entries _ = []"

definition FIELD_DEF_SIZE :: nat where "FIELD_DEF_SIZE = 6"

section \<open>Access\<close>

definition get_msg :: "proto_defs \<Rightarrow> u16 \<Rightarrow> (msg_def, py_error) result" where
  "get_msg D msg_offset =
     and_then (slice_from (unat msg_offset) (msg_blob D)) (\<lambda>msg_def_start.
     case msg_def_start of
       fields_count # defaults_size # lo # hi # rest \<Rightarrow>
         let flags_and_wire_id = u16_from_le [lo, hi];
             is_experimental = (flags_and_wire_id AND 0x8000 \<noteq> 0);
             wire_id = (let some_wire_id = flags_and_wire_id AND 0x7FFF in
                        if some_wire_id = 0x7FFF then None else Some some_wire_id);
             fields_size = unat fields_count * FIELD_DEF_SIZE
         in and_then (slice_to fields_size rest) (\<lambda>fields_byteslice.
            if odd (unat msg_offset) then Panic
            else
              and_then (slice_to (unat defaults_size) (drop fields_size rest)) (\<lambda>defaults.
              Ok \<lparr>md_fields = field_entries fields_byteslice, md_defaults = defaults,
                  md_is_experimental = is_experimental, md_wire_id = wire_id, md_offset = msg_offset\<rparr>))
     | _ \<Rightarrow> Panic)"

definition get_enum :: "proto_defs \<Rightarrow> u16 \<Rightarrow> (enum_def, py_error) result" where
  "get_enum D enum_offset =
     (let enum_defs = u16_entries (enum_blob D) in
      if odd (unat enum_offset) then Panic
      else
        case drop (unat enum_offset div 2) enum_defs of
          [] \<Rightarrow> Panic
        | count # rest \<Rightarrow>
            and_then (slice_to (unat count) rest) (\<lambda>values. Ok \<lparr>ed_values = values\<rparr>))"

definition msg_field :: "msg_def \<Rightarrow> u8 \<Rightarrow> field_def option" where
  "msg_field msg tag = find (\<lambda>field. fd_tag field = tag) (md_fields msg)"

definition fd_flags :: "field_def \<Rightarrow> u8" where
  "fd_flags f = flags_and_type f AND 0xF0"

definition fd_ftype :: "field_def \<Rightarrow> u8" where
  "fd_ftype f = flags_and_type f AND 0x0F"

definition is_required :: "field_def \<Rightarrow> bool" where
  "is_required f \<longleftrightarrow> fd_flags f AND 0x80 \<noteq> 0"

definition is_repeated :: "field_def \<Rightarrow> bool" where
  "is_repeated f \<longleftrightarrow> fd_flags f AND 0x40 \<noteq> 0"

definition is_experimental_field :: "field_def \<Rightarrow> bool" where
  "is_experimental_field f \<longleftrightarrow> fd_flags f AND 0x20 \<noteq> 0"

definition get_type :: "proto_defs \<Rightarrow> field_def \<Rightarrow> (field_type, py_error) result" where
  "get_type D f =
     (let t = fd_ftype f in
      if t = 0 then Ok UVarInt32
      else if t = 1 then Ok SVarInt32
      else if t = 2 then Ok UVarInt64
      else if t = 3 then Ok SVarInt64
      else if t = 4 then Ok FBool
      else if t = 5 then Ok FBytes
      else if t = 6 then Ok FString
      else if t = 7 then map_ok FEnum (get_enum D (enum_or_msg_offset f))
      else if t = 8 then map_ok FMsg (get_msg D (enum_or_msg_offset f))
      else Panic)"

definition PRIMITIVE_TYPE_VARINT :: u8 where "PRIMITIVE_TYPE_VARINT = 0"
definition PRIMITIVE_TYPE_LENGTH_DELIMITED :: u8 where "PRIMITIVE_TYPE_LENGTH_DELIMITED = 2"

lemmas primitive_types = PRIMITIVE_TYPE_VARINT_def PRIMITIVE_TYPE_LENGTH_DELIMITED_def

fun primitive_type :: "field_type \<Rightarrow> u8" where
  "primitive_type FBytes = PRIMITIVE_TYPE_LENGTH_DELIMITED"
| "primitive_type FString = PRIMITIVE_TYPE_LENGTH_DELIMITED"
| "primitive_type (FMsg _) = PRIMITIVE_TYPE_LENGTH_DELIMITED"
| "primitive_type _ = PRIMITIVE_TYPE_VARINT"

section \<open>Lookup\<close>

text \<open>\<open>slice::binary_search_by_key\<close>: the base moves up while the key there is not greater.\<close>

function binary_search_loop :: "('a \<Rightarrow> 'k :: linorder) \<Rightarrow> 'k \<Rightarrow> 'a list \<Rightarrow> nat \<Rightarrow> nat \<Rightarrow> nat" where
  "binary_search_loop key k xs base n =
     (if n > 1 then
        let half = n div 2; mid = base + half
        in binary_search_loop key k xs (if key (xs ! mid) > k then base else mid) (n - half)
      else base)"
  by pat_completeness auto
termination
  by (relation "measure (\<lambda>(_, _, _, _, n). n)") auto

declare binary_search_loop.simps [simp del]

definition binary_search_by_key :: "('a \<Rightarrow> 'k :: linorder) \<Rightarrow> 'k \<Rightarrow> 'a list \<Rightarrow> nat option" where
  "binary_search_by_key key k xs =
     (if xs = [] then None
      else let base = binary_search_loop key k xs 0 (length xs)
           in if key (xs ! base) = k then Some base else None)"

definition name_defs :: "proto_defs \<Rightarrow> name_def list" where
  "name_defs D = name_entries (name_blob D)"

definition wire_defs :: "proto_defs \<Rightarrow> wire_def list" where
  "wire_defs D = wire_entries (wire_blob D)"

definition find_name_by_msg_offset :: "proto_defs \<Rightarrow> u16 \<Rightarrow> u16 option" where
  "find_name_by_msg_offset D off = map_option nd_msg_name (find (\<lambda>def. nd_msg_offset def = off) (name_defs D))"

definition find_msg_offset_by_name :: "proto_defs \<Rightarrow> u16 \<Rightarrow> u16 option" where
  "find_msg_offset_by_name D msg_name =
     map_option (\<lambda>i. nd_msg_offset (name_defs D ! i)) (binary_search_by_key nd_msg_name msg_name (name_defs D))"

text \<open>The key of the wire table: pairs are compared by their first component first.\<close>

definition wire_key :: "u16 \<Rightarrow> u16 \<Rightarrow> nat" where
  "wire_key enum_name wire_id = unat enum_name * 2 ^ 16 + unat wire_id"

definition find_msg_offset_by_wire :: "proto_defs \<Rightarrow> u16 \<Rightarrow> u16 \<Rightarrow> u16 option" where
  "find_msg_offset_by_wire D enum_name wire_id =
     map_option (\<lambda>i. wd_msg_offset (wire_defs D ! i))
       (binary_search_by_key (\<lambda>def. wire_key (wd_enum_name def) (wd_wire_id def)) (wire_key enum_name wire_id) (wire_defs D))"

definition msg_def_for_name :: "proto_defs \<Rightarrow> u16 \<Rightarrow> (msg_def, py_error) result option" where
  "msg_def_for_name D msg_name = map_option (get_msg D) (find_msg_offset_by_name D msg_name)"

definition msg_def_for_wire_id :: "proto_defs \<Rightarrow> u16 \<Rightarrow> u16 \<Rightarrow> (msg_def, py_error) result option" where
  "msg_def_for_wire_id D enum_name wire_id = map_option (get_msg D) (find_msg_offset_by_wire D enum_name wire_id)"

section \<open>Facts\<close>

lemma get_msg_no_Err [simp]: "get_msg D off \<noteq> Err e"
  by (auto simp: get_msg_def and_then_eq_Err Let_def split: list.splits if_splits)

lemma get_enum_no_Err [simp]: "get_enum D off \<noteq> Err e"
  by (auto simp: get_enum_def and_then_eq_Err Let_def split: list.splits if_splits)

lemma get_type_no_Err [simp]: "get_type D f \<noteq> Err e"
  by (cases "get_msg D (enum_or_msg_offset f)"; cases "get_enum D (enum_or_msg_offset f)")
    (auto simp: get_type_def Let_def)

lemma get_msg_offset: "get_msg D off = Ok m \<Longrightarrow> md_offset m = off"
  by (auto simp: get_msg_def Let_def split: list.splits if_splits)

lemma get_type_msg: "get_type D f = Ok (FMsg m) \<Longrightarrow> get_msg D (enum_or_msg_offset f) = Ok m"
  by (cases "get_msg D (enum_or_msg_offset f)"; cases "get_enum D (enum_or_msg_offset f)")
    (auto simp: get_type_def Let_def split: if_splits)

lemma msg_field_Some: "msg_field m tag = Some f \<Longrightarrow> f \<in> set (md_fields m) \<and> fd_tag f = tag"
  by (auto simp: msg_field_def find_Some_iff)

lemma msg_field_tag:
  assumes "distinct (map fd_tag (md_fields m))" "f \<in> set (md_fields m)"
  shows "msg_field m (fd_tag f) = Some f"
proof -
  obtain g where g: "msg_field m (fd_tag f) = Some g"
    using assms(2) by (cases "msg_field m (fd_tag f)") (auto simp: msg_field_def find_None_iff)
  then have "g = f" using msg_field_Some [OF g] assms by (auto simp: distinct_map inj_on_def)
  then show ?thesis using g by simp
qed

text \<open>The binary search of a sorted table.\<close>

lemma binary_search_loop_bounds:
  "0 < n \<Longrightarrow> base + n \<le> length xs \<Longrightarrow> binary_search_loop key k xs base n < length xs"
proof (induction n arbitrary: base rule: less_induct)
  case (less n)
  show ?case
  proof (cases "n > 1")
    case True
    then show ?thesis using less.prems less.IH [of "n - n div 2"]
      by (subst binary_search_loop.simps) (auto simp: Let_def)
  qed (use less.prems in \<open>simp add: binary_search_loop.simps\<close>)
qed

lemma binary_search_loop_finds:
  assumes "sorted_wrt (<) (map key xs)" "i < length xs" "key (xs ! i) = k"
    and "base \<le> i" "i < base + n" "base + n \<le> length xs"
  shows "binary_search_loop key k xs base n = i"
  using assms(4-)
proof (induction n arbitrary: base rule: less_induct)
  case (less n)
  show ?case
  proof (cases "n > 1")
    case True
    define half where "half = n div 2"
    have half: "0 < half" "half < n" "half + half \<le> n" using True by (auto simp: half_def)
    have "key (xs ! (base + half)) > k \<longleftrightarrow> i < base + half"
    proof -
      have "key (xs ! a) < key (xs ! b)" if "a < b" "b < length xs" for a b
        using sorted_wrt_nth_less [OF assms(1)] that by simp
      then show ?thesis
        using assms(2,3) half less.prems by (metis add_less_cancel_left less_asym' less_le_trans linorder_neqE_nat order_less_irrefl)
    qed
    then show ?thesis using True half less.prems less.IH [of "n - half"]
      by (subst binary_search_loop.simps) (auto simp: Let_def simp flip: half_def)
  qed (use less.prems in \<open>auto simp: binary_search_loop.simps\<close>)
qed

lemma binary_search_sorted:
  assumes "sorted_wrt (<) (map key xs)"
  shows "binary_search_by_key key k xs = Some i \<longleftrightarrow> i < length xs \<and> key (xs ! i) = k"
  using binary_search_loop_finds [OF assms, of i k 0 "length xs"] binary_search_loop_bounds [of "length xs" 0 xs key k]
  by (auto simp: binary_search_by_key_def Let_def)

lemma wire_key_inject: "wire_key a b = wire_key c d \<longleftrightarrow> a = c \<and> b = d"
proof -
  have "unat x < 2 ^ 16" for x :: u16 using unsigned_less [of x, where ?'a = nat] by simp
  then have "wire_key x y div 2 ^ 16 = unat x" "wire_key x y mod 2 ^ 16 = unat y" for x y
    by (simp_all add: wire_key_def)
  then have "unat a = unat c \<and> unat b = unat d" if "wire_key a b = wire_key c d"
    using that by metis
  then show ?thesis by (auto simp: unsigned_word_eqI)
qed

text \<open>
  C36. Messages are found by their number on the wire: when the table is sorted by the pair of
  enumeration and number, as the search needs, the lookup returns the offset of the entry with
  that pair, and nothing when there is none.
\<close>

theorem find_by_wire_correct:
  assumes "sorted_wrt (<) (map (\<lambda>def. wire_key (wd_enum_name def) (wd_wire_id def)) (wire_defs D))"
  shows "find_msg_offset_by_wire D enum_name wire_id = Some off \<longleftrightarrow>
    \<lparr>wd_enum_name = enum_name, wd_wire_id = wire_id, wd_msg_offset = off\<rparr> \<in> set (wire_defs D)"
  using binary_search_sorted [OF assms, of "wire_key enum_name wire_id"]
  by (auto simp: find_msg_offset_by_wire_def wire_key_inject in_set_conv_nth)

end
