(* ===== verification/Proto_Decode.thy ===== *)
theory Proto_Decode
  imports Proto_Defs "HOL-Library.Finite_Map"
begin

text \<open>
  The decoder, \<open>core/embed/rust/src/protobuf/decode.rs\<close>, with the errors of \<open>protobuf/error.rs\<close>
  and the message objects of \<open>protobuf/obj.rs\<close>. The values that cross the border to Python are the
  datatype \<open>obj\<close>; a message carries a map from the names of its fields (numbers of interned
  strings) to their values. Memory that runs out is not modelled.

  The recursion of the decoder goes through nested messages. The functions that make one step
  take the recursive call as an argument, \<open>message_from_stream_ex\<close> ties the knot, and its first
  argument bounds the number of nested calls: a decoder that runs out of it has exhausted the
  stack, which is a panic. \<open>DECODE_FUEL\<close> is one more than the nesting that the code accepts; the
  facts show that more makes no difference.
\<close>

section \<open>Values\<close>

datatype obj =
    ObjNone
  | ObjBool bool
  | ObjInt int
  | ObjBytes bytes
  | ObjStr bytes
  | ObjQstr u16
  | ObjList "obj list"
  | ObjDict "(u16, obj) fmap"
  | ObjMsg (msg_wire_id: "u16 option") (msg_offset: u16) (msg_map: "(u16, obj) fmap")

definition MAX_NESTING :: u8 where "MAX_NESTING = 16"

definition experimental_not_enabled :: py_error where
  "experimental_not_enabled = ValueError ''Experimental features are disabled.''"

definition unknown_field_type :: py_error where
  "unknown_field_type = ValueError ''Unknown field type.''"

definition missing_required_field :: "u16 \<Rightarrow> py_error" where
  "missing_required_field field = ValueErrorParam ''Missing required field.'' field"

definition invalid_value :: "u16 \<Rightarrow> py_error" where
  "invalid_value field = ValueErrorParam ''Invalid value for field.'' field"

text \<open>The decoder, and whether the build checks sums for overflow.\<close>

record decoder =
  enable_experimental :: bool
  overflow_checks :: bool

definition alloc_with_capacity :: "msg_def \<Rightarrow> (u16, obj) fmap \<Rightarrow> obj" where
  "alloc_with_capacity msg m = ObjMsg (md_wire_id msg) (md_offset msg) m"

text \<open>The interned strings that name the built-in attributes.\<close>

record proto_qstrs =
  QSTR_MESSAGE_WIRE_TYPE :: u16
  QSTR_MESSAGE_NAME :: u16
  QSTR_dict :: u16

definition obj_getattr :: "proto_defs \<Rightarrow> proto_qstrs \<Rightarrow> u16 \<Rightarrow> obj \<Rightarrow> (obj, py_error) result" where
  "obj_getattr D Q attr this =
     (case this of
        ObjMsg wire_id offset m \<Rightarrow>
          (case fmlookup m attr of
             Some v \<Rightarrow> Ok v
           | None \<Rightarrow>
               if attr = QSTR_MESSAGE_WIRE_TYPE Q
               then Ok (case wire_id of None \<Rightarrow> ObjNone | Some w \<Rightarrow> ObjInt (uint w))
               else if attr = QSTR_MESSAGE_NAME Q
               then (case find_name_by_msg_offset D offset of
                       None \<Rightarrow> Err (KeyError offset)
                     | Some name \<Rightarrow> Ok (ObjQstr name))
               else if attr = QSTR_dict Q then Ok (ObjDict m)
               else Err (AttributeError attr))
      | _ \<Rightarrow> Err TypeError)"

definition obj_setattr :: "u16 \<Rightarrow> obj option \<Rightarrow> obj \<Rightarrow> (unit, py_error) result \<times> obj" where
  "obj_setattr attr value this =
     (case this of
        ObjMsg wire_id offset m \<Rightarrow>
          (case value of
             None \<Rightarrow> (Err TypeError, this)
           | Some v \<Rightarrow>
               if fmlookup m attr \<noteq> None then (Ok (), ObjMsg wire_id offset (fmupd attr v m))
               else (Err (AttributeError attr), this))
      | _ \<Rightarrow> (Err TypeError, this))"

definition is_type_of :: "msg_def \<Rightarrow> obj \<Rightarrow> bool" where
  "is_type_of def v \<longleftrightarrow> (case v of ObjMsg _ offset _ \<Rightarrow> offset = md_offset def | _ \<Rightarrow> False)"

section \<open>One field\<close>

type_synonym decode_call = "u8 \<Rightarrow> msg_def \<Rightarrow> input_stream \<Rightarrow> (obj, py_error) result"

definition read_length_delimited ::
  "decoder \<Rightarrow> u64 \<Rightarrow> input_stream \<Rightarrow> (bytes, py_error) result \<times> input_stream" where
  "read_length_delimited d num s =
     and_then_st (to_usize num, s) (\<lambda>len s. io (stream_read (overflow_checks d) len s))"

definition decode_value ::
  "decoder \<Rightarrow> decode_call \<Rightarrow> u8 \<Rightarrow> u16 \<Rightarrow> field_type \<Rightarrow> u64 \<Rightarrow> input_stream
     \<Rightarrow> (obj, py_error) result \<times> input_stream" where
  "decode_value d rec depth name ty num s =
     (case ty of
        UVarInt32 \<Rightarrow> (if unat num < 2 ^ 32 then Ok (ObjInt (uint num)) else Err OutOfRange, s)
      | SVarInt32 \<Rightarrow>
          let signed_int = sint (zigzag_to_signed num) in
          (if - (2 ^ 31) \<le> signed_int \<and> signed_int < 2 ^ 31 then Ok (ObjInt signed_int) else Err OutOfRange, s)
      | UVarInt64 \<Rightarrow> (Ok (ObjInt (uint num)), s)
      | SVarInt64 \<Rightarrow> (Ok (ObjInt (sint (zigzag_to_signed num))), s)
      | FBool \<Rightarrow> (Ok (ObjBool (num \<noteq> 0)), s)
      | FBytes \<Rightarrow> and_then_st (read_length_delimited d num s) (\<lambda>buf s. (Ok (ObjBytes buf), s))
      | FString \<Rightarrow>
          and_then_st (read_length_delimited d num s) (\<lambda>buf s.
          (if utf8_valid buf then Ok (ObjStr buf) else Err (invalid_value name), s))
      | FEnum e \<Rightarrow>
          (if unat num < 2 ^ 16
           then if ucast num \<in> set (ed_values e) then Ok (ObjInt (uint num)) else Err (invalid_value name)
           else Err OutOfRange, s)
      | FMsg m \<Rightarrow>
          and_then_st (read_length_delimited d num s) (\<lambda>buf s. (rec (depth + 1) m (input_stream_new buf), s)))"

definition decode_field ::
  "proto_defs \<Rightarrow> decoder \<Rightarrow> decode_call \<Rightarrow> u8 \<Rightarrow> field_def \<Rightarrow> input_stream
     \<Rightarrow> (obj, py_error) result \<times> input_stream" where
  "decode_field D d rec depth field s =
     (if is_experimental_field field \<and> \<not> enable_experimental d then (Err experimental_not_enabled, s)
      else
        and_then_st (io (read_uvarint s)) (\<lambda>num s.
        and_then_st (get_type D field, s) (\<lambda>ty s.
        decode_value d rec depth (fd_name field) ty num s)))"

text \<open>A field that is not wanted.\<close>

definition skip_field :: "decoder \<Rightarrow> u8 \<Rightarrow> input_stream \<Rightarrow> (unit, py_error) result \<times> input_stream" where
  "skip_field d prim_type s =
     (if prim_type = PRIMITIVE_TYPE_VARINT then and_then_st (io (read_uvarint s)) (\<lambda>_ s. (Ok (), s))
      else if prim_type = PRIMITIVE_TYPE_LENGTH_DELIMITED then
        and_then_st (io (read_uvarint s)) (\<lambda>num s.
        and_then_st (read_length_delimited d num s) (\<lambda>_ s. (Ok (), s)))
      else (Err unknown_field_type, s))"

text \<open>A value that was decoded goes into the map; repeated fields collect theirs in a list.\<close>

definition store_field :: "field_def \<Rightarrow> obj \<Rightarrow> (u16, obj) fmap \<Rightarrow> ((u16, obj) fmap, py_error) result" where
  "store_field field v m =
     (if is_repeated field then
        (case fmlookup m (fd_name field) of
           Some (ObjList vs) \<Rightarrow> Ok (fmupd (fd_name field) (ObjList (vs @ [v])) m)
         | Some _ \<Rightarrow> Err TypeError
         | None \<Rightarrow> Ok (fmupd (fd_name field) (ObjList [v]) m))
      else Ok (fmupd (fd_name field) v m))"

section \<open>Messages\<close>

text \<open>One round of the loop over the fields of the input.\<close>

definition decode_next ::
  "proto_defs \<Rightarrow> decoder \<Rightarrow> decode_call \<Rightarrow> u8 \<Rightarrow> msg_def \<Rightarrow> (u16, obj) fmap \<Rightarrow> input_stream
     \<Rightarrow> ((u16, obj) fmap, py_error) result \<times> input_stream" where
  "decode_next D d rec depth msg m s =
     and_then_st (io (read_uvarint s)) (\<lambda>field_key s.
     if unat (drop_bit 3 field_key) > 0xFF then (Err OutOfRange, s)
     else
       let field_tag = ucast (drop_bit 3 field_key); prim_type = ucast (field_key AND 7) in
       case msg_field msg field_tag of
         Some field \<Rightarrow>
           and_then_st (get_type D field, s) (\<lambda>ty s.
           if primitive_type ty \<noteq> prim_type then (Err (invalid_value (fd_name field)), s)
           else
             and_then_st (decode_field D d rec depth field s) (\<lambda>v s. (store_field field v m, s)))
       | None \<Rightarrow> and_then_st (skip_field d prim_type s) (\<lambda>_ s. (Ok m, s)))"

lemma io_eq [simp]:
  "io m = (Ok x, s) \<longleftrightarrow> m = (Ok x, s)" "io (Ok x, s) = (Ok x, s)" "io (Panic, s) = (Panic, s)"
  "io (Err e, s) = (Err (from_io_error e), s)" "fst (io m) = Panic \<longleftrightarrow> fst m = Panic" "snd (io m) = snd m"
  by (cases m; cases "fst m"; auto simp: io_def)+

lemma uvarint_form_length: "uvarint_form bs \<Longrightarrow> 0 < length bs"
  by (cases bs) auto

lemma read_uvarint_consumes:
  assumes "read_uvarint s = (Ok n, s')"
  shows "remaining s' < remaining s"
  using assms by (rule read_uvarint_Ok) (auto simp: remaining_rest dest: uvarint_form_length)

lemma stream_read_consumes: "stream_read c n s = (r, s') \<Longrightarrow> remaining s' \<le> remaining s"
  by (auto simp: stream_read_def remaining_def split: if_splits)

lemma read_length_delimited_consumes: "read_length_delimited d n s = (Ok b, s') \<Longrightarrow> remaining s' \<le> remaining s"
  by (auto simp: read_length_delimited_def and_then_st_eq_Ok dest: stream_read_consumes)

lemma decode_value_consumes:
  "decode_value d rec depth name ty num s = (Ok v, s') \<Longrightarrow> remaining s' \<le> remaining s"
  by (auto simp: decode_value_def and_then_st_eq_Ok Let_def split: field_type.splits if_splits
      dest: read_length_delimited_consumes)

lemma decode_field_consumes:
  "decode_field D d rec depth field s = (Ok v, s') \<Longrightarrow> remaining s' < remaining s"
  by (auto simp: decode_field_def and_then_st_eq_Ok split: if_splits
      dest!: read_uvarint_consumes decode_value_consumes)

lemma skip_field_consumes: "skip_field d p s = (Ok v, s') \<Longrightarrow> remaining s' < remaining s"
  by (auto simp: skip_field_def and_then_st_eq_Ok split: if_splits
      dest!: read_uvarint_consumes read_length_delimited_consumes)

lemma decode_next_consumes:
  "decode_next D d rec depth msg m s = (Ok m', s') \<Longrightarrow> remaining s' < remaining s"
  by (auto simp: decode_next_def and_then_st_eq_Ok Let_def split: if_splits option.splits
      dest!: read_uvarint_consumes decode_field_consumes skip_field_consumes)

function decode_fields_into ::
  "proto_defs \<Rightarrow> decoder \<Rightarrow> decode_call \<Rightarrow> u8 \<Rightarrow> msg_def \<Rightarrow> (u16, obj) fmap \<Rightarrow> input_stream
     \<Rightarrow> ((u16, obj) fmap, py_error) result \<times> input_stream" where
  "decode_fields_into D d rec depth msg m s =
     (if remaining s > 0
      then and_then_st (decode_next D d rec depth msg m s) (\<lambda>m s. decode_fields_into D d rec depth msg m s)
      else (Ok m, s))"
  by pat_completeness auto
termination
  by (relation "measure (\<lambda>(_, _, _, _, _, _, s). remaining s)") (auto dest: decode_next_consumes)

declare decode_fields_into.simps [simp del]

definition default_next ::
  "proto_defs \<Rightarrow> decoder \<Rightarrow> decode_call \<Rightarrow> msg_def \<Rightarrow> u8 \<Rightarrow> (u16, obj) fmap \<Rightarrow> input_stream
     \<Rightarrow> ((u16, obj) fmap, py_error) result \<times> input_stream" where
  "default_next D d rec msg field_tag m s =
     (case msg_field msg field_tag of
        None \<Rightarrow> (Err (KeyError (ucast field_tag)), s)
      | Some field \<Rightarrow>
          if fmlookup m (fd_name field) \<noteq> None then
            and_then_st (get_type D field, s) (\<lambda>ty s.
            and_then_st (skip_field d (primitive_type ty) s) (\<lambda>_ s. (Ok m, s)))
          else and_then_st (decode_field D d rec 0 field s) (\<lambda>v s. (Ok (fmupd (fd_name field) v m), s)))"

lemma default_next_consumes:
  "default_next D d rec msg tag m s = (Ok m', s') \<Longrightarrow> remaining s' < remaining s"
  by (auto simp: default_next_def and_then_st_eq_Ok split: option.splits if_splits
      dest!: decode_field_consumes skip_field_consumes)

function decode_defaults_loop ::
  "proto_defs \<Rightarrow> decoder \<Rightarrow> decode_call \<Rightarrow> msg_def \<Rightarrow> (u16, obj) fmap \<Rightarrow> input_stream
     \<Rightarrow> ((u16, obj) fmap, py_error) result" where
  "decode_defaults_loop D d rec msg m s =
     (case read_byte s of
        (Ok field_tag, s) \<Rightarrow>
          (case default_next D d rec msg field_tag m s of
             (Ok m, s) \<Rightarrow> decode_defaults_loop D d rec msg m s
           | (Err e, _) \<Rightarrow> Err e
           | (Panic, _) \<Rightarrow> Panic)
      | (_, _) \<Rightarrow> Ok m)"
  by pat_completeness auto
termination
  by (relation "measure (\<lambda>(_, _, _, _, _, s). remaining s)")
    (auto dest!: default_next_consumes [OF sym] simp: read_byte_def remaining_def split: if_splits)

declare decode_defaults_loop.simps [simp del]

definition decode_defaults_into ::
  "proto_defs \<Rightarrow> decoder \<Rightarrow> decode_call \<Rightarrow> msg_def \<Rightarrow> (u16, obj) fmap \<Rightarrow> ((u16, obj) fmap, py_error) result" where
  "decode_defaults_into D d rec msg m = decode_defaults_loop D d rec msg m (input_stream_new (md_defaults msg))"

fun assign_required_into :: "field_def list \<Rightarrow> (u16, obj) fmap \<Rightarrow> ((u16, obj) fmap, py_error) result" where
  "assign_required_into [] m = Ok m"
| "assign_required_into (field # rest) m =
     (if fmlookup m (fd_name field) \<noteq> None then assign_required_into rest m
      else if is_required field then Err (missing_required_field (fd_name field))
      else if is_repeated field then assign_required_into rest (fmupd (fd_name field) (ObjList []) m)
      else assign_required_into rest (fmupd (fd_name field) ObjNone m))"

definition finish_message ::
  "proto_defs \<Rightarrow> decoder \<Rightarrow> decode_call \<Rightarrow> msg_def \<Rightarrow> (u16, obj) fmap \<Rightarrow> (obj, py_error) result" where
  "finish_message D d rec msg m =
     and_then (decode_defaults_into D d rec msg m) (\<lambda>m.
     and_then (assign_required_into (md_fields msg) m) (\<lambda>m.
     Ok (alloc_with_capacity msg m)))"

definition message_step :: "proto_defs \<Rightarrow> decoder \<Rightarrow> decode_call \<Rightarrow> decode_call" where
  "message_step D d rec depth msg s =
     (if depth \<ge> MAX_NESTING then Err OutOfRange
      else
        and_then (fst (decode_fields_into D d rec depth msg fmempty s)) (\<lambda>m.
        finish_message D d rec msg m))"

primrec message_from_stream_ex :: "nat \<Rightarrow> proto_defs \<Rightarrow> decoder \<Rightarrow> decode_call" where
  "message_from_stream_ex 0 D d = (\<lambda>depth msg s. Panic)"
| "message_from_stream_ex (Suc n) D d = message_step D d (message_from_stream_ex n D d)"

definition DECODE_FUEL :: nat where "DECODE_FUEL = Suc (unat MAX_NESTING)"

definition message_from_stream :: "proto_defs \<Rightarrow> decoder \<Rightarrow> msg_def \<Rightarrow> input_stream \<Rightarrow> (obj, py_error) result" where
  "message_from_stream D d msg s = message_from_stream_ex DECODE_FUEL D d 0 msg s"

definition message_from_values ::
  "proto_defs \<Rightarrow> decoder \<Rightarrow> (u16 \<times> obj) list \<Rightarrow> msg_def \<Rightarrow> (obj, py_error) result" where
  "message_from_values D d values msg =
     finish_message D d (message_from_stream_ex DECODE_FUEL D d) msg
       (fold (\<lambda>(name, v). fmupd name v) values fmempty)"

definition protobuf_decode ::
  "bool \<Rightarrow> proto_defs \<Rightarrow> bytes \<Rightarrow> msg_def \<Rightarrow> bool \<Rightarrow> (obj, py_error) result" where
  "protobuf_decode checks D buf def experimental =
     (if \<not> experimental \<and> md_is_experimental def then Err experimental_not_enabled
      else message_from_stream D \<lparr>enable_experimental = experimental, overflow_checks = checks\<rparr> def (input_stream_new buf))"

definition msg_def_obj_call :: "bool \<Rightarrow> proto_defs \<Rightarrow> msg_def \<Rightarrow> (u16 \<times> obj) list \<Rightarrow> (obj, py_error) result" where
  "msg_def_obj_call checks D def kwargs =
     message_from_values D \<lparr>enable_experimental = True, overflow_checks = checks\<rparr> kwargs def"

definition protobuf_type_for_name :: "proto_defs \<Rightarrow> u16 \<Rightarrow> (msg_def, py_error) result" where
  "protobuf_type_for_name D name =
     (case msg_def_for_name D name of None \<Rightarrow> Err (KeyError name) | Some def \<Rightarrow> def)"

definition protobuf_type_for_wire :: "proto_defs \<Rightarrow> u16 \<Rightarrow> u16 \<Rightarrow> (msg_def, py_error) result" where
  "protobuf_type_for_wire D enum_name wire_id =
     (case msg_def_for_wire_id D enum_name wire_id of None \<Rightarrow> Err (KeyError wire_id) | Some def \<Rightarrow> def)"

end
