(* ===== verification/Proto_Encode.thy ===== *)
theory Proto_Encode
  imports Proto_Decode
begin

text \<open>
  The encoder, \<open>core/embed/rust/src/protobuf/encode.rs\<close>, and the conversions of Python values that
  it uses, \<open>micropython/obj.rs\<close>, \<open>iter.rs\<close> and \<open>buffer.rs\<close>. The functions of the MicroPython runtime
  that these call are the record \<open>micropython\<close>, an argument; \<open>micropython_ok\<close> states what they do
  with the values that belong into messages. The conversion to 64 bits is the firmware's own,
  \<open>core/embed/upymod/trezorobj.c\<close>.

  Nothing bounds the nesting of messages that Python code builds. The argument \<open>stack\<close> of the
  encoder is the number of nested calls that the stack has room for.
\<close>

section \<open>Conversions\<close>

record micropython =
  mp_obj_is_true :: "obj \<Rightarrow> (bool, py_error) result"
  mp_obj_get_int_maybe :: "obj \<Rightarrow> (int option, py_error) result"
  mp_iterate :: "obj \<Rightarrow> (obj list, py_error) result"
  mp_get_buffer :: "obj \<Rightarrow> bytes option"
  MPZ_DIG_SIZE :: nat

definition micropython_ok :: "micropython \<Rightarrow> bool" where
  "micropython_ok M \<longleftrightarrow>
     (\<forall>b. mp_obj_is_true M (ObjBool b) = Ok b)
     \<and> (\<forall>i. - (2 ^ 31) \<le> i \<and> i < 2 ^ 31 \<longrightarrow> mp_obj_get_int_maybe M (ObjInt i) = Ok (Some i))
     \<and> (\<forall>vs. mp_iterate M (ObjList vs) = Ok vs)
     \<and> (\<forall>b. mp_get_buffer M (ObjBytes b) = Some b \<and> mp_get_buffer M (ObjStr b) = Some b)
     \<and> 0 < MPZ_DIG_SIZE M \<and> MPZ_DIG_SIZE M < 64"

text \<open>The digits of a magnitude, most significant first, and the loop over them.\<close>

function mpz_digits :: "nat \<Rightarrow> nat \<Rightarrow> nat list" where
  "mpz_digits k n = (if n = 0 \<or> k = 0 then [] else mpz_digits k (n div 2 ^ k) @ [n mod 2 ^ k])"
  by pat_completeness auto
termination
  by (relation "measure snd") (auto intro!: div_less_dividend one_less_power)

declare mpz_digits.simps [simp del]

fun mpz_as_ll_loop :: "nat \<Rightarrow> u64 \<Rightarrow> nat list \<Rightarrow> u64 option" where
  "mpz_as_ll_loop k val [] = Some val"
| "mpz_as_ll_loop k val (d # ds) =
     (if val > drop_bit k (NOT 0x8000000000000000) then None
      else mpz_as_ll_loop k (push_bit k val OR of_nat d) ds)"

definition mpz_as_ll_checked :: "nat \<Rightarrow> int \<Rightarrow> int option" where
  "mpz_as_ll_checked k i =
     map_option (\<lambda>val. sint (if i < 0 then - val else val)) (mpz_as_ll_loop k 0 (mpz_digits k (nat \<bar>i\<bar>)))"

definition trezor_obj_get_ll_checked :: "micropython \<Rightarrow> obj \<Rightarrow> int option" where
  "trezor_obj_get_ll_checked M v =
     (case v of
        ObjInt i \<Rightarrow>
          if - (2 ^ 30) \<le> i \<and> i < 2 ^ 30 then Some i else mpz_as_ll_checked (MPZ_DIG_SIZE M) i
      | _ \<Rightarrow> None)"

definition i64_try_from :: "micropython \<Rightarrow> obj \<Rightarrow> (int, py_error) result" where
  "i64_try_from M v = ok_or TypeError (trezor_obj_get_ll_checked M v)"

definition u32_try_from :: "micropython \<Rightarrow> obj \<Rightarrow> (int, py_error) result" where
  "u32_try_from M v = and_then (i64_try_from M v) (\<lambda>i. if 0 \<le> i \<and> i < 2 ^ 32 then Ok i else Err OutOfRange)"

definition u64_try_from :: "micropython \<Rightarrow> obj \<Rightarrow> (int, py_error) result" where
  "u64_try_from M v = and_then (i64_try_from M v) (\<lambda>i. if 0 \<le> i then Ok i else Err OutOfRange)"

definition i32_try_from :: "micropython \<Rightarrow> obj \<Rightarrow> (int, py_error) result" where
  "i32_try_from M v =
     and_then (mp_obj_get_int_maybe M v) (\<lambda>r.
     case r of
       None \<Rightarrow> Err TypeError
     | Some i \<Rightarrow> if - (2 ^ 31) \<le> i \<and> i < 2 ^ 31 then Ok i else Err OutOfRange)"

definition get_buffer :: "micropython \<Rightarrow> obj \<Rightarrow> (bytes, py_error) result" where
  "get_buffer M v = ok_or TypeError (mp_get_buffer M v)"

definition is_list :: "obj \<Rightarrow> bool" where
  "is_list v \<longleftrightarrow> (case v of ObjList _ \<Rightarrow> True | _ \<Rightarrow> False)"

section \<open>One field\<close>

text \<open>The two passes over a list of buffers.\<close>

fun buffers_len :: "micropython \<Rightarrow> obj list \<Rightarrow> (nat, py_error) result" where
  "buffers_len M [] = Ok 0"
| "buffers_len M (v # vs) =
     and_then (get_buffer M v) (\<lambda>b. and_then (buffers_len M vs) (\<lambda>n. Ok (length b + n)))"

fun write_buffers :: "micropython \<Rightarrow> 's output_stream \<Rightarrow> obj list \<Rightarrow> 's \<Rightarrow> (unit, py_error) result \<times> 's" where
  "write_buffers M out [] s = (Ok (), s)"
| "write_buffers M out (v # vs) s =
     and_then_st (get_buffer M v, s) (\<lambda>b s.
     and_then_st (os_write out b s) (\<lambda>_ s. write_buffers M out vs s))"

text \<open>\<open>count\<close> is the first pass over a nested message, with a counter; \<open>rec\<close> is the second one.\<close>

definition encode_field ::
  "micropython \<Rightarrow> 's output_stream \<Rightarrow> (msg_def \<Rightarrow> (u16, obj) fmap \<Rightarrow> (nat, py_error) result)
     \<Rightarrow> (msg_def \<Rightarrow> (u16, obj) fmap \<Rightarrow> 's \<Rightarrow> (unit, py_error) result \<times> 's)
     \<Rightarrow> field_type \<Rightarrow> obj \<Rightarrow> 's \<Rightarrow> (unit, py_error) result \<times> 's" where
  "encode_field M out count rec ty v s =
     (let put_uint = (\<lambda>r. and_then_st (r, s) (\<lambda>i s. write_uvarint out (of_int i) s));
          put_sint = (\<lambda>r. and_then_st (r, s) (\<lambda>i s. write_uvarint out (zigzag_to_unsigned (of_int i)) s));
          put_bytes =
            (if is_list v then
               and_then_st (mp_iterate M v, s) (\<lambda>vs s.
               and_then_st (buffers_len M vs, s) (\<lambda>len s.
               and_then_st (write_uvarint out (of_nat len) s) (\<lambda>_ s.
               and_then_st (mp_iterate M v, s) (\<lambda>vs s. write_buffers M out vs s))))
             else
               and_then_st (get_buffer M v, s) (\<lambda>b s.
               and_then_st (write_uvarint out (of_nat (length b)) s) (\<lambda>_ s. os_write out b s)))
      in case ty of
        UVarInt32 \<Rightarrow> put_uint (u32_try_from M v)
      | FEnum _ \<Rightarrow> put_uint (u32_try_from M v)
      | SVarInt32 \<Rightarrow> put_sint (i32_try_from M v)
      | UVarInt64 \<Rightarrow> put_uint (u64_try_from M v)
      | SVarInt64 \<Rightarrow> put_sint (i64_try_from M v)
      | FBool \<Rightarrow> and_then_st (mp_obj_is_true M v, s) (\<lambda>b s. write_uvarint out (if b then 1 else 0) s)
      | FBytes \<Rightarrow> put_bytes
      | FString \<Rightarrow> put_bytes
      | FMsg msg \<Rightarrow>
          (case v of
             ObjMsg _ _ m \<Rightarrow>
               and_then_st (count msg m, s) (\<lambda>len s.
               and_then_st (write_uvarint out (of_nat len) s) (\<lambda>_ s. rec msg m s))
           | _ \<Rightarrow> (Err TypeError, s)))"

section \<open>Messages\<close>

definition field_key :: "field_type \<Rightarrow> field_def \<Rightarrow> u64" where
  "field_key ty field = push_bit 3 (ucast (fd_tag field)) OR ucast (primitive_type ty)"

text \<open>Elements of a repeated field, each with the key in front of it.\<close>

fun encode_elements ::
  "'s output_stream \<Rightarrow> u64 \<Rightarrow> (obj \<Rightarrow> 's \<Rightarrow> (unit, py_error) result \<times> 's) \<Rightarrow> obj list \<Rightarrow> 's
     \<Rightarrow> (unit, py_error) result \<times> 's" where
  "encode_elements out key put [] s = (Ok (), s)"
| "encode_elements out key put (v # vs) s =
     and_then_st (write_uvarint out key s) (\<lambda>_ s.
     and_then_st (put v s) (\<lambda>_ s. encode_elements out key put vs s))"

text \<open>One round of the loop over the fields of the definition.\<close>

definition encode_one ::
  "micropython \<Rightarrow> proto_defs \<Rightarrow> 's output_stream \<Rightarrow> (msg_def \<Rightarrow> (u16, obj) fmap \<Rightarrow> (nat, py_error) result)
     \<Rightarrow> (msg_def \<Rightarrow> (u16, obj) fmap \<Rightarrow> 's \<Rightarrow> (unit, py_error) result \<times> 's)
     \<Rightarrow> (u16, obj) fmap \<Rightarrow> field_def \<Rightarrow> 's \<Rightarrow> (unit, py_error) result \<times> 's" where
  "encode_one M D out count rec m field s =
     (case fmlookup m (fd_name field) of
        None \<Rightarrow> (Ok (), s)
      | Some v \<Rightarrow>
          if v = ObjNone then (Ok (), s)
          else
            and_then_st (get_type D field, s) (\<lambda>ty s.
            if is_repeated field then
              and_then_st (mp_iterate M v, s) (\<lambda>vs s.
              encode_elements out (field_key ty field) (encode_field M out count rec ty) vs s)
            else
              and_then_st (write_uvarint out (field_key ty field) s) (\<lambda>_ s.
              encode_field M out count rec ty v s)))"

fun encode_fields ::
  "('s \<Rightarrow> (unit, py_error) result \<times> 's) list \<Rightarrow> 's \<Rightarrow> (unit, py_error) result \<times> 's" where
  "encode_fields [] s = (Ok (), s)"
| "encode_fields (put # puts) s = and_then_st (put s) (\<lambda>_ s. encode_fields puts s)"

text \<open>With a counter, both passes over nested messages count.\<close>

primrec count_message ::
  "nat \<Rightarrow> micropython \<Rightarrow> proto_defs \<Rightarrow> msg_def \<Rightarrow> (u16, obj) fmap \<Rightarrow> counter_stream
     \<Rightarrow> (unit, py_error) result \<times> counter_stream" where
  "count_message 0 M D msg m s = (Panic, s)"
| "count_message (Suc stack) M D msg m s =
     encode_fields
       (map (encode_one M D counter_output
               (\<lambda>msg m. let (res, len) = count_message stack M D msg m 0 in map_ok (\<lambda>_. len) res)
               (count_message stack M D) m)
            (md_fields msg)) s"

definition count_from_zero ::
  "nat \<Rightarrow> micropython \<Rightarrow> proto_defs \<Rightarrow> msg_def \<Rightarrow> (u16, obj) fmap \<Rightarrow> (nat, py_error) result" where
  "count_from_zero stack M D msg m = (let (res, len) = count_message stack M D msg m 0 in map_ok (\<lambda>_. len) res)"

primrec encode_message ::
  "nat \<Rightarrow> micropython \<Rightarrow> proto_defs \<Rightarrow> 's output_stream \<Rightarrow> msg_def \<Rightarrow> (u16, obj) fmap \<Rightarrow> 's
     \<Rightarrow> (unit, py_error) result \<times> 's" where
  "encode_message 0 M D out msg m s = (Panic, s)"
| "encode_message (Suc stack) M D out msg m s =
     encode_fields
       (map (encode_one M D out (count_from_zero stack M D) (encode_message stack M D out) m) (md_fields msg)) s"

definition protobuf_len :: "nat \<Rightarrow> micropython \<Rightarrow> proto_defs \<Rightarrow> obj \<Rightarrow> (nat, py_error) result" where
  "protobuf_len stack M D v =
     (case v of
        ObjMsg _ offset m \<Rightarrow> and_then (get_msg D offset) (\<lambda>def. count_from_zero stack M D def m)
      | _ \<Rightarrow> Err TypeError)"

definition protobuf_encode ::
  "nat \<Rightarrow> micropython \<Rightarrow> proto_defs \<Rightarrow> bytes \<Rightarrow> obj \<Rightarrow> (nat, py_error) result \<times> bytes" where
  "protobuf_encode stack M D buf v =
     (case v of
        ObjMsg _ offset m \<Rightarrow>
          (case get_msg D offset of
             Ok def \<Rightarrow>
               let (res, s) = encode_message stack M D buffer_output def m (buffer_stream_new buf)
               in (map_ok (\<lambda>_. bs_pos s) res, bs_buf s)
           | Err e \<Rightarrow> (Err e, buf)
           | Panic \<Rightarrow> (Panic, buf))
      | _ \<Rightarrow> (Err TypeError, buf))"

section \<open>Facts about conversions\<close>

lemma mpz_as_ll_loop_append:
  "mpz_as_ll_loop k val (xs @ ys) =
     (case mpz_as_ll_loop k val xs of None \<Rightarrow> None | Some val \<Rightarrow> mpz_as_ll_loop k val ys)"
  by (induction xs arbitrary: val) simp_all

lemma mpz_loop_digits:
  assumes "0 < k" "k < 64"
  shows "mpz_as_ll_loop k 0 (mpz_digits k n) = (if n < 2 ^ 63 then Some (of_nat n) else None)"
proof (induction n rule: less_induct)
  case (less n)
  show ?case
  proof (cases "n = 0")
    case True
    then show ?thesis by (simp add: mpz_digits.simps)
  next
    case False
    define q r where "q = n div 2 ^ k" and "r = n mod 2 ^ k"
    have "(2 :: nat) ^ 63 = 2 ^ (63 - k) * 2 ^ k" using assms by (simp flip: power_add)
    moreover have "n div 2 ^ k < 2 ^ (63 - k) \<longleftrightarrow> n < 2 ^ (63 - k) * 2 ^ k"
      by (rule div_less_iff_less_mult) simp
    ultimately have q: "q < 2 ^ (63 - k) \<longleftrightarrow> n < 2 ^ 63" by (simp only: q_def)
    have top: "drop_bit k (NOT 0x8000000000000000 :: u64) = mask (63 - k)"
    proof -
      have eq: "NOT 0x8000000000000000 = (mask 63 :: u64)" by (simp add: mask_eq_exp_minus_1)
      show ?thesis unfolding eq by (rule bit_word_eqI) (auto simp: bit_simps)
    qed
    have small: "unat (of_nat q :: u64) = q" if "q < 2 ^ 63"
      using that by (simp add: unat_of_nat)
    have fits: "mask (63 - k) < (of_nat q :: u64) \<longleftrightarrow> \<not> n < 2 ^ 63" if "q < 2 ^ 63"
    proof -
      have "unat (of_nat (mask (63 - k)) :: u64) = mask (63 - k)"
        by (simp only: unsigned_of_nat take_bit_of_mask) (simp add: min_def)
      then have "unat (mask (63 - k) :: u64) = 2 ^ (63 - k) - 1"
        by (simp only: of_nat_mask_eq) (simp add: mask_eq_exp_minus_1)
      moreover have "2 ^ (63 - k) - 1 < q \<longleftrightarrow> \<not> q < 2 ^ (63 - k)"
        using zero_less_power [of "2 :: nat" "63 - k"] by linarith
      ultimately show ?thesis using small [OF that] q by (simp only: word_less_nat_alt)
    qed
    have join: "push_bit k (of_nat q) OR of_nat r = (of_nat n :: u64)"
      by (rule bit_word_eqI) (auto simp: q_def r_def bit_simps drop_bit_eq_div [symmetric] take_bit_eq_mod [symmetric])
    have "q < n" unfolding q_def using False assms by (intro div_less_dividend one_less_power) auto
    then have "mpz_as_ll_loop k 0 (mpz_digits k q) = (if q < 2 ^ 63 then Some (of_nat q) else None)"
      by (rule less)
    moreover have "mpz_digits k n = mpz_digits k q @ [r]"
      using False assms by (subst mpz_digits.simps) (simp add: q_def r_def)
    moreover have "q < 2 ^ 63" if "n < 2 ^ 63" using that \<open>q < n\<close> by linarith
    ultimately show ?thesis using fits join by (auto simp: mpz_as_ll_loop_append top [simplified])
  qed
qed

lemma get_ll_int:
  assumes "micropython_ok M"
  shows "trezor_obj_get_ll_checked M (ObjInt i) = (if \<bar>i\<bar> < 2 ^ 63 then Some i else None)"
proof -
  have k: "0 < MPZ_DIG_SIZE M" "MPZ_DIG_SIZE M < 64" using assms by (simp_all add: micropython_ok_def)
  have lt: "nat \<bar>i\<bar> < 2 ^ 63 \<longleftrightarrow> \<bar>i\<bar> < 2 ^ 63" by (simp add: nat_less_iff)
  have "(if i < 0 then - of_nat (nat \<bar>i\<bar>) else of_nat (nat \<bar>i\<bar>) :: u64) = of_int i" by simp
  moreover have "sint (of_int i :: u64) = i" if "\<bar>i\<bar> < 2 ^ 63"
    using that by (subst sint_sbintrunc') (auto intro!: signed_take_bit_int_eq_self)
  ultimately have "mpz_as_ll_checked (MPZ_DIG_SIZE M) i = (if \<bar>i\<bar> < 2 ^ 63 then Some i else None)"
    unfolding mpz_as_ll_checked_def mpz_loop_digits [OF k] lt by simp
  moreover have "\<bar>i\<bar> < 2 ^ 63" if "- (2 ^ 30) \<le> i \<and> i < 2 ^ 30" using that by auto
  ultimately show ?thesis by (simp add: trezor_obj_get_ll_checked_def)
qed

end
