(* ===== verification/Proto_Format.thy ===== *)
theory Proto_Format
  imports Proto_Encode
begin

text \<open>
  The wire format as a function of the message, \<open>msg_bytes\<close>, and the encoder against it: counting
  and writing agree, and both give this format for every message that has a representation,
  \<open>encodable\<close>. The first argument of both bounds the nesting.
\<close>

section \<open>The format\<close>

fun obj_int :: "obj \<Rightarrow> int" where
  "obj_int (ObjInt i) = i"
| "obj_int _ = 0"

fun obj_bytes :: "obj \<Rightarrow> bytes" where
  "obj_bytes (ObjBytes b) = b"
| "obj_bytes (ObjStr b) = b"
| "obj_bytes (ObjList vs) = concat (map obj_bytes vs)"
| "obj_bytes _ = []"

fun obj_elements :: "obj \<Rightarrow> obj list" where
  "obj_elements (ObjList vs) = vs"
| "obj_elements _ = []"

definition zigzag_code :: "int \<Rightarrow> nat" where
  "zigzag_code i = nat (if 0 \<le> i then 2 * i else - 2 * i - 1)"

definition length_delimited :: "bytes \<Rightarrow> bytes" where
  "length_delimited b = uvarint_bytes (length b) @ b"

definition value_bytes :: "(msg_def \<Rightarrow> (u16, obj) fmap \<Rightarrow> bytes) \<Rightarrow> field_type \<Rightarrow> obj \<Rightarrow> bytes" where
  "value_bytes nested ty v =
     (case ty of
        SVarInt32 \<Rightarrow> uvarint_bytes (zigzag_code (obj_int v))
      | SVarInt64 \<Rightarrow> uvarint_bytes (zigzag_code (obj_int v))
      | FBool \<Rightarrow> uvarint_bytes (if v = ObjBool True then 1 else 0)
      | FBytes \<Rightarrow> length_delimited (obj_bytes v)
      | FString \<Rightarrow> length_delimited (obj_bytes v)
      | FMsg msg \<Rightarrow> length_delimited (nested msg (msg_map v))
      | _ \<Rightarrow> uvarint_bytes (nat (obj_int v)))"

definition key_number :: "field_type \<Rightarrow> field_def \<Rightarrow> nat" where
  "key_number ty f = unat (fd_tag f) * 8 + unat (primitive_type ty)"

definition entry_bytes :: "(msg_def \<Rightarrow> (u16, obj) fmap \<Rightarrow> bytes) \<Rightarrow> field_type \<Rightarrow> field_def \<Rightarrow> obj \<Rightarrow> bytes" where
  "entry_bytes nested ty f v = uvarint_bytes (key_number ty f) @ value_bytes nested ty v"

text \<open>The values of a field that are sent: none, one, or all elements.\<close>

definition sent_values :: "(u16, obj) fmap \<Rightarrow> field_def \<Rightarrow> obj list" where
  "sent_values m f =
     (case fmlookup m (fd_name f) of
        None \<Rightarrow> []
      | Some v \<Rightarrow> if v = ObjNone then [] else if is_repeated f then obj_elements v else [v])"

definition field_bytes :: "(msg_def \<Rightarrow> (u16, obj) fmap \<Rightarrow> bytes) \<Rightarrow> proto_defs \<Rightarrow> (u16, obj) fmap \<Rightarrow> field_def \<Rightarrow> bytes" where
  "field_bytes nested D m f =
     (case get_type D f of
        Ok ty \<Rightarrow> concat (map (entry_bytes nested ty f) (sent_values m f))
      | _ \<Rightarrow> [])"

primrec msg_bytes :: "nat \<Rightarrow> proto_defs \<Rightarrow> msg_def \<Rightarrow> (u16, obj) fmap \<Rightarrow> bytes" where
  "msg_bytes 0 D msg m = []"
| "msg_bytes (Suc k) D msg m = concat (map (field_bytes (msg_bytes k D) D m) (md_fields msg))"

text \<open>Values that have a representation, and messages all of whose values have one.\<close>

fun buffer_like :: "obj \<Rightarrow> bool" where
  "buffer_like (ObjBytes _) = True"
| "buffer_like (ObjStr _) = True"
| "buffer_like _ = False"

definition int_between :: "int \<Rightarrow> int \<Rightarrow> obj \<Rightarrow> bool" where
  "int_between lo hi v \<longleftrightarrow> (case v of ObjInt i \<Rightarrow> lo \<le> i \<and> i < hi | _ \<Rightarrow> False)"

definition bytes_encodable :: "obj \<Rightarrow> bool" where
  "bytes_encodable v \<longleftrightarrow> (buffer_like v \<or> (\<exists>vs. v = ObjList vs \<and> list_all buffer_like vs))
     \<and> length (obj_bytes v) \<le> USIZE_MAX"

definition value_encodable :: "(msg_def \<Rightarrow> (u16, obj) fmap \<Rightarrow> bool) \<Rightarrow> field_type \<Rightarrow> obj \<Rightarrow> bool" where
  "value_encodable nested ty v \<longleftrightarrow>
     (case ty of
        UVarInt32 \<Rightarrow> int_between 0 (2 ^ 32) v
      | FEnum _ \<Rightarrow> int_between 0 (2 ^ 32) v
      | SVarInt32 \<Rightarrow> int_between (- (2 ^ 31)) (2 ^ 31) v
      | UVarInt64 \<Rightarrow> int_between 0 (2 ^ 63) v
      | SVarInt64 \<Rightarrow> int_between (- (2 ^ 63) + 1) (2 ^ 63) v
      | FBool \<Rightarrow> (\<exists>b. v = ObjBool b)
      | FBytes \<Rightarrow> bytes_encodable v
      | FString \<Rightarrow> bytes_encodable v
      | FMsg msg \<Rightarrow> (\<exists>w off m. v = ObjMsg w off m \<and> nested msg m))"

primrec encodable :: "nat \<Rightarrow> proto_defs \<Rightarrow> msg_def \<Rightarrow> (u16, obj) fmap \<Rightarrow> bool" where
  "encodable 0 D msg m = False"
| "encodable (Suc k) D msg m \<longleftrightarrow>
     length (msg_bytes (Suc k) D msg m) \<le> USIZE_MAX
     \<and> (\<forall>f\<in>set (md_fields msg). \<exists>ty. get_type D f = Ok ty
          \<and> (is_repeated f \<longrightarrow> (case fmlookup m (fd_name f) of Some v \<Rightarrow> v = ObjNone \<or> is_list v | None \<Rightarrow> True))
          \<and> list_all (value_encodable (encodable k D) ty) (sent_values m f))"

section \<open>Counting and writing\<close>

lemma USIZE_MAX_u64: "n \<le> USIZE_MAX \<Longrightarrow> unat (of_nat n :: u64) = n"
  by (simp add: USIZE_MAX_def unat_of_nat)

lemma unat_of_int_u64: "0 \<le> i \<Longrightarrow> i < 2 ^ 64 \<Longrightarrow> unat (of_int i :: u64) = nat i"
  by (simp add: unsigned_of_int take_bit_int_eq_self)

lemma sint_of_int_u64:
  assumes "- (2 ^ 63) \<le> i" "i < 2 ^ 63"
  shows "sint (of_int i :: u64) = i"
  using assms by (subst sint_sbintrunc') (auto intro!: signed_take_bit_int_eq_self)

lemma unat_zigzag:
  assumes "- (2 ^ 63) \<le> i" "i < 2 ^ 63"
  shows "unat (zigzag_to_unsigned (of_int i)) = zigzag_code i"
proof -
  have "uint (zigzag_to_unsigned (of_int i)) = (if 0 \<le> i then 2 * i else - 2 * i - 1)"
    by (simp only: zigzag_value sint_of_int_u64 [OF assms])
  then show ?thesis by (simp only: zigzag_code_def flip: nat_uint_eq)
qed

lemma unat_ucast_u8: "unat (ucast (b :: u8) :: u64) = unat b"
  using unsigned_less [of b, where ?'a = nat] by (simp add: unsigned_ucast_eq take_bit_nat_eq_self)

lemma unat_field_key: "unat (field_key ty f) = key_number ty f"
proof -
  have p: "unat (ucast (primitive_type ty) :: u64) < 8" by (cases ty) (simp_all add: primitive_types)
  have t: "unat (fd_tag f) < 256" using unsigned_less [of "fd_tag f", where ?'a = nat] by simp
  have "push_bit 3 (ucast (fd_tag f)) AND (ucast (primitive_type ty) :: u64) = 0"
    by (cases ty) (auto simp: primitive_types intro!: bit_word_eqI simp: bit_simps)
  then have "field_key ty f = push_bit 3 (ucast (fd_tag f)) + ucast (primitive_type ty)"
    using word_plus_and_or [of "push_bit 3 (ucast (fd_tag f))" "ucast (primitive_type ty) :: u64"]
    by (simp only: field_key_def) simp
  moreover have "unat (push_bit 3 (ucast (fd_tag f) :: u64)) = unat (fd_tag f) * 8"
    using t push_bits_unat [of "ucast (fd_tag f)" 3] by (simp add: unat_ucast_u8)
  ultimately show ?thesis using p t
    by (simp add: unat_word_ariths key_number_def unat_ucast_u8)
qed

lemma count_message_eq: "count_message stack M D = encode_message stack M D counter_output"
proof (induction stack)
  case (Suc stack)
  have "count_from_zero stack M D = (\<lambda>msg m. let (res, len) = count_message stack M D msg m 0 in map_ok (\<lambda>_. len) res)"
    by (intro ext) (simp add: count_from_zero_def)
  then show ?case using Suc by (intro ext) simp
qed (intro ext, simp)

lemma buffers_len_ok:
  assumes "micropython_ok M" "list_all buffer_like vs"
  shows "buffers_len M vs = Ok (length (concat (map obj_bytes vs)))"
  using assms(2)
proof (induction vs)
  case (Cons v vs)
  have "get_buffer M v = Ok (obj_bytes v)"
    using assms(1) Cons.prems by (cases v) (simp_all add: get_buffer_def micropython_ok_def)
  then show ?case using Cons by simp
qed simp

lemma int_betweenE:
  assumes "int_between lo hi v"
  obtains i where "v = ObjInt i" "lo \<le> i" "i < hi"
  using assms by (cases v) (auto simp: int_between_def)

lemma int_conversions:
  assumes "micropython_ok M"
  shows "int_between 0 (2 ^ 32) v \<Longrightarrow> u32_try_from M v = Ok (obj_int v)"
    and "int_between 0 (2 ^ 63) v \<Longrightarrow> u64_try_from M v = Ok (obj_int v)"
    and "int_between (- (2 ^ 63) + 1) (2 ^ 63) v \<Longrightarrow> i64_try_from M v = Ok (obj_int v)"
    and "int_between (- (2 ^ 31)) (2 ^ 31) v \<Longrightarrow> i32_try_from M v = Ok (obj_int v)"
  using assms
  by (auto elim!: int_betweenE simp: u32_try_from_def u64_try_from_def i64_try_from_def i32_try_from_def
      get_ll_int [OF assms] micropython_ok_def)

lemma between_unat: "int_between 0 hi v \<Longrightarrow> hi \<le> 2 ^ 64 \<Longrightarrow> unat (of_int (obj_int v) :: u64) = nat (obj_int v)"
  by (auto elim!: int_betweenE intro!: unat_of_int_u64)

lemma between_zigzag:
  "int_between lo hi v \<Longrightarrow> - (2 ^ 63) \<le> lo \<Longrightarrow> hi \<le> 2 ^ 63 \<Longrightarrow>
     unat (zigzag_to_unsigned (of_int (obj_int v))) = zigzag_code (obj_int v)"
  by (auto elim!: int_betweenE intro!: unat_zigzag)

lemma encode_scalar:
  assumes "micropython_ok M"
  shows "int_between 0 (2 ^ 32) v \<Longrightarrow> encode_field M out count rec UVarInt32 v = write_uvarint out (of_int (obj_int v))"
    and "int_between 0 (2 ^ 32) v \<Longrightarrow> encode_field M out count rec (FEnum e) v = write_uvarint out (of_int (obj_int v))"
    and "int_between 0 (2 ^ 63) v \<Longrightarrow> encode_field M out count rec UVarInt64 v = write_uvarint out (of_int (obj_int v))"
    and "int_between (- (2 ^ 31)) (2 ^ 31) v \<Longrightarrow>
      encode_field M out count rec SVarInt32 v = write_uvarint out (zigzag_to_unsigned (of_int (obj_int v)))"
    and "int_between (- (2 ^ 63) + 1) (2 ^ 63) v \<Longrightarrow>
      encode_field M out count rec SVarInt64 v = write_uvarint out (zigzag_to_unsigned (of_int (obj_int v)))"
    and "encode_field M out count rec FBool (ObjBool b) = write_uvarint out (if b then 1 else 0)"
  using assms
  by (intro ext; simp add: encode_field_def Let_def int_conversions [OF assms]; simp add: micropython_ok_def)+

context byte_sink
begin

lemma writes_cong: "writes m bs \<Longrightarrow> (\<And>s. m' s = m s) \<Longrightarrow> writes m' bs"
  by (simp add: writes_def)

lemma writes_uvarint_nat: "unat v = n \<Longrightarrow> writes (write_uvarint out v) (uvarint_bytes n)"
  using writes_uvarint by blast

lemma writes_buffers:
  assumes "micropython_ok M" "list_all buffer_like vs"
  shows "writes (write_buffers M out vs) (concat (map obj_bytes vs))"
  using assms(2)
proof (induction vs)
  case Nil
  then show ?case by (simp add: writes_nothing writes_cong)
next
  case (Cons v vs)
  have "get_buffer M v = Ok (obj_bytes v)"
    using assms(1) Cons.prems by (cases v) (simp_all add: get_buffer_def micropython_ok_def)
  then show ?case
    using writes_then [OF writes_write, of "write_buffers M out vs" _ "obj_bytes v"] Cons
    by (auto intro: writes_cong)
qed

text \<open>One value, given that nested messages are counted and written as they should be.\<close>

lemma writes_value:
  fixes nested :: "msg_def \<Rightarrow> (u16, obj) fmap \<Rightarrow> bytes"
  assumes M: "micropython_ok M" and v: "value_encodable ok ty v"
    and count: "\<And>msg m. ok msg m \<Longrightarrow> count msg m = Ok (length (nested msg m)) \<and> length (nested msg m) \<le> USIZE_MAX"
    and rec: "\<And>msg m. ok msg m \<Longrightarrow> writes (rec msg m) (nested msg m)"
  shows "writes (encode_field M out count rec ty v) (value_bytes nested ty v)"
proof -
  have delimited: "writes (\<lambda>s. and_then_st (write_uvarint out (of_nat (length b)) s) (\<lambda>_. k)) (length_delimited b)"
    if "writes k b" "length b \<le> USIZE_MAX" for k b
    unfolding length_delimited_def using that by (intro writes_then writes_uvarint_nat USIZE_MAX_u64)
  have buffers: "writes (encode_field M out count rec t v) (length_delimited (obj_bytes v))"
    if t: "t = FBytes \<or> t = FString" and b: "bytes_encodable v" for t
  proof (cases "is_list v")
    case True
    then obtain vs where vs: "v = ObjList vs" "list_all buffer_like vs"
      using b by (cases v) (auto simp: is_list_def bytes_encodable_def)
    have "writes (\<lambda>s. and_then_st (write_uvarint out (of_nat (length (obj_bytes v))) s) (\<lambda>_. write_buffers M out vs))
        (length_delimited (obj_bytes v))"
      using writes_buffers [OF M vs(2)] b vs(1) by (intro delimited) (simp_all add: bytes_encodable_def)
    then show ?thesis
      using t M vs by (auto simp: encode_field_def is_list_def Let_def micropython_ok_def buffers_len_ok intro: writes_cong)
  next
    case False
    then have "get_buffer M v = Ok (obj_bytes v)"
      using b M by (cases v) (auto simp: is_list_def bytes_encodable_def get_buffer_def micropython_ok_def)
    then show ?thesis
      using t False delimited [OF writes_write, of "obj_bytes v"] b
      by (auto simp: encode_field_def Let_def bytes_encodable_def intro: writes_cong)
  qed
  show ?thesis
  proof (cases ty)
    case (FMsg msg)
    then obtain w off m where m: "v = ObjMsg w off m" "ok msg m" using v by (auto simp: value_encodable_def)
    then show ?thesis using FMsg count [OF m(2)] delimited [OF rec [OF m(2)]]
      by (auto simp: encode_field_def value_bytes_def Let_def intro: writes_cong)
  next
    case FBool
    then obtain b where b: "v = ObjBool b" using v by (auto simp: value_encodable_def)
    have "writes (write_uvarint out (if b then 1 else 0)) (uvarint_bytes (if b then 1 else 0))"
      by (rule writes_uvarint_nat) simp
    then show ?thesis using FBool b by (simp add: value_bytes_def encode_scalar [OF M] del: uvarint_bytes_small)
  qed (use v buffers in \<open>auto simp: value_encodable_def value_bytes_def encode_scalar [OF M]
      intro!: writes_uvarint_nat intro: between_unat between_zigzag\<close>)
qed

lemma writes_elements:
  assumes "\<And>v. v \<in> set vs \<Longrightarrow> writes (put v) (bytes v)" "unat key = n"
  shows "writes (encode_elements out key put vs) (concat (map (\<lambda>v. uvarint_bytes n @ bytes v) vs))"
  using assms(1)
proof (induction vs)
  case Nil
  then show ?case by (simp add: writes_nothing writes_cong)
next
  case (Cons v vs)
  have "writes (\<lambda>s. and_then_st (write_uvarint out key s) (\<lambda>_ s. and_then_st (put v s) (\<lambda>_. encode_elements out key put vs)))
      (uvarint_bytes n @ bytes v @ concat (map (\<lambda>v. uvarint_bytes n @ bytes v) vs))"
    using Cons assms(2) by (intro writes_then writes_uvarint_nat) simp_all
  then show ?case by (auto intro: writes_cong)
qed

lemma writes_field:
  fixes nested :: "msg_def \<Rightarrow> (u16, obj) fmap \<Rightarrow> bytes"
  assumes M: "micropython_ok M" and ty: "get_type D f = Ok ty"
    and list: "is_repeated f \<Longrightarrow> (case fmlookup m (fd_name f) of Some v \<Rightarrow> v = ObjNone \<or> is_list v | None \<Rightarrow> True)"
    and v: "\<And>v. v \<in> set (sent_values m f) \<Longrightarrow> writes (encode_field M out count rec ty v) (value_bytes nested ty v)"
  shows "writes (encode_one M D out count rec m f) (field_bytes nested D m f)"
proof (cases "fmlookup m (fd_name f)")
  case None
  then have "encode_one M D out count rec m f = (\<lambda>s. (Ok (), s))" by (intro ext) (simp add: encode_one_def)
  then show ?thesis using None ty writes_nothing by (simp add: field_bytes_def sent_values_def)
next
  case (Some w)
  show ?thesis
  proof (cases "w = ObjNone")
    case True
    then have "encode_one M D out count rec m f = (\<lambda>s. (Ok (), s))" using Some by (intro ext) (simp add: encode_one_def)
    then show ?thesis using Some True ty writes_nothing by (simp add: field_bytes_def sent_values_def)
  next
    case False
    show ?thesis
    proof (cases "is_repeated f")
      case True
      then obtain vs where vs: "w = ObjList vs" using list Some False by (cases w) (auto simp: is_list_def)
      have "writes (encode_elements out (field_key ty f) (encode_field M out count rec ty) vs)
          (concat (map (\<lambda>v. uvarint_bytes (key_number ty f) @ value_bytes nested ty v) vs))"
        using v Some vs True by (intro writes_elements unat_field_key) (simp_all add: sent_values_def)
      then show ?thesis using Some vs True ty M
        by (auto simp: encode_one_def field_bytes_def sent_values_def entry_bytes_def [abs_def] micropython_ok_def
            intro: writes_cong)
    next
      case not_repeated: False
      have "writes (\<lambda>s. and_then_st (write_uvarint out (field_key ty f) s) (\<lambda>_. encode_field M out count rec ty w))
          (uvarint_bytes (key_number ty f) @ value_bytes nested ty w)"
        using v Some False not_repeated by (intro writes_then writes_uvarint_nat unat_field_key) (simp add: sent_values_def)
      then show ?thesis using Some False not_repeated ty
        by (auto simp: encode_one_def field_bytes_def sent_values_def entry_bytes_def intro: writes_cong)
    qed
  qed
qed

lemma writes_fields:
  "(\<And>f. f \<in> set fs \<Longrightarrow> writes (put f) (bytes f)) \<Longrightarrow> writes (encode_fields (map put fs)) (concat (map bytes fs))"
proof (induction fs)
  case Nil
  then show ?case by (simp add: writes_nothing writes_cong)
next
  case (Cons f fs)
  have "writes (\<lambda>s. and_then_st (put f s) (\<lambda>_. encode_fields (map put fs))) (bytes f @ concat (map bytes fs))"
    using Cons by (intro writes_then) simp_all
  then show ?case by (auto intro: writes_cong)
qed

lemma writes_message_step:
  assumes M: "micropython_ok M" and ok: "encodable (Suc k) D msg m"
    and count: "\<And>msg m. encodable k D msg m \<Longrightarrow> count_from_zero stack M D msg m = Ok (length (msg_bytes k D msg m))"
    and rec: "\<And>msg m. encodable k D msg m \<Longrightarrow> writes (encode_message stack M D out msg m) (msg_bytes k D msg m)"
  shows "writes (encode_message (Suc stack) M D out msg m) (msg_bytes (Suc k) D msg m)"
proof -
  have len: "length (msg_bytes k D msg m) \<le> USIZE_MAX" if "encodable k D msg m" for msg m
    using that by (cases k) simp_all
  have "writes (encode_one M D out (count_from_zero stack M D) (encode_message stack M D out) m f)
      (field_bytes (msg_bytes k D) D m f)" if f: "f \<in> set (md_fields msg)" for f
  proof -
    obtain ty where ty: "get_type D f = Ok ty"
      "is_repeated f \<Longrightarrow> (case fmlookup m (fd_name f) of Some v \<Rightarrow> v = ObjNone \<or> is_list v | None \<Rightarrow> True)"
      "list_all (value_encodable (encodable k D) ty) (sent_values m f)"
      using ok f by auto
    show ?thesis
      using ty by (intro writes_field [OF M ty(1,2)] writes_value [OF M _ _ rec]) (auto simp: list_all_iff count len)
  qed
  then have "writes (encode_fields (map (encode_one M D out (count_from_zero stack M D) (encode_message stack M D out) m)
      (md_fields msg))) (msg_bytes (Suc k) D msg m)"
    unfolding msg_bytes.simps by (rule writes_fields)
  then show ?thesis by (auto intro: writes_cong)
qed

end

lemma count_from_zero_eq: "count_from_zero stack M D msg m =
  (case encode_message stack M D counter_output msg m 0 of (res, len) \<Rightarrow> map_ok (\<lambda>_. len) res)"
  by (simp add: count_from_zero_def count_message_eq)

lemma count_writes:
  assumes "counter.writes (encode_message stack M D counter_output msg m) bs"
  shows "count_from_zero stack M D msg m = Ok (length bs)"
  using assms by (simp add: counter.writes_def count_from_zero_eq)

lemma count_message_ok:
  assumes "micropython_ok M"
  shows "encodable k D msg m \<Longrightarrow> k \<le> stack \<Longrightarrow>
    counter.writes (encode_message stack M D counter_output msg m) (msg_bytes k D msg m)"
proof (induction k arbitrary: stack msg m)
  case (Suc k)
  then obtain st where st: "stack = Suc st" "k \<le> st" by (cases stack) auto
  show ?case unfolding st(1)
    by (rule counter.writes_message_step [OF assms Suc.prems(1)]) (use Suc.IH st in \<open>auto intro: count_writes\<close>)
qed simp

context byte_sink
begin

lemma writes_message:
  assumes "micropython_ok M"
  shows "encodable k D msg m \<Longrightarrow> k \<le> stack \<Longrightarrow> writes (encode_message stack M D out msg m) (msg_bytes k D msg m)"
proof (induction k arbitrary: stack msg m)
  case (Suc k)
  then obtain st where st: "stack = Suc st" "k \<le> st" by (cases stack) auto
  show ?case unfolding st(1)
    by (rule writes_message_step [OF assms Suc.prems(1)])
      (use Suc.IH st count_message_ok [OF assms] in \<open>auto intro: count_writes\<close>)
qed simp

end

lemma protobuf_len_bytes:
  assumes "micropython_ok M" "get_msg D off = Ok msg" "encodable k D msg m" "k \<le> stack"
  shows "protobuf_len stack M D (ObjMsg w off m) = Ok (length (msg_bytes k D msg m))"
  using count_writes [OF count_message_ok [OF assms(1,3,4)]] assms(2) by (simp add: protobuf_len_def)

lemma protobuf_encode_bytes:
  assumes "micropython_ok M" "get_msg D off = Ok msg" "encodable k D msg m" "k \<le> stack"
  shows "length (msg_bytes k D msg m) \<le> length buf \<Longrightarrow> protobuf_encode stack M D buf (ObjMsg w off m) =
      (Ok (length (msg_bytes k D msg m)), msg_bytes k D msg m @ drop (length (msg_bytes k D msg m)) buf)"
    and "length buf < length (msg_bytes k D msg m) \<Longrightarrow>
      fst (protobuf_encode stack M D buf (ObjMsg w off m)) = Err EOFError"
proof -
  have "buffer.writes (encode_message stack M D buffer_output msg m) (msg_bytes k D msg m)"
    by (rule buffer.writes_message [OF assms(1,3,4)])
  then have run: "if buffer_room (msg_bytes k D msg m) (buffer_stream_new buf)
      then encode_message stack M D buffer_output msg m (buffer_stream_new buf)
        = (Ok (), buffer_append (buffer_stream_new buf) (msg_bytes k D msg m))
      else fst (encode_message stack M D buffer_output msg m (buffer_stream_new buf)) = Err EOFError"
    by (simp add: buffer.writes_def buffer_wf_def buffer_stream_new_def)
  show "length (msg_bytes k D msg m) \<le> length buf \<Longrightarrow> protobuf_encode stack M D buf (ObjMsg w off m) =
      (Ok (length (msg_bytes k D msg m)), msg_bytes k D msg m @ drop (length (msg_bytes k D msg m)) buf)"
    using run assms(2)
    by (simp add: protobuf_encode_def buffer_room_def buffer_stream_new_def buffer_append_def Let_def)
  show "length buf < length (msg_bytes k D msg m) \<Longrightarrow>
      fst (protobuf_encode stack M D buf (ObjMsg w off m)) = Err EOFError"
    using run assms(2)
    by (auto simp: protobuf_encode_def buffer_room_def buffer_stream_new_def Let_def split: prod.split)
qed

text \<open>
  C17. Encoding in two passes is exact: for every message that has a representation, the length that
  the first pass counts is the length of its wire format, and the second pass writes exactly
  these bytes to the front of the buffer and leaves the rest of it alone, or reports that the
  buffer is too short.
\<close>

theorem encode_exact:
  assumes "micropython_ok M" "get_msg D off = Ok msg" "encodable k D msg m" "k \<le> stack"
  shows "protobuf_len stack M D (ObjMsg w off m) = Ok (length (msg_bytes k D msg m))
    \<and> (let n = length (msg_bytes k D msg m); (res, buf') = protobuf_encode stack M D buf (ObjMsg w off m) in
        if n \<le> length buf then res = Ok n \<and> buf' = msg_bytes k D msg m @ drop n buf else res = Err EOFError)"
  using protobuf_len_bytes [OF assms] protobuf_encode_bytes [OF assms, of buf w]
  by (cases "length (msg_bytes k D msg m) \<le> length buf") (auto simp: Let_def not_le split: prod.split)

end
