(* ===== verification/Proto_Typed.thy ===== *)
theory Proto_Typed
  imports Proto_Format
begin

text \<open>
  What the decoder guarantees: for definitions of the form that the generator of the tables
  produces, \<open>defs_ok\<close>, it returns on every input, never panics, and what it returns is well-typed,
  \<open>msg_typed\<close>: every field of the definition is there, with a value of its type.
\<close>

section \<open>Well-formed definitions\<close>

text \<open>
  Default values: a tag and a value each, for singular fields that are not messages. This is what
  the generator writes; it refuses defaults of other fields.
\<close>

definition default_payload :: "field_type \<Rightarrow> bytes \<Rightarrow> bool" where
  "default_payload ty bs \<longleftrightarrow>
     (if primitive_type ty = PRIMITIVE_TYPE_VARINT then \<exists>n::u64. bs = uvarint_bytes (unat n)
      else (\<exists>b. bs = length_delimited b) \<and> (\<forall>msg. ty \<noteq> FMsg msg))"

definition default_entry_ok :: "proto_defs \<Rightarrow> msg_def \<Rightarrow> u8 \<times> bytes \<Rightarrow> bool" where
  "default_entry_ok D msg e \<longleftrightarrow>
     (case e of (tag, bs) \<Rightarrow>
        \<exists>f ty. msg_field msg tag = Some f \<and> \<not> is_repeated f \<and> get_type D f = Ok ty \<and> default_payload ty bs)"

definition default_entries :: "(u8 \<times> bytes) list \<Rightarrow> bytes" where
  "default_entries ds = concat (map (\<lambda>(tag, bs). tag # bs) ds)"

definition defaults_ok :: "proto_defs \<Rightarrow> msg_def \<Rightarrow> bool" where
  "defaults_ok D msg \<longleftrightarrow> (\<exists>ds. md_defaults msg = default_entries ds \<and> list_all (default_entry_ok D msg) ds)"

text \<open>
  Definitions that are closed under the messages they mention, starting from the offsets \<open>S\<close>:
  every type can be read, the tags and the names of the fields of a message are different, and a
  field is not both required and repeated.
\<close>

definition msg_ok :: "proto_defs \<Rightarrow> u16 list \<Rightarrow> msg_def \<Rightarrow> bool" where
  "msg_ok D S msg \<longleftrightarrow> distinct (map fd_tag (md_fields msg)) \<and> distinct (map fd_name (md_fields msg))
     \<and> (\<forall>f\<in>set (md_fields msg). \<not> (is_required f \<and> is_repeated f)
          \<and> (\<exists>ty. get_type D f = Ok ty \<and> ((\<exists>m. ty = FMsg m) \<longrightarrow> enum_or_msg_offset f \<in> set S)))
     \<and> defaults_ok D msg"

definition defs_ok :: "proto_defs \<Rightarrow> u16 list \<Rightarrow> bool" where
  "defs_ok D S \<longleftrightarrow> (\<forall>off\<in>set S. \<exists>msg. get_msg D off = Ok msg \<and> msg_ok D S msg)"

lemma defs_okD: "defs_ok D S \<Longrightarrow> off \<in> set S \<Longrightarrow> get_msg D off = Ok msg \<Longrightarrow> msg_ok D S msg"
  by (auto simp: defs_ok_def)

lemma get_msg_defaults: "get_msg D off = Ok msg \<Longrightarrow> length (md_defaults msg) \<le> USIZE_MAX"
proof -
  have "unat (n :: u8) \<le> USIZE_MAX" for n
    using unsigned_less [of n, where ?'a = nat] by (simp add: USIZE_MAX_def)
  then show "get_msg D off = Ok msg \<Longrightarrow> length (md_defaults msg) \<le> USIZE_MAX"
    by (auto simp: get_msg_def Let_def min_def split: list.splits if_splits intro: le_trans)
qed

section \<open>Types of values\<close>

definition value_typed :: "(msg_def \<Rightarrow> (u16, obj) fmap \<Rightarrow> bool) \<Rightarrow> field_type \<Rightarrow> obj \<Rightarrow> bool" where
  "value_typed nested ty v \<longleftrightarrow>
     (case ty of
        UVarInt32 \<Rightarrow> int_between 0 (2 ^ 32) v
      | SVarInt32 \<Rightarrow> int_between (- (2 ^ 31)) (2 ^ 31) v
      | UVarInt64 \<Rightarrow> int_between 0 (2 ^ 64) v
      | SVarInt64 \<Rightarrow> int_between (- (2 ^ 63)) (2 ^ 63) v
      | FBool \<Rightarrow> (\<exists>b. v = ObjBool b)
      | FBytes \<Rightarrow> (\<exists>b. v = ObjBytes b)
      | FString \<Rightarrow> (\<exists>b. v = ObjStr b \<and> utf8_valid b)
      | FEnum e \<Rightarrow> (\<exists>x\<in>set (ed_values e). v = ObjInt (uint x))
      | FMsg msg \<Rightarrow> (\<exists>m. v = alloc_with_capacity msg m \<and> nested msg m))"

definition field_typed :: "(msg_def \<Rightarrow> (u16, obj) fmap \<Rightarrow> bool) \<Rightarrow> proto_defs \<Rightarrow> field_def \<Rightarrow> obj \<Rightarrow> bool" where
  "field_typed nested D f v \<longleftrightarrow>
     (\<exists>ty. get_type D f = Ok ty
        \<and> (if is_repeated f then \<exists>vs. v = ObjList vs \<and> list_all (value_typed nested ty) vs else value_typed nested ty v))"

text \<open>A message in the making, where fields may be missing, and a complete one.\<close>

definition partial_typed :: "(msg_def \<Rightarrow> (u16, obj) fmap \<Rightarrow> bool) \<Rightarrow> proto_defs \<Rightarrow> msg_def \<Rightarrow> (u16, obj) fmap \<Rightarrow> bool" where
  "partial_typed nested D msg m \<longleftrightarrow>
     (\<forall>name v. fmlookup m name = Some v \<longrightarrow> (\<exists>f\<in>set (md_fields msg). fd_name f = name \<and> field_typed nested D f v))"

primrec msg_typed :: "nat \<Rightarrow> proto_defs \<Rightarrow> msg_def \<Rightarrow> (u16, obj) fmap \<Rightarrow> bool" where
  "msg_typed 0 D msg m = False"
| "msg_typed (Suc k) D msg m \<longleftrightarrow>
     fmdom' m = fd_name ` set (md_fields msg)
     \<and> (\<forall>f\<in>set (md_fields msg). \<forall>v. fmlookup m (fd_name f) = Some v \<longrightarrow>
          v = ObjNone \<and> \<not> is_required f \<and> \<not> is_repeated f \<or> field_typed (msg_typed k D) D f v)"

section \<open>Single values\<close>

lemma read_uvarint_no_panic [simp]: "fst (read_uvarint s) \<noteq> Panic"
proof -
  have "fst (read_uvarint_loop acc shift s) \<noteq> Panic" for acc shift
  proof (induction "stream_rest s" arbitrary: acc shift s)
    case Nil
    then show ?case by (simp add: read_uvarint_loop_Nil)
  next
    case (Cons b r)
    have "fst (read_uvarint_loop acc' shift' (advance 1 s)) \<noteq> Panic" for acc' shift'
      by (rule Cons(1)) (simp flip: Cons(2))
    then show ?case by (simp add: read_uvarint_loop_Cons [OF Cons(2) [symmetric]] Let_def)
  qed
  then show ?thesis by (simp add: read_uvarint_def)
qed

text \<open>Calls that do not panic.\<close>

definition returns :: "('a, 'e) result \<times> 's \<Rightarrow> bool" where
  "returns m \<longleftrightarrow> fst m \<noteq> Panic"

lemma returns_pair [simp]: "returns (r, s) \<longleftrightarrow> r \<noteq> Panic"
  by (simp add: returns_def)

lemma returns_io [simp]: "returns (io m) \<longleftrightarrow> returns m"
  by (simp add: returns_def)

lemma returns_read_uvarint [simp]: "returns (read_uvarint s)"
  by (simp add: returns_def)

lemma returns_bind [intro!]:
  "returns m \<Longrightarrow> (\<And>x s. m = (Ok x, s) \<Longrightarrow> returns (f x s)) \<Longrightarrow> returns (and_then_st m f)"
  by (cases m; cases "fst m") (auto simp: returns_def)

lemma returns_stream_read [simp]: "\<not> checks \<Longrightarrow> returns (stream_read checks n s)"
  by (simp add: returns_def stream_read_no_panic)

lemma returns_length_delimited [simp]: "\<not> overflow_checks d \<Longrightarrow> returns (read_length_delimited d n s)"
  by (auto simp: read_length_delimited_def to_usize_def)

lemma returns_skip_field [simp]: "\<not> overflow_checks d \<Longrightarrow> returns (skip_field d p s)"
  by (auto simp: skip_field_def)

lemma returns_decode_value:
  assumes "\<not> overflow_checks d" "\<And>msg s. ty = FMsg msg \<Longrightarrow> rec (depth + 1) msg s \<noteq> Panic"
  shows "returns (decode_value d rec depth name ty num s)"
  using assms by (cases ty) (auto simp: decode_value_def Let_def)

lemma uint_less_numeral: "unat (w :: 'a::len word) < numeral n \<Longrightarrow> uint w < numeral n"
  by (metis of_nat_less_iff of_nat_numeral uint_nat)

lemma decode_value_typed:
  assumes "decode_value d rec depth name ty num s = (Ok v, s')"
    and "\<And>msg s v. ty = FMsg msg \<Longrightarrow> rec (depth + 1) msg s = Ok v \<Longrightarrow> value_typed nested (FMsg msg) v"
  shows "value_typed nested ty v"
proof (cases ty)
  case (FEnum e)
  then have "unat num < 2 ^ 16" "ucast num \<in> set (ed_values e)" "v = ObjInt (uint num)"
    using assms(1) by (auto simp: decode_value_def split: if_splits)
  moreover have "uint (ucast num :: u16) = uint num" if "unat num < 2 ^ 16"
    using uint_less_numeral [of num] that by (simp add: unsigned_ucast_eq take_bit_int_eq_self)
  ultimately show ?thesis using FEnum by (auto simp: value_typed_def intro!: bexI [of _ "ucast num"])
next
  case UVarInt64
  then show ?thesis using assms(1) unsigned_less [of num, where ?'a = int]
    by (auto simp: decode_value_def value_typed_def int_between_def)
next
  case SVarInt64
  then show ?thesis using assms(1) sint_ge [of "zigzag_to_signed num"] sint_lt [of "zigzag_to_signed num"]
    by (auto simp: decode_value_def value_typed_def int_between_def)
next
  case UVarInt32
  then show ?thesis using assms(1) uint_less_numeral [of num]
    by (auto simp: decode_value_def value_typed_def int_between_def split: if_splits)
qed (use assms in \<open>auto simp: decode_value_def value_typed_def int_between_def and_then_st_eq_Ok Let_def
    split: if_splits\<close>)

section \<open>Fields\<close>

text \<open>The recursive call does what it should on messages of the definitions, one level down.\<close>

definition call_ok :: "proto_defs \<Rightarrow> u16 list \<Rightarrow> (msg_def \<Rightarrow> (u16, obj) fmap \<Rightarrow> bool) \<Rightarrow> (msg_def \<Rightarrow> input_stream \<Rightarrow> (obj, py_error) result) \<Rightarrow> bool" where
  "call_ok D S nested call \<longleftrightarrow>
     (\<forall>off\<in>set S. \<forall>msg s. get_msg D off = Ok msg \<longrightarrow>
        call msg s \<noteq> Panic \<and> (\<forall>v. call msg s = Ok v \<longrightarrow> value_typed nested (FMsg msg) v))"

lemma call_okD:
  assumes "call_ok D S nested call" "get_type D f = Ok (FMsg msg)" "enum_or_msg_offset f \<in> set S"
  shows "call msg s \<noteq> Panic" "call msg s = Ok v \<Longrightarrow> value_typed nested (FMsg msg) v"
  using assms get_type_msg [OF assms(2)] by (auto simp: call_ok_def)

lemma decode_field_ok:
  assumes "\<not> overflow_checks d" "msg_ok D S msg" "f \<in> set (md_fields msg)" "call_ok D S nested (rec (depth + 1))"
  shows "returns (decode_field D d rec depth f s)"
    and "decode_field D d rec depth f s = (Ok v, s') \<Longrightarrow> get_type D f = Ok ty \<Longrightarrow> value_typed nested ty v"
proof -
  obtain ty where ty: "get_type D f = Ok ty" "(\<exists>m. ty = FMsg m) \<longrightarrow> enum_or_msg_offset f \<in> set S"
    using assms(2,3) by (auto simp: msg_ok_def)
  have "rec (depth + 1) m s \<noteq> Panic" if "ty = FMsg m" for m s
    using call_okD(1) [OF assms(4)] ty that by blast
  then show "returns (decode_field D d rec depth f s)"
    using assms(1) ty(1) by (auto simp: decode_field_def intro: returns_decode_value)
  have typed: "value_typed nested ty v" if "decode_value d rec depth name ty num t = (Ok v, t')" for name num t t'
    using call_okD(2) [OF assms(4)] ty by (intro decode_value_typed [OF that]) blast
  show "value_typed nested ty' v" if "decode_field D d rec depth f s = (Ok v, s')" "get_type D f = Ok ty'" for ty'
    using that ty(1) typed by (auto simp: decode_field_def and_then_st_eq_Ok split: if_splits)
qed

lemma find_key: "distinct (map key xs) \<Longrightarrow> x \<in> set xs \<Longrightarrow> find (\<lambda>y. key y = key x) xs = Some x"
  by (induction xs) (auto simp: image_iff)

lemma field_by_name:
  assumes "msg_ok D S msg" "f \<in> set (md_fields msg)" "g \<in> set (md_fields msg)" "fd_name f = fd_name g"
  shows "f = g"
  using assms by (auto simp: msg_ok_def distinct_map inj_on_def)

lemma partial_typed_upd:
  assumes "partial_typed nested D msg m" "f \<in> set (md_fields msg)" "field_typed nested D f v"
  shows "partial_typed nested D msg (fmupd (fd_name f) v m)"
  using assms by (auto simp: partial_typed_def)

lemma store_field_ok:
  assumes "msg_ok D S msg" "f \<in> set (md_fields msg)" "partial_typed nested D msg m"
    and "get_type D f = Ok ty" "value_typed nested ty v"
  shows "\<exists>m'. store_field f v m = Ok m' \<and> partial_typed nested D msg m'"
proof (cases "is_repeated f")
  case True
  have old: "\<exists>vs. w = ObjList vs \<and> list_all (value_typed nested ty) vs" if w: "fmlookup m (fd_name f) = Some w" for w
  proof -
    obtain g where "g \<in> set (md_fields msg)" "fd_name g = fd_name f" "field_typed nested D g w"
      using assms(3) w unfolding partial_typed_def by blast
    then have "field_typed nested D f w" using field_by_name [OF assms(1)] assms(2) by blast
    then show ?thesis using True assms(4) by (auto simp: field_typed_def)
  qed
  have "field_typed nested D f (ObjList (vs @ [v]))" if "list_all (value_typed nested ty) vs" for vs
    using True assms(4,5) that by (simp add: field_typed_def)
  moreover have "field_typed nested D f (ObjList [v])" using True assms(4,5) by (simp add: field_typed_def)
  ultimately show ?thesis
    using True assms(2,3) old by (cases "fmlookup m (fd_name f)") (auto simp: store_field_def intro!: partial_typed_upd)
next
  case False
  then show ?thesis using assms by (auto simp: store_field_def field_typed_def intro: partial_typed_upd)
qed

lemma decode_next_ok:
  assumes "\<not> overflow_checks d" "msg_ok D S msg" "call_ok D S nested (rec (depth + 1))" "partial_typed nested D msg m"
  shows "returns (decode_next D d rec depth msg m s)"
    and "decode_next D d rec depth msg m s = (Ok m', s') \<Longrightarrow> partial_typed nested D msg m'"
proof -
  have ty: "get_type D f \<noteq> Panic" if "f \<in> set (md_fields msg)" for f
    using that assms(2) by (auto simp: msg_ok_def)
  have field: "returns (decode_field D d rec depth f t)" if "f \<in> set (md_fields msg)" for f t
    by (rule decode_field_ok(1) [where rec = rec and depth = depth, OF assms(1,2) that assms(3)])
  have "store_field f v m \<noteq> Panic"
    if "f \<in> set (md_fields msg)" "decode_field D d rec depth f t = (Ok v, t')" "get_type D f = Ok ty" for f v t t' ty
    using store_field_ok [OF assms(2) that(1) assms(4) that(3)]
      decode_field_ok(2) [where rec = rec and depth = depth, OF assms(1,2) that(1) assms(3) that(2,3)] by fastforce
  then show "returns (decode_next D d rec depth msg m s)"
    using assms(1) ty field by (auto simp: decode_next_def Let_def split: option.splits dest!: msg_field_Some)
  show "partial_typed nested D msg m'" if "decode_next D d rec depth msg m s = (Ok m', s')"
    using that assms(4) store_field_ok [OF assms(2) _ assms(4)] decode_field_ok(2) [where rec = rec and depth = depth, OF assms(1,2) _ assms(3)]
    by (fastforce simp: decode_next_def and_then_st_eq_Ok Let_def split: if_splits option.splits dest!: msg_field_Some)
qed

lemma decode_fields_into_ok:
  assumes "\<not> overflow_checks d" "msg_ok D S msg" "call_ok D S nested (rec (depth + 1))" "partial_typed nested D msg m"
  shows "returns (decode_fields_into D d rec depth msg m s)"
    and "decode_fields_into D d rec depth msg m s = (Ok m', s') \<Longrightarrow> partial_typed nested D msg m'"
proof -
  have "returns (decode_fields_into D d rec depth msg m s) \<and>
      (\<forall>m' s'. decode_fields_into D d rec depth msg m s = (Ok m', s') \<longrightarrow> partial_typed nested D msg m')"
    using assms(4)
  proof (induction "remaining s" arbitrary: m s rule: less_induct)
    case less
    show ?case
    proof (cases "decode_next D d rec depth msg m s")
      case (Pair r t)
      have r: "r \<noteq> Panic" using decode_next_ok(1) [where rec = rec and depth = depth, OF assms(1-3) less.prems, of s] Pair by simp
      show ?thesis
      proof (cases "remaining s > 0 \<and> (\<exists>m'. r = Ok m')")
        case True
        then obtain m' where m': "decode_next D d rec depth msg m s = (Ok m', t)" using Pair by auto
        from decode_next_consumes [OF this] decode_next_ok(2) [where rec = rec and depth = depth, OF assms(1-3) less.prems m'] show ?thesis
          using less.hyps [of t m'] m' True by (subst (1 2) decode_fields_into.simps) simp
      next
        case False
        then show ?thesis using r Pair less.prems
          by (subst (1 2) decode_fields_into.simps) (cases r; auto)
      qed
    qed
  qed
  then show "returns (decode_fields_into D d rec depth msg m s)"
    and "decode_fields_into D d rec depth msg m s = (Ok m', s') \<Longrightarrow> partial_typed nested D msg m'" by blast+
qed

section \<open>Defaults and missing fields\<close>

lemma read_length_delimited_bytes:
  assumes "stream_wf s" "stream_rest s = b @ r" "unat n = length b"
  shows "read_length_delimited d n s = (Ok b, advance (length b) s)"
proof -
  have "length b \<le> USIZE_MAX" using stream_wf_rest [OF assms(1)] assms(2) by simp
  then show ?thesis
    using assms stream_read_take [OF assms(2,1)] by (simp add: read_length_delimited_def to_usize_def)
qed

lemma read_uvarint_nat:
  "stream_rest s = uvarint_bytes n @ r \<Longrightarrow> n < 2 ^ 64 \<Longrightarrow>
     read_uvarint s = (Ok (of_nat n), advance (length (uvarint_bytes n)) s)"
  using read_uvarint_bytes [of s "of_nat n" r] by (simp add: unat_of_nat)

lemma length_delimited_prefix:
  assumes "stream_wf s" "stream_rest s = length_delimited b @ r"
  shows "\<exists>n. read_uvarint s = (Ok n, advance (length (uvarint_bytes (length b))) s) \<and> unat n = length b
    \<and> read_length_delimited d n (advance (length (uvarint_bytes (length b))) s) = (Ok b, advance (length (length_delimited b)) s)"
proof -
  have rest: "stream_rest s = uvarint_bytes (length b) @ b @ r" using assms(2) by (simp add: length_delimited_def)
  have "length b \<le> USIZE_MAX" using stream_wf_rest [OF assms(1)] rest by simp
  then have n: "unat (of_nat (length b) :: u64) = length b" "length b < 2 ^ 64"
    by (simp_all add: USIZE_MAX_u64) (simp add: USIZE_MAX_def)
  have "stream_wf (advance (length (uvarint_bytes (length b))) s)"
    using assms(1) rest by (intro stream_wf_advance) simp_all
  then show ?thesis
    using read_uvarint_nat [OF rest n(2)] n(1) rest
      read_length_delimited_bytes [of "advance (length (uvarint_bytes (length b))) s" b r]
    by (simp add: length_delimited_def)
qed

lemma default_payload_skip:
  assumes "default_payload ty bs" "stream_wf s" "stream_rest s = bs @ r"
  shows "skip_field d (primitive_type ty) s = (Ok (), advance (length bs) s)"
proof (cases "primitive_type ty = PRIMITIVE_TYPE_VARINT")
  case True
  then obtain n :: u64 where "bs = uvarint_bytes (unat n)" using assms(1) by (auto simp: default_payload_def)
  then show ?thesis using True assms(3) read_uvarint_bytes by (simp add: skip_field_def)
next
  case False
  then obtain b where b: "bs = length_delimited b" using assms(1) by (auto simp: default_payload_def)
  have "primitive_type ty = PRIMITIVE_TYPE_LENGTH_DELIMITED" using False by (cases ty) simp_all
  then show ?thesis
    using False length_delimited_prefix [OF assms(2), of b r d] assms(3) b by (auto simp: skip_field_def)
qed

lemma default_payload_decode:
  assumes "default_payload ty bs" "stream_wf s" "stream_rest s = bs @ r" "get_type D f = Ok ty"
    and "decode_field D d rec 0 f s = (Ok v, s')"
  shows "s' = advance (length bs) s \<and> value_typed nested ty v"
proof -
  have msg: "ty \<noteq> FMsg msg" for msg using assms(1) by (auto simp: default_payload_def primitive_types)
  obtain num t where step: "read_uvarint s = (Ok num, t)" "decode_value d rec 0 (fd_name f) ty num t = (Ok v, s')"
    using assms(4,5) by (auto simp: decode_field_def and_then_st_eq_Ok split: if_splits)
  have "value_typed nested ty v" by (rule decode_value_typed [OF step(2)]) (use msg in blast)
  moreover have "s' = advance (length bs) s"
  proof (cases "primitive_type ty = PRIMITIVE_TYPE_VARINT")
    case True
    then obtain n :: u64 where "bs = uvarint_bytes (unat n)" using assms(1) by (auto simp: default_payload_def)
    then have "t = advance (length bs) s" using read_uvarint_bytes [of s n r] assms(3) step(1) by simp
    moreover have "s' = t" using step(2) True
      by (cases ty) (auto simp: decode_value_def primitive_types Let_def split: if_splits)
    ultimately show ?thesis by simp
  next
    case False
    then obtain b where b: "bs = length_delimited b" using assms(1) by (auto simp: default_payload_def)
    then have "read_length_delimited d num t = (Ok b, advance (length bs) s)"
      using length_delimited_prefix [OF assms(2), of b r d] assms(3) step(1) by auto
    then show ?thesis using step(2) False msg
      by (cases ty) (auto simp: decode_value_def split: if_splits)
  qed
  ultimately show ?thesis by simp
qed

lemma decode_defaults_loop_ok:
  assumes "list_all (default_entry_ok D msg) ds" "stream_rest s = default_entries ds" "stream_wf s"
    and "\<not> overflow_checks d" "msg_ok D S msg" "partial_typed nested D msg m"
  shows "decode_defaults_loop D d rec msg m s \<noteq> Panic
    \<and> (\<forall>m'. decode_defaults_loop D d rec msg m s = Ok m' \<longrightarrow> partial_typed nested D msg m')"
  using assms(1,2,3,6)
proof (induction ds arbitrary: s m)
  case Nil
  then show ?case by (simp add: default_entries_def decode_defaults_loop.simps read_byte_Nil)
next
  case (Cons e ds)
  obtain tag bs where e: "e = (tag, bs)" by force
  obtain f ty where f: "msg_field msg tag = Some f" "\<not> is_repeated f" "get_type D f = Ok ty" "default_payload ty bs"
    using Cons.prems(1) e by (auto simp: default_entry_ok_def)
  have fs: "f \<in> set (md_fields msg)" using msg_field_Some [OF f(1)] by simp
  have rest: "stream_rest s = tag # bs @ default_entries ds"
    using Cons.prems(2) e by (simp add: default_entries_def)
  let ?s = "advance 1 s"
  have wf: "stream_wf ?s" "stream_wf (advance (length bs) ?s)"
    using Cons.prems(3) rest by (auto intro!: stream_wf_advance simp del: advance_simps)
  have s1: "stream_rest ?s = bs @ default_entries ds" using rest by simp
  have next_ok: "stream_rest (advance (length bs) ?s) = default_entries ds" using rest by simp
  have loop: "decode_defaults_loop D d rec msg m s =
      (case default_next D d rec msg tag m ?s of
         (Ok m, s) \<Rightarrow> decode_defaults_loop D d rec msg m s | (Err e, _) \<Rightarrow> Err e | (Panic, _) \<Rightarrow> Panic)"
    by (subst decode_defaults_loop.simps) (simp add: read_byte_Cons [OF rest])
  have IH: "decode_defaults_loop D d rec msg m' (advance (length bs) ?s) \<noteq> Panic
    \<and> (\<forall>m''. decode_defaults_loop D d rec msg m' (advance (length bs) ?s) = Ok m'' \<longrightarrow> partial_typed nested D msg m'')"
    if "partial_typed nested D msg m'" for m'
    using Cons.IH [OF _ next_ok wf(2) that] Cons.prems(1) by simp
  show ?case
  proof (cases "fmlookup m (fd_name f) = None")
    case False
    then have "default_next D d rec msg tag m ?s = (Ok m, advance (length bs) ?s)"
      using f default_payload_skip [OF f(4) wf(1) s1, of d] by (simp add: default_next_def)
    then show ?thesis using IH [OF Cons.prems(4)] by (simp add: loop)
  next
    case True
    obtain r t where field: "decode_field D d rec 0 f ?s = (r, t)" by force
    have "returns (decode_field D d rec 0 f ?s)"
      using f(3,4) assms(4) by (auto simp: decode_field_def default_payload_def primitive_types intro!: returns_decode_value)
    then have r: "r \<noteq> Panic" using field by simp
    show ?thesis
    proof (cases r)
      case (Ok v)
      then have "t = advance (length bs) ?s" "value_typed nested ty v"
        using default_payload_decode [OF f(4) wf(1) s1 f(3)] field by blast+
      moreover from this have "partial_typed nested D msg (fmupd (fd_name f) v m)"
        using Cons.prems(4) f fs by (intro partial_typed_upd) (simp_all add: field_typed_def)
      ultimately show ?thesis using Ok True f field IH by (simp add: loop default_next_def)
    qed (use r True f field in \<open>simp_all add: loop default_next_def\<close>)
  qed
qed

lemma assign_required_no_panic [simp]: "assign_required_into fs m \<noteq> Panic"
  by (induction fs m rule: assign_required_into.induct) simp_all

lemma assign_required_lookup:
  assumes "assign_required_into fs m = Ok m'"
  shows "fmlookup m' name =
    (case fmlookup m name of
       Some v \<Rightarrow> Some v
     | None \<Rightarrow> map_option (\<lambda>f. if is_repeated f then ObjList [] else ObjNone) (find (\<lambda>f. fd_name f = name) fs))"
  using assms by (induction fs m rule: assign_required_into.induct) (auto split: if_splits option.splits)

lemma assign_required_required:
  assumes "assign_required_into fs m = Ok m'" "f \<in> set fs" "is_required f"
  shows "fmlookup m (fd_name f) \<noteq> None \<or> (\<exists>g\<in>set fs. fd_name g = fd_name f \<and> g \<noteq> f)"
  using assms by (induction fs m rule: assign_required_into.induct) (auto split: if_splits)

section \<open>Whole messages\<close>

lemma finish_message_ok:
  assumes "\<not> overflow_checks d" "msg_ok D S msg" "length (md_defaults msg) \<le> USIZE_MAX"
    and "partial_typed (msg_typed k D) D msg m"
  shows "finish_message D d rec msg m \<noteq> Panic"
    and "finish_message D d rec msg m = Ok v \<Longrightarrow> value_typed (msg_typed (Suc k) D) (FMsg msg) v"
proof -
  obtain ds where ds: "md_defaults msg = default_entries ds" "list_all (default_entry_ok D msg) ds"
    using assms(2) by (auto simp: msg_ok_def defaults_ok_def)
  have defaults: "decode_defaults_into D d rec msg m \<noteq> Panic"
    "decode_defaults_into D d rec msg m = Ok m' \<Longrightarrow> partial_typed (msg_typed k D) D msg m'" for m'
    using decode_defaults_loop_ok [OF ds(2) _ _ assms(1,2,4), of "input_stream_new (md_defaults msg)" rec] ds(1) assms(3)
    by (simp_all add: decode_defaults_into_def stream_wf_new)
  then show "finish_message D d rec msg m \<noteq> Panic"
    by (auto simp: finish_message_def and_then_eq_Panic)
  assume "finish_message D d rec msg m = Ok v"
  then obtain m1 m2 where m1: "decode_defaults_into D d rec msg m = Ok m1"
    and m2: "assign_required_into (md_fields msg) m1 = Ok m2" and v: "v = alloc_with_capacity msg m2"
    by (auto simp: finish_message_def)
  note typed = defaults(2) [OF m1]
  have names: "distinct (map fd_name (md_fields msg))" using assms(2) by (simp add: msg_ok_def)
  have lookup: "fmlookup m2 (fd_name f) = (case fmlookup m1 (fd_name f) of Some v \<Rightarrow> Some v
      | None \<Rightarrow> Some (if is_repeated f then ObjList [] else ObjNone))" if f: "f \<in> set (md_fields msg)" for f
    using assign_required_lookup [OF m2, of "fd_name f"] find_key [OF names f] by (auto split: option.split)
  have "name \<in> fmdom' m2 \<longleftrightarrow> name \<in> fd_name ` set (md_fields msg)" for name
  proof
    assume "name \<in> fmdom' m2"
    then obtain w where "fmlookup m2 name = Some w" by (auto simp: fmlookup_dom'_iff)
    then show "name \<in> fd_name ` set (md_fields msg)"
      using assign_required_lookup [OF m2, of name] typed
      by (cases "fmlookup m1 name") (auto simp: partial_typed_def find_Some_iff)
  next
    assume "name \<in> fd_name ` set (md_fields msg)"
    then obtain f where "f \<in> set (md_fields msg)" "name = fd_name f" by blast
    then show "name \<in> fmdom' m2" using lookup by (auto simp: fmlookup_dom'_iff split: option.split)
  qed
  then have "fmdom' m2 = fd_name ` set (md_fields msg)" by blast
  moreover have "w = ObjNone \<and> \<not> is_required f \<and> \<not> is_repeated f \<or> field_typed (msg_typed k D) D f w"
    if f: "f \<in> set (md_fields msg)" and look: "fmlookup m2 (fd_name f) = Some w" for f w
  proof (cases "fmlookup m1 (fd_name f)")
    case None
    then have "\<not> is_required f" using assign_required_required [OF m2 f] field_by_name [OF assms(2)] f by blast
    moreover have "field_typed (msg_typed k D) D f (ObjList [])" if "is_repeated f"
      using assms(2) f that by (auto simp: msg_ok_def field_typed_def)
    ultimately show ?thesis using look lookup [OF f] None by auto
  next
    case (Some u)
    then obtain g where "g \<in> set (md_fields msg)" "fd_name g = fd_name f" "field_typed (msg_typed k D) D g u"
      using typed unfolding partial_typed_def by blast
    then show ?thesis using field_by_name [OF assms(2)] f Some look lookup [OF f] by auto
  qed
  ultimately have "msg_typed (Suc k) D msg m2" by simp
  then show "value_typed (msg_typed (Suc k) D) (FMsg msg) v"
    using v by (auto simp: value_typed_def simp del: msg_typed.simps)
qed

lemma message_from_stream_ok:
  assumes D: "defs_ok D S" and d: "\<not> overflow_checks d"
  shows "off \<in> set S \<Longrightarrow> get_msg D off = Ok msg \<Longrightarrow> 17 \<le> n + unat depth \<Longrightarrow> unat depth \<le> 16 \<Longrightarrow>
    message_from_stream_ex n D d depth msg s \<noteq> Panic
    \<and> (\<forall>v. message_from_stream_ex n D d depth msg s = Ok v \<longrightarrow> value_typed (msg_typed (16 - unat depth) D) (FMsg msg) v)"
proof (induction n arbitrary: depth msg off s)
  case (Suc n)
  show ?case
  proof (cases "MAX_NESTING \<le> depth")
    case False
    then have depth: "unat depth < 16" by (simp add: MAX_NESTING_def word_le_nat_alt)
    then have up: "unat (depth + 1) = Suc (unat depth)" by (simp add: unat_word_ariths)
    have level: "16 - unat depth = Suc (16 - unat (depth + 1))" using depth up by simp
    let ?rec = "message_from_stream_ex n D d" and ?nested = "msg_typed (16 - unat (depth + 1)) D"
    have msg: "msg_ok D S msg" by (rule defs_okD [OF D Suc.prems(1,2)])
    have call: "call_ok D S ?nested (?rec (depth + 1))"
      unfolding call_ok_def
    proof (intro ballI allI impI)
      fix off' msg' s' assume "off' \<in> set S" "get_msg D off' = Ok msg'"
      moreover have "17 \<le> n + unat (depth + 1)" "unat (depth + 1) \<le> 16" using Suc.prems(3) depth up by simp_all
      ultimately show "?rec (depth + 1) msg' s' \<noteq> Panic
          \<and> (\<forall>v. ?rec (depth + 1) msg' s' = Ok v \<longrightarrow> value_typed ?nested (FMsg msg') v)"
        by (rule Suc.IH)
    qed
    have start: "partial_typed ?nested D msg fmempty" by (simp add: partial_typed_def)
    note fields = decode_fields_into_ok [where rec = ?rec and depth = depth, OF d msg call start]
    show ?thesis
    proof (cases "decode_fields_into D d ?rec depth msg fmempty s")
      case (Pair r t)
      have r: "r \<noteq> Panic" using fields(1) [of s] Pair by simp
      show ?thesis
      proof (cases r)
        case (Ok m)
        then have "partial_typed ?nested D msg m" using fields(2) Pair by blast
        note finish = finish_message_ok [OF d msg get_msg_defaults [OF Suc.prems(2)] this]
        have "message_from_stream_ex (Suc n) D d depth msg s = finish_message D d ?rec msg m"
          using Pair Ok False by (simp add: message_step_def)
        then show ?thesis using finish [of ?rec] unfolding level by metis
      qed (use r Pair False in \<open>simp_all add: message_step_def\<close>)
    qed
  qed (simp add: message_step_def)
qed simp

section \<open>More fuel makes no difference\<close>

text \<open>A recursive call that returns whenever another one does, with the same result.\<close>

definition extends :: "decode_call \<Rightarrow> decode_call \<Rightarrow> bool" where
  "extends rec rec' \<longleftrightarrow> (\<forall>depth msg s. rec depth msg s \<noteq> Panic \<longrightarrow> rec' depth msg s = rec depth msg s)"

lemma bind_extends:
  assumes "returns (and_then_st m f)" "returns m \<Longrightarrow> m' = m"
    and "\<And>x s. m = (Ok x, s) \<Longrightarrow> returns (f x s) \<Longrightarrow> g x s = f x s"
  shows "and_then_st m' g = and_then_st m f"
  using assms by (cases m; cases "fst m") auto

lemma decode_value_extends:
  assumes "extends rec rec'" "returns (decode_value d rec depth name ty num s)"
  shows "decode_value d rec' depth name ty num s = decode_value d rec depth name ty num s"
proof (cases ty)
  case (FMsg msg)
  then show ?thesis using assms by (auto simp: decode_value_def extends_def intro!: bind_extends)
qed (auto simp: decode_value_def)

lemma decode_field_extends:
  assumes "extends rec rec'" "returns (decode_field D d rec depth f s)"
  shows "decode_field D d rec' depth f s = decode_field D d rec depth f s"
  using assms(2) decode_value_extends [OF assms(1)] by (auto simp: decode_field_def intro!: bind_extends split: if_splits)

lemma decode_next_extends:
  assumes "extends rec rec'" "returns (decode_next D d rec depth msg m s)"
  shows "decode_next D d rec' depth msg m s = decode_next D d rec depth msg m s"
  using assms(2) decode_field_extends [OF assms(1)]
  by (auto simp: decode_next_def Let_def intro!: bind_extends split: if_splits option.splits)

lemma decode_fields_into_extends:
  assumes "extends rec rec'" "returns (decode_fields_into D d rec depth msg m s)"
  shows "decode_fields_into D d rec' depth msg m s = decode_fields_into D d rec depth msg m s"
  using assms(2)
proof (induction "remaining s" arbitrary: m s rule: less_induct)
  case less
  show ?case
  proof (cases "remaining s > 0")
    case True
    then show ?thesis using less decode_next_extends [OF assms(1)]
      by (subst (1 2) decode_fields_into.simps, subst (asm) (2) decode_fields_into.simps)
        (auto intro!: bind_extends dest: decode_next_consumes)
  qed (simp add: decode_fields_into.simps)
qed

lemma default_next_extends:
  assumes "extends rec rec'" "returns (default_next D d rec msg tag m s)"
  shows "default_next D d rec' msg tag m s = default_next D d rec msg tag m s"
  using assms(2) decode_field_extends [OF assms(1)]
  by (auto simp: default_next_def intro!: bind_extends split: if_splits option.splits)

lemma decode_defaults_loop_extends:
  assumes "extends rec rec'" "decode_defaults_loop D d rec msg m s \<noteq> Panic"
  shows "decode_defaults_loop D d rec' msg m s = decode_defaults_loop D d rec msg m s"
  using assms(2)
proof (induction "remaining s" arbitrary: m s rule: less_induct)
  case less
  show ?case
  proof (cases "stream_rest s")
    case Nil
    then show ?thesis by (simp add: decode_defaults_loop.simps read_byte_Nil)
  next
    case (Cons tag r)
    have loop: "decode_defaults_loop D d rec msg m s =
        (case default_next D d rec msg tag m (advance 1 s) of
           (Ok m, s) \<Rightarrow> decode_defaults_loop D d rec msg m s | (Err e, _) \<Rightarrow> Err e | (Panic, _) \<Rightarrow> Panic)" for rec
      by (subst decode_defaults_loop.simps) (simp add: read_byte_Cons [OF Cons])
    obtain res t where res: "default_next D d rec msg tag m (advance 1 s) = (res, t)" by force
    then have "res \<noteq> Panic" using less.prems loop by auto
    then have same: "default_next D d rec' msg tag m (advance 1 s) = (res, t)"
      using default_next_extends [OF assms(1)] res by simp
    show ?thesis
    proof (cases res)
      case (Ok m')
      have "remaining t < remaining s"
        using default_next_consumes res Ok Cons by (fastforce simp: remaining_rest)
      then show ?thesis using less.hyps [of t m'] less.prems Ok res same by (simp add: loop)
    qed (use res same in \<open>simp_all add: loop\<close>)
  qed
qed

lemma finish_message_extends:
  assumes "extends rec rec'" "finish_message D d rec msg m \<noteq> Panic"
  shows "finish_message D d rec' msg m = finish_message D d rec msg m"
  using assms decode_defaults_loop_extends [OF assms(1)]
  by (auto simp: finish_message_def decode_defaults_into_def and_then_eq_Panic)

lemma message_step_extends:
  assumes "extends rec rec'"
  shows "extends (message_step D d rec) (message_step D d rec')"
  unfolding extends_def
proof (intro allI impI)
  fix depth msg s assume ret: "message_step D d rec depth msg s \<noteq> Panic"
  show "message_step D d rec' depth msg s = message_step D d rec depth msg s"
  proof (cases "MAX_NESTING \<le> depth")
    case False
    have "returns (decode_fields_into D d rec depth msg fmempty s)"
      using ret False by (auto simp: message_step_def returns_def and_then_eq_Panic)
    note fields = decode_fields_into_extends [OF assms this]
    show ?thesis
      using ret False finish_message_extends [OF assms] fields
      by (cases "fst (decode_fields_into D d rec depth msg fmempty s)") (simp_all add: message_step_def)
  qed (simp add: message_step_def)
qed

lemma message_from_stream_extends: "extends (message_from_stream_ex n D d) (message_from_stream_ex (Suc n) D d)"
  by (induction n) (simp_all add: message_step_extends, simp add: extends_def)

lemma message_from_stream_fuel:
  assumes "message_from_stream_ex n D d depth msg s \<noteq> Panic" "n \<le> n'"
  shows "message_from_stream_ex n' D d depth msg s = message_from_stream_ex n D d depth msg s"
  using assms(2)
proof (induction rule: dec_induct)
  case (step k)
  then show ?case using message_from_stream_extends [of k D d] assms(1) unfolding extends_def by metis
qed simp

section \<open>Properties\<close>

lemma huge_length: "uvarint_bytes (2 ^ 32 - 1) = [0xFF, 0xFF, 0xFF, 0xFF, 0x0F]"
  by (simp add: uvarint_bytes.simps [of 4294967295] uvarint_bytes.simps [of 33554431] uvarint_bytes.simps [of 262143]
      uvarint_bytes.simps [of 2047])

text \<open>
  C10. The decoder survives every input: for well-formed definitions and a build without overflow
  checks it does not panic, whatever the bytes are, and the nesting of calls that it makes on
  the way is bounded: more stack would make no difference.
\<close>

theorem decode_never_panics:
  assumes "defs_ok D S" "off \<in> set S" "get_msg D off = Ok msg"
  shows "protobuf_decode False D buf msg experimental \<noteq> Panic
    \<and> (\<forall>n\<ge>DECODE_FUEL. message_from_stream_ex n D \<lparr>enable_experimental = experimental, overflow_checks = False\<rparr> 0 msg s
         = message_from_stream D \<lparr>enable_experimental = experimental, overflow_checks = False\<rparr> msg s)"
  using message_from_stream_ok [OF assms(1) _ assms(2,3), of "\<lparr>enable_experimental = experimental, overflow_checks = False\<rparr>" DECODE_FUEL 0]
    message_from_stream_fuel
  by (simp add: protobuf_decode_def message_from_stream_def DECODE_FUEL_def MAX_NESTING_def)

text \<open>
  C16. What the decoder returns is well-typed: a message of the requested definition that has every
  field of it and no other, required fields set, repeated fields as lists, every value in the
  range of its type (integers within their width, strings valid UTF-8, enumerations among their
  members), and nested messages well-typed in the same way, at most 16 deep.
\<close>

theorem decode_well_typed:
  assumes "defs_ok D S" "off \<in> set S" "get_msg D off = Ok msg" "protobuf_decode False D buf msg experimental = Ok v"
  shows "\<exists>m. v = ObjMsg (md_wire_id msg) off m \<and> msg_typed 16 D msg m"
  using message_from_stream_ok [OF assms(1) _ assms(2,3), of "\<lparr>enable_experimental = experimental, overflow_checks = False\<rparr>" DECODE_FUEL 0]
    assms(4) get_msg_offset [OF assms(3)]
  by (auto simp: protobuf_decode_def message_from_stream_def DECODE_FUEL_def MAX_NESTING_def value_typed_def
      alloc_with_capacity_def split: if_splits)

text \<open>
  C38. The length of a field is not checked before it is added to the position: when the bytes start
  with a field that is to be skipped and that claims to be \<open>2^32 - 1\<close> bytes long, a build with
  overflow checks panics on the sum; without them the decoder reports the end of the input.
\<close>

theorem length_overflow_panics:
  assumes "msg_field msg 15 = None" "\<not> md_is_experimental msg"
  shows "protobuf_decode True D [0x7A, 0xFF, 0xFF, 0xFF, 0xFF, 0x0F] msg experimental = Panic
    \<and> protobuf_decode False D [0x7A, 0xFF, 0xFF, 0xFF, 0xFF, 0x0F] msg experimental = Err EOFError"
proof -
  let ?s = "input_stream_new [0x7A, 0xFF, 0xFF, 0xFF, 0xFF, 0x0F]"
  have key: "read_uvarint ?s = (Ok 0x7A, advance 1 ?s)"
    using read_uvarint_bytes [of ?s "0x7A"] by (simp add: stream_rest_def input_stream_new_def)
  have "read_uvarint (advance 1 ?s) = (Ok 0xFFFFFFFF, advance 6 ?s)"
    using read_uvarint_bytes [of "advance 1 ?s" "0xFFFFFFFF"] huge_length
    by (simp add: stream_rest_def input_stream_new_def advance_def)
  then have "fst (decode_fields_into D \<lparr>enable_experimental = experimental, overflow_checks = checks\<rparr> rec 0 msg fmempty ?s) =
      (if checks then Panic else Err EOFError)" for checks rec
    using key assms(1) by (subst decode_fields_into.simps)
      (simp add: remaining_def decode_next_def skip_field_def primitive_types read_length_delimited_def to_usize_def
        USIZE_MAX_def stream_read_def advance_def input_stream_new_def)
  moreover have "\<not> MAX_NESTING \<le> 0" by (simp add: MAX_NESTING_def)
  ultimately show ?thesis
    using assms(2) by (simp add: protobuf_decode_def message_from_stream_def DECODE_FUEL_def message_step_def)
qed

end
