(* ===== verification/Proto_Roundtrip.thy ===== *)
theory Proto_Roundtrip
  imports Proto_Typed
begin

text \<open>
  Encoding and decoding together: a well-typed message that has a representation is decoded from
  its wire format as it was. The one further condition, \<open>canonical\<close>, is that no field with a
  default value is \<open>None\<close>: such a field is left out by the encoder and comes back with its default.
\<close>

primrec canonical :: "nat \<Rightarrow> proto_defs \<Rightarrow> msg_def \<Rightarrow> (u16, obj) fmap \<Rightarrow> bool" where
  "canonical 0 D msg m = False"
| "canonical (Suc k) D msg m \<longleftrightarrow>
     (\<exists>ds. md_defaults msg = default_entries ds \<and> list_all (default_entry_ok D msg) ds
        \<and> list_all (\<lambda>(tag, _). \<forall>f. msg_field msg tag = Some f \<longrightarrow> fmlookup m (fd_name f) \<noteq> Some ObjNone) ds)
     \<and> (\<forall>f\<in>set (md_fields msg). \<forall>msg'. get_type D f = Ok (FMsg msg') \<longrightarrow>
          list_all (\<lambda>v. canonical k D msg' (msg_map v)) (sent_values m f))"

text \<open>Experimental messages and fields: either they are enabled, or there are none.\<close>

definition fields_enabled :: "bool \<Rightarrow> msg_def \<Rightarrow> bool" where
  "fields_enabled experimental msg \<longleftrightarrow> experimental \<or> list_all (\<lambda>f. \<not> is_experimental_field f) (md_fields msg)"

definition experimental_ok :: "proto_defs \<Rightarrow> u16 list \<Rightarrow> bool \<Rightarrow> bool" where
  "experimental_ok D S experimental \<longleftrightarrow>
     experimental
     \<or> (\<forall>off\<in>set S. \<forall>msg. get_msg D off = Ok msg \<longrightarrow> \<not> md_is_experimental msg \<and> fields_enabled False msg)"

section \<open>Values\<close>

lemma zigzag_code_signed:
  assumes "- (2 ^ 63) \<le> i" "i < 2 ^ 63"
  shows "zigzag_code i < 2 ^ 64" "sint (zigzag_to_signed (of_nat (zigzag_code i))) = i"
proof -
  show "zigzag_code i < 2 ^ 64" using assms by (auto simp: zigzag_code_def)
  have "of_nat (zigzag_code i) = zigzag_to_unsigned (of_int i :: u64)"
    by (simp flip: unat_zigzag [OF assms])
  then show "sint (zigzag_to_signed (of_nat (zigzag_code i))) = i"
    by (simp only: zigzag_inverse sint_of_int_u64 [OF assms])
qed

text \<open>A nested message is decoded from its wire format, one level down.\<close>

definition nested_ok :: "(msg_def \<Rightarrow> (u16, obj) fmap \<Rightarrow> bytes) \<Rightarrow> (msg_def \<Rightarrow> input_stream \<Rightarrow> (obj, py_error) result) \<Rightarrow> field_type \<Rightarrow> obj \<Rightarrow> bool" where
  "nested_ok nested call ty v \<longleftrightarrow>
     (\<forall>msg m. ty = FMsg msg \<longrightarrow> v = alloc_with_capacity msg m \<longrightarrow> call msg (input_stream_new (nested msg m)) = Ok v)"

lemma decode_value_bytes:
  assumes "stream_wf s" "stream_rest s = value_bytes nested ty v @ r"
    and "value_typed typed ty v" "value_encodable ok ty v" "nested_ok nested (rec (depth + 1)) ty v"
  shows "\<exists>num t. read_uvarint s = (Ok num, t) \<and> decode_value d rec depth name ty num t = (Ok v, advance (length (value_bytes nested ty v)) s)"
proof -
  have delimited: "\<exists>num t. read_uvarint s = (Ok num, t) \<and> read_length_delimited d num t = (Ok b, advance (length (length_delimited b)) s)"
    if "stream_rest s = length_delimited b @ r" for b
    using length_delimited_prefix [OF assms(1) that, of d] by blast
  have number: "\<exists>num. read_uvarint s = (Ok num, advance (length (uvarint_bytes n)) s) \<and> num = of_nat n \<and> unat num = n"
    if "stream_rest s = uvarint_bytes n @ r" "n < 2 ^ 64" for n
    using read_uvarint_nat [OF that] that(2) by (simp add: unat_of_nat)
  show ?thesis
  proof (cases ty)
    case (FMsg msg)
    then obtain m where m: "v = alloc_with_capacity msg m" using assms(3) by (auto simp: value_typed_def)
    then have "rec (depth + 1) msg (input_stream_new (nested msg m)) = Ok v"
      using assms(5) FMsg by (simp add: nested_ok_def)
    then show ?thesis using delimited [of "nested msg m"] assms(2) FMsg m
      by (fastforce simp: value_bytes_def alloc_with_capacity_def decode_value_def)
  next
    case FBytes
    then show ?thesis using delimited [of "obj_bytes v"] assms(2,3)
      by (fastforce simp: value_bytes_def value_typed_def decode_value_def)
  next
    case FString
    then show ?thesis using delimited [of "obj_bytes v"] assms(2,3)
      by (fastforce simp: value_bytes_def value_typed_def decode_value_def)
  next
    case FBool
    then show ?thesis using number [of "if v = ObjBool True then 1 else 0"] assms(2,3)
      by (fastforce simp: value_bytes_def value_typed_def decode_value_def)
  next
    case (FEnum e)
    then obtain x where x: "x \<in> set (ed_values e)" "v = ObjInt (uint x)" using assms(3) by (auto simp: value_typed_def)
    have "unat x < 2 ^ 16" using unsigned_less [of x, where ?'a = nat] by simp
    moreover from this have "unat (ucast x :: u64) = unat x" by (simp add: unsigned_ucast_eq take_bit_nat_eq_self)
    then have "uint (ucast x :: u64) = uint x" by (metis uint_nat)
    moreover have "ucast (ucast x :: u64) = x" by (rule bit_word_eqI) (auto simp: bit_simps)
    ultimately show ?thesis using number [of "unat x"] assms(2) FEnum x
      by (auto simp: value_bytes_def decode_value_def)
  next
    case UVarInt32
    then obtain i where i: "v = ObjInt i" "0 \<le> i" "i < 2 ^ 32" using assms(3) by (auto simp: value_typed_def elim: int_betweenE)
    then show ?thesis using number [of "nat i"] assms(2) UVarInt32
      by (auto simp: value_bytes_def decode_value_def uint_word_of_int_eq take_bit_int_eq_self)
  next
    case UVarInt64
    then obtain i where i: "v = ObjInt i" "0 \<le> i" "i < 2 ^ 64" using assms(3) by (auto simp: value_typed_def elim: int_betweenE)
    then show ?thesis using number [of "nat i"] assms(2) UVarInt64
      by (auto simp: value_bytes_def decode_value_def uint_word_of_int_eq take_bit_int_eq_self)
  next
    case SVarInt32
    then obtain i where i: "v = ObjInt i" "- (2 ^ 31) \<le> i" "i < 2 ^ 31" using assms(3) by (auto simp: value_typed_def elim: int_betweenE)
    then show ?thesis using number [of "zigzag_code i"] zigzag_code_signed [of i] assms(2) SVarInt32
      by (auto simp: value_bytes_def decode_value_def Let_def)
  next
    case SVarInt64
    then obtain i where i: "v = ObjInt i" "- (2 ^ 63) \<le> i" "i < 2 ^ 63" using assms(3) by (auto simp: value_typed_def elim: int_betweenE)
    then show ?thesis using number [of "zigzag_code i"] zigzag_code_signed [of i] assms(2) SVarInt64
      by (auto simp: value_bytes_def decode_value_def Let_def)
  qed
qed

section \<open>Fields\<close>

lemma key_number_parts:
  "key_number ty f < 2 ^ 64" "unat (drop_bit 3 (of_nat (key_number ty f) :: u64)) = unat (fd_tag f)"
  "ucast (drop_bit 3 (of_nat (key_number ty f) :: u64)) = fd_tag f"
  "ucast (of_nat (key_number ty f) AND 7 :: u64) = primitive_type ty"
proof -
  have t: "unat (fd_tag f) < 256" using unsigned_less [of "fd_tag f", where ?'a = nat] by simp
  have p: "unat (primitive_type ty) < 8" by (cases ty) (simp_all add: primitive_types)
  show less: "key_number ty f < 2 ^ 64" using t p by (simp add: key_number_def)
  have key: "unat (of_nat (key_number ty f) :: u64) = key_number ty f" using less by (simp add: unat_of_nat)
  have "unat (drop_bit 3 (of_nat (key_number ty f) :: u64)) = key_number ty f div 8"
    using key by (simp add: drop_bit_eq_div unat_div)
  then show d: "unat (drop_bit 3 (of_nat (key_number ty f) :: u64)) = unat (fd_tag f)"
    using p by (simp add: key_number_def)
  show "ucast (drop_bit 3 (of_nat (key_number ty f) :: u64)) = fd_tag f"
    using d by (metis of_nat_unat ucast_id)
  have "of_nat (key_number ty f) AND 7 = take_bit 3 (of_nat (key_number ty f) :: u64)"
    by (simp add: take_bit_eq_mask mask_eq_exp_minus_1)
  then have "unat (of_nat (key_number ty f) AND 7 :: u64) = unat (primitive_type ty)"
    using key p by (simp only: unsigned_take_bit_eq) (simp add: take_bit_eq_mod key_number_def)
  then show "ucast (of_nat (key_number ty f) AND 7 :: u64) = primitive_type ty"
    by (metis of_nat_unat ucast_id)
qed

lemma decode_next_entry:
  assumes "stream_wf s" "stream_rest s = entry_bytes nested ty f v @ r" "fields_enabled (enable_experimental d) msg"
    and "msg_ok D S msg" "f \<in> set (md_fields msg)" "get_type D f = Ok ty"
    and "value_typed typed ty v" "value_encodable ok ty v" "nested_ok nested (rec (depth + 1)) ty v"
  shows "decode_next D d rec depth msg m0 s = (store_field f v m0, advance (length (entry_bytes nested ty f v)) s)"
proof -
  let ?n = "length (uvarint_bytes (key_number ty f))"
  have rest: "stream_rest s = uvarint_bytes (key_number ty f) @ value_bytes nested ty v @ r"
    using assms(2) by (simp add: entry_bytes_def)
  have key: "read_uvarint s = (Ok (of_nat (key_number ty f)), advance ?n s)"
    by (rule read_uvarint_nat [OF rest]) (rule key_number_parts)
  have wf: "stream_wf (advance ?n s)" using assms(1) rest by (intro stream_wf_advance) simp_all
  have "stream_rest (advance ?n s) = value_bytes nested ty v @ r" using rest by simp
  from decode_value_bytes [where rec = rec and depth = depth, OF wf this assms(7,8,9), of d "fd_name f"]
  have "decode_field D d rec depth f (advance ?n s) = (Ok v, advance (length (value_bytes nested ty v)) (advance ?n s))"
    using assms(3,5,6) by (auto simp: decode_field_def fields_enabled_def list_all_iff)
  moreover have "msg_field msg (fd_tag f) = Some f"
    using assms(4,5) by (intro msg_field_tag) (simp_all add: msg_ok_def)
  moreover have "unat (fd_tag f) \<le> 0xFF" using unsigned_less [of "fd_tag f", where ?'a = nat] by simp
  ultimately show ?thesis
    using key assms(6) by (simp add: decode_next_def key_number_parts Let_def entry_bytes_def)
qed

text \<open>What decoding the values of one field leaves in the map.\<close>

definition put_sent :: "(u16, obj) fmap \<Rightarrow> field_def \<Rightarrow> (u16, obj) fmap \<Rightarrow> (u16, obj) fmap" where
  "put_sent m f m0 =
     (if sent_values m f = [] then m0
      else fmupd (fd_name f) (if is_repeated f then ObjList (sent_values m f) else last (sent_values m f)) m0)"

lemma decode_fields_repeated:
  assumes "stream_wf s" "stream_rest s = concat (map (entry_bytes nested ty f) vs) @ r" "fields_enabled (enable_experimental d) msg"
    and "msg_ok D S msg" "f \<in> set (md_fields msg)" "get_type D f = Ok ty" "is_repeated f"
    and "\<And>v. v \<in> set vs \<Longrightarrow> value_typed typed ty v \<and> value_encodable ok ty v \<and> nested_ok nested (rec (depth + 1)) ty v"
    and "fmlookup m0 (fd_name f) = (if us = [] then None else Some (ObjList us))"
  shows "decode_fields_into D d rec depth msg m0 s =
    decode_fields_into D d rec depth msg (if us @ vs = [] then m0 else fmupd (fd_name f) (ObjList (us @ vs)) m0)
      (advance (length (concat (map (entry_bytes nested ty f) vs))) s)"
  using assms(1,2,8,9)
proof (induction vs arbitrary: s us m0)
  case Nil
  then show ?case by (auto intro!: arg_cong [where f = "\<lambda>m. decode_fields_into D d rec depth msg m s"] fmap_ext)
next
  case (Cons v vs)
  let ?n = "length (entry_bytes nested ty f v)" and ?m = "fmupd (fd_name f) (ObjList (us @ [v])) m0"
  have rest: "stream_rest s = entry_bytes nested ty f v @ concat (map (entry_bytes nested ty f) vs) @ r"
    using Cons.prems(2) by simp
  have "store_field f v m0 = Ok ?m" using Cons.prems(4) assms(7) by (auto simp: store_field_def)
  then have one: "decode_next D d rec depth msg m0 s = (Ok ?m, advance ?n s)"
    using decode_next_entry [OF Cons.prems(1) rest assms(3-6)] Cons.prems(3) by force
  have "remaining s > 0" using rest by (simp add: remaining_rest entry_bytes_def)
  then have "decode_fields_into D d rec depth msg m0 s = decode_fields_into D d rec depth msg ?m (advance ?n s)"
    using one by (subst decode_fields_into.simps) simp
  also have "\<dots> = decode_fields_into D d rec depth msg (fmupd (fd_name f) (ObjList (us @ [v] @ vs)) ?m)
      (advance (length (concat (map (entry_bytes nested ty f) vs))) (advance ?n s))"
    using Cons.IH [of "advance ?n s" ?m "us @ [v]"] Cons.prems(1,3) rest stream_wf_advance [OF Cons.prems(1), of ?n] by simp
  finally show ?case by (simp add: fmupd_idem)
qed

lemma decode_fields_field:
  assumes "stream_wf s" "stream_rest s = field_bytes nested D m f @ r" "fields_enabled (enable_experimental d) msg"
    and "msg_ok D S msg" "f \<in> set (md_fields msg)" "get_type D f = Ok ty"
    and v: "\<And>v. v \<in> set (sent_values m f) \<Longrightarrow>
      value_typed typed ty v \<and> value_encodable ok ty v \<and> nested_ok nested (rec (depth + 1)) ty v"
    and "fmlookup m0 (fd_name f) = None"
  shows "decode_fields_into D d rec depth msg m0 s =
    decode_fields_into D d rec depth msg (put_sent m f m0) (advance (length (field_bytes nested D m f)) s)"
proof (cases "is_repeated f")
  case True
  have bytes: "field_bytes nested D m f = concat (map (entry_bytes nested ty f) (sent_values m f))"
    using assms(6) by (simp add: field_bytes_def)
  have "put_sent m f m0 = (if [] @ sent_values m f = [] then m0 else fmupd (fd_name f) (ObjList ([] @ sent_values m f)) m0)"
    using True by (simp add: put_sent_def)
  then show ?thesis
    unfolding bytes using decode_fields_repeated [where rec = rec and depth = depth and us = "[]" and ok = ok and typed = typed,
        OF assms(1) assms(2) [unfolded bytes] assms(3-6) True v] assms(8) by (simp only: if_True simp_thms)
next
  case False
  then have "sent_values m f = [] \<or> (\<exists>w. sent_values m f = [w])"
    by (cases "fmlookup m (fd_name f)") (auto simp: sent_values_def)
  then consider "sent_values m f = []" | w where "sent_values m f = [w]" by blast
  then show ?thesis
  proof cases
    case 1
    then show ?thesis using assms(6) by (simp add: put_sent_def field_bytes_def)
  next
    case 2
    then have bytes: "field_bytes nested D m f = entry_bytes nested ty f w" using assms(6) by (simp add: field_bytes_def)
    then have rest: "stream_rest s = entry_bytes nested ty f w @ r" using assms(2) by simp
    have "decode_next D d rec depth msg m0 s = (Ok (fmupd (fd_name f) w m0), advance (length (entry_bytes nested ty f w)) s)"
      using decode_next_entry [where rec = rec and depth = depth, OF assms(1) rest assms(3-6), of typed ok m0] v 2 False
      by (simp add: store_field_def)
    moreover have "remaining s > 0" using rest by (simp add: remaining_rest entry_bytes_def)
    ultimately show ?thesis
      using 2 False bytes by (subst decode_fields_into.simps) (simp add: put_sent_def)
  qed
qed

lemma decode_fields_all:
  assumes "stream_wf s" "stream_rest s = concat (map (field_bytes nested D m) fs)" "fields_enabled (enable_experimental d) msg"
    and "msg_ok D S msg" "set fs \<subseteq> set (md_fields msg)" "distinct (map fd_name fs)"
    and "\<And>f ty v. f \<in> set fs \<Longrightarrow> get_type D f = Ok ty \<Longrightarrow> v \<in> set (sent_values m f) \<Longrightarrow>
      value_typed typed ty v \<and> value_encodable ok ty v \<and> nested_ok nested (rec (depth + 1)) ty v"
    and "\<And>f. f \<in> set fs \<Longrightarrow> fmlookup m0 (fd_name f) = None"
  shows "fst (decode_fields_into D d rec depth msg m0 s) = Ok (fold (put_sent m) fs m0)"
  using assms(1,2,5-)
proof (induction fs arbitrary: s m0)
  case Nil
  then show ?case by (subst decode_fields_into.simps) (simp add: remaining_rest)
next
  case (Cons f fs)
  let ?n = "length (field_bytes nested D m f)"
  have f: "f \<in> set (md_fields msg)" using Cons.prems(3) by simp
  then obtain ty where ty: "get_type D f = Ok ty" using assms(4) by (auto simp: msg_ok_def)
  have rest: "stream_rest s = field_bytes nested D m f @ concat (map (field_bytes nested D m) fs)"
    using Cons.prems(2) by simp
  have "decode_fields_into D d rec depth msg m0 s = decode_fields_into D d rec depth msg (put_sent m f m0) (advance ?n s)"
    using Cons.prems(5,6) ty
    by (intro decode_fields_field [where rec = rec and depth = depth, OF Cons.prems(1) rest assms(3,4) f ty]) auto
  moreover have "fst (decode_fields_into D d rec depth msg (put_sent m f m0) (advance ?n s)) = Ok (fold (put_sent m) fs (put_sent m f m0))"
  proof (rule Cons.IH)
    show "stream_wf (advance ?n s)" using Cons.prems(1) rest by (intro stream_wf_advance) simp_all
    show "fmlookup (put_sent m f m0) (fd_name g) = None" if "g \<in> set fs" for g
      using Cons.prems(4,6) that by (auto simp: put_sent_def image_iff)
  qed (use Cons.prems(3,4,5) rest in auto)
  ultimately show ?case by simp
qed

lemma fold_put_sent_lookup:
  assumes "distinct (map fd_name fs)"
  shows "fmlookup (fold (put_sent m) fs m0) name =
    (case find (\<lambda>f. fd_name f = name \<and> sent_values m f \<noteq> []) fs of
       Some f \<Rightarrow> Some (if is_repeated f then ObjList (sent_values m f) else last (sent_values m f))
     | None \<Rightarrow> fmlookup m0 name)"
  using assms
proof (induction fs arbitrary: m0)
  case (Cons f fs)
  have "find (\<lambda>g. fd_name g = fd_name f \<and> sent_values m g \<noteq> []) fs = None"
    using Cons.prems by (auto simp: find_None_iff image_iff)
  then show ?case using Cons by (auto simp: put_sent_def split: option.splits)
qed simp

section \<open>Messages\<close>

lemma decode_defaults_skip:
  assumes "list_all (default_entry_ok D msg) ds" "stream_rest s = default_entries ds" "stream_wf s"
    and "list_all (\<lambda>(tag, _). \<forall>f. msg_field msg tag = Some f \<longrightarrow> fmlookup m (fd_name f) \<noteq> None) ds"
  shows "decode_defaults_loop D d rec msg m s = Ok m"
  using assms
proof (induction ds arbitrary: s)
  case Nil
  then show ?case by (simp add: default_entries_def decode_defaults_loop.simps read_byte_Nil)
next
  case (Cons e ds)
  obtain tag bs where e: "e = (tag, bs)" by force
  obtain f ty where f: "msg_field msg tag = Some f" "get_type D f = Ok ty" "default_payload ty bs"
    using Cons.prems(1) e by (auto simp: default_entry_ok_def)
  have rest: "stream_rest s = tag # bs @ default_entries ds"
    using Cons.prems(2) e by (simp add: default_entries_def)
  let ?s = "advance 1 s"
  have wf: "stream_wf ?s" "stream_wf (advance (length bs) ?s)"
    using Cons.prems(3) rest by (auto intro!: stream_wf_advance simp del: advance_simps)
  have s1: "stream_rest ?s = bs @ default_entries ds" using rest by simp
  have s2: "stream_rest (advance (length bs) ?s) = default_entries ds" using rest by simp
  have "default_next D d rec msg tag m ?s = (Ok m, advance (length bs) ?s)"
    using f Cons.prems(4) e default_payload_skip [OF f(3) wf(1) s1, of d] by (auto simp: default_next_def)
  then show ?case
    using Cons.IH [OF _ s2 wf(2)] Cons.prems(1,4) by (subst decode_defaults_loop.simps) (simp add: read_byte_Cons [OF rest])
qed

lemma assign_required_Ok:
  "\<forall>f\<in>set fs. fmlookup m (fd_name f) = None \<longrightarrow> \<not> is_required f \<Longrightarrow> \<exists>m'. assign_required_into fs m = Ok m'"
  by (induction fs m rule: assign_required_into.induct) (auto split: if_splits)

lemma typed_field_values:
  assumes "msg_typed (Suc k) D msg m" "f \<in> set (md_fields msg)" "get_type D f = Ok ty" "v \<in> set (sent_values m f)"
  shows "value_typed (msg_typed k D) ty v"
proof -
  obtain w where w: "fmlookup m (fd_name f) = Some w" "w \<noteq> ObjNone" "v \<in> set (if is_repeated f then obj_elements w else [w])"
    using assms(4) by (cases "fmlookup m (fd_name f)") (auto simp: sent_values_def split: if_splits)
  then have "field_typed (msg_typed k D) D f w" using assms(1,2) by auto
  then show ?thesis using w(3) assms(3) by (auto simp: field_typed_def list_all_iff split: if_splits)
qed

lemma find_key_if:
  "distinct (map key xs) \<Longrightarrow> x \<in> set xs \<Longrightarrow> find (\<lambda>y. key y = key x \<and> P y) xs = (if P x then Some x else None)"
  by (induction xs) (auto simp: image_iff find_None_iff)

lemma typed_field_sent:
  assumes "msg_typed (Suc k) D msg m" "f \<in> set (md_fields msg)"
  shows "fmlookup m (fd_name f) = Some (if sent_values m f = [] then (if is_repeated f then ObjList [] else ObjNone)
      else if is_repeated f then ObjList (sent_values m f) else last (sent_values m f))"
    and "sent_values m f = [] \<Longrightarrow> is_required f \<Longrightarrow> is_repeated f"
proof -
  obtain w where w: "fmlookup m (fd_name f) = Some w"
    using assms by (metis fmlookup_dom'_iff imageI msg_typed.simps(2))
  have "w = ObjNone \<and> \<not> is_required f \<and> \<not> is_repeated f \<or> field_typed (msg_typed k D) D f w"
    using assms w by simp
  moreover have "w \<noteq> ObjNone" if "field_typed (msg_typed k D) D f w"
    using that by (auto simp: field_typed_def value_typed_def int_between_def alloc_with_capacity_def
        split: if_splits field_type.splits)
  moreover have "\<exists>vs. w = ObjList vs" if "field_typed (msg_typed k D) D f w" "is_repeated f"
    using that by (auto simp: field_typed_def)
  ultimately show "fmlookup m (fd_name f) = Some (if sent_values m f = [] then (if is_repeated f then ObjList [] else ObjNone)
      else if is_repeated f then ObjList (sent_values m f) else last (sent_values m f))"
    and "sent_values m f = [] \<Longrightarrow> is_required f \<Longrightarrow> is_repeated f"
    using w by (auto simp: sent_values_def split: if_splits)
qed

lemma finish_message_same:
  assumes "msg_ok D S msg" "length (md_defaults msg) \<le> USIZE_MAX" "msg_typed (Suc k) D msg m" "canonical (Suc k) D msg m"
  shows "finish_message D d rec msg (fold (put_sent m) (md_fields msg) fmempty) = Ok (alloc_with_capacity msg m)"
proof -
  let ?m = "fold (put_sent m) (md_fields msg) fmempty"
  have names: "distinct (map fd_name (md_fields msg))" using assms(1) by (simp add: msg_ok_def)
  have sent: "fmlookup ?m (fd_name f) = (if sent_values m f = [] then None else fmlookup m (fd_name f))"
    if f: "f \<in> set (md_fields msg)" for f
    using fold_put_sent_lookup [OF names, of m fmempty "fd_name f"] typed_field_sent(1) [OF assms(3) f]
      find_key_if [OF names f, of "\<lambda>g. sent_values m g \<noteq> []"] by simp
  have other: "fmlookup ?m name = None" if "name \<notin> fd_name ` set (md_fields msg)" for name
  proof -
    have "find (\<lambda>f. fd_name f = name \<and> sent_values m f \<noteq> []) (md_fields msg) = None"
      using that by (auto simp: find_None_iff)
    then show ?thesis using fold_put_sent_lookup [OF names, of m fmempty name] by simp
  qed
  obtain ds where ds: "md_defaults msg = default_entries ds" "list_all (default_entry_ok D msg) ds"
    "list_all (\<lambda>(tag, _). \<forall>f. msg_field msg tag = Some f \<longrightarrow> fmlookup m (fd_name f) \<noteq> Some ObjNone) ds"
    using assms(4) by auto
  have "fmlookup ?m (fd_name f) \<noteq> None" if e: "(tag, bs) \<in> set ds" and f: "msg_field msg tag = Some f" for tag bs f
  proof -
    have "\<not> is_repeated f" "fmlookup m (fd_name f) \<noteq> Some ObjNone"
      using ds(2,3) e f by (auto simp: list_all_iff default_entry_ok_def)
    then show ?thesis using msg_field_Some [OF f] sent typed_field_sent(1) [OF assms(3)] by auto
  qed
  then have "list_all (\<lambda>(tag, _). \<forall>f. msg_field msg tag = Some f \<longrightarrow> fmlookup ?m (fd_name f) \<noteq> None) ds"
    by (auto simp: list_all_iff)
  then have defaults: "decode_defaults_into D d rec msg ?m = Ok ?m"
    unfolding decode_defaults_into_def using ds(1,2) assms(2) by (intro decode_defaults_skip) (simp_all add: stream_wf_new)
  have "\<forall>f\<in>set (md_fields msg). fmlookup ?m (fd_name f) = None \<longrightarrow> \<not> is_required f"
    using sent typed_field_sent [OF assms(3)] assms(1) by (auto simp: msg_ok_def split: if_splits)
  then obtain m2 where m2: "assign_required_into (md_fields msg) ?m = Ok m2" using assign_required_Ok by blast
  have "fmlookup m2 name = fmlookup m name" for name
  proof (cases "name \<in> fd_name ` set (md_fields msg)")
    case True
    then obtain f where f: "f \<in> set (md_fields msg)" "name = fd_name f" by blast
    then show ?thesis
      using assign_required_lookup [OF m2, of name] find_key [OF names f(1)] sent [OF f(1)] typed_field_sent(1) [OF assms(3) f(1)]
      by (cases "sent_values m f = []") simp_all
  next
    case False
    have "find (\<lambda>f. fd_name f = name) (md_fields msg) = None" using False by (auto simp: find_None_iff)
    moreover have "fmlookup m name = None"
      using False assms(3) by (metis fmdom'_notD msg_typed.simps(2))
    ultimately show ?thesis using assign_required_lookup [OF m2, of name] other [OF False] by simp
  qed
  then have "m2 = m" by (rule fmap_ext)
  then show ?thesis using defaults m2 by (simp add: finish_message_def)
qed

lemma message_roundtrip:
  assumes D: "defs_ok D S" and d: "experimental_ok D S (enable_experimental d)"
  shows "off \<in> set S \<Longrightarrow> get_msg D off = Ok msg \<Longrightarrow> msg_typed k D msg m \<Longrightarrow> encodable k D msg m \<Longrightarrow> canonical k D msg m
    \<Longrightarrow> k + unat depth \<le> 16 \<Longrightarrow> k \<le> n
    \<Longrightarrow> message_from_stream_ex n D d depth msg (input_stream_new (msg_bytes k D msg m)) = Ok (alloc_with_capacity msg m)"
proof (induction k arbitrary: n depth msg m off)
  case (Suc k)
  obtain n' where n: "n = Suc n'" "k \<le> n'" using Suc.prems(7) by (cases n) auto
  have depth: "unat depth < 16" using Suc.prems(6) by simp
  then have up: "unat (depth + 1) = Suc (unat depth)" by (simp add: unat_word_ariths)
  have nest: "\<not> MAX_NESTING \<le> depth" using depth by (simp add: MAX_NESTING_def word_le_nat_alt)
  have msg: "msg_ok D S msg" by (rule defs_okD [OF D Suc.prems(1,2)])
  have en: "fields_enabled (enable_experimental d) msg"
    using d Suc.prems(1,2) by (auto simp: experimental_ok_def fields_enabled_def)
  let ?rec = "message_from_stream_ex n' D d"
  have vals: "value_typed (msg_typed k D) ty v \<and> value_encodable (encodable k D) ty v
      \<and> nested_ok (msg_bytes k D) (?rec (depth + 1)) ty v"
    if f: "f \<in> set (md_fields msg)" and ty: "get_type D f = Ok ty" and v: "v \<in> set (sent_values m f)" for f ty v
  proof -
    have typed: "value_typed (msg_typed k D) ty v" by (rule typed_field_values [OF Suc.prems(3) f ty v])
    have enc: "value_encodable (encodable k D) ty v" using Suc.prems(4) f ty v by (auto simp: list_all_iff)
    have "?rec (depth + 1) msg' (input_stream_new (msg_bytes k D msg' m')) = Ok v"
      if m': "ty = FMsg msg'" "v = alloc_with_capacity msg' m'" for msg' m'
    proof -
      have "enum_or_msg_offset f \<in> set S" using msg f ty m'(1) by (auto simp: msg_ok_def)
      moreover have "get_msg D (enum_or_msg_offset f) = Ok msg'" using get_type_msg ty m'(1) by simp
      moreover have "msg_typed k D msg' m'" using typed m' by (auto simp: value_typed_def alloc_with_capacity_def)
      moreover have "encodable k D msg' m'" using enc m' by (auto simp: value_encodable_def alloc_with_capacity_def)
      moreover have "canonical k D msg' (msg_map v)"
        using Suc.prems(5) f ty v m'(1) by (auto simp: list_all_iff)
      then have "canonical k D msg' m'" using m'(2) by (simp add: alloc_with_capacity_def)
      ultimately show ?thesis using Suc.IH [of _ msg' m' "depth + 1" n'] Suc.prems(6) up n(2) m'(2) by simp
    qed
    then show ?thesis using typed enc by (simp add: nested_ok_def)
  qed
  have wf: "stream_wf (input_stream_new (msg_bytes (Suc k) D msg m))"
    using Suc.prems(4) by (simp add: stream_wf_new)
  have "fst (decode_fields_into D d ?rec depth msg fmempty (input_stream_new (msg_bytes (Suc k) D msg m)))
      = Ok (fold (put_sent m) (md_fields msg) fmempty)"
    by (rule decode_fields_all [where nested = "msg_bytes k D" and rec = ?rec and depth = depth, OF wf _ en msg])
      (use msg vals in \<open>auto simp: msg_ok_def\<close>)
  then show ?case
    using finish_message_same [OF msg get_msg_defaults [OF Suc.prems(2)] Suc.prems(3,5)] nest n(1)
    by (simp add: message_step_def)
qed simp

lemma protobuf_decode_bytes:
  assumes "defs_ok D S" "experimental_ok D S experimental" "off \<in> set S" "get_msg D off = Ok msg"
    and "msg_typed k D msg m" "encodable k D msg m" "canonical k D msg m" "k \<le> 16"
  shows "protobuf_decode checks D (msg_bytes k D msg m) msg experimental = Ok (ObjMsg (md_wire_id msg) off m)"
proof -
  have "experimental \<or> \<not> md_is_experimental msg" using assms(2,3,4) by (auto simp: experimental_ok_def)
  then show ?thesis
    using message_roundtrip [OF assms(1) _ assms(3-7), of "\<lparr>enable_experimental = experimental, overflow_checks = checks\<rparr>" 0 DECODE_FUEL]
      assms(2,8) get_msg_offset [OF assms(4)]
    by (simp add: protobuf_decode_def message_from_stream_def DECODE_FUEL_def MAX_NESTING_def alloc_with_capacity_def)
qed

text \<open>
  C9. Messages survive the codec: a well-typed message that has a representation, no \<open>None\<close> in
  place of a default value and no experimental fields unless these are enabled is encoded into a
  buffer of the announced length, and decoding these bytes gives the same message again, through
  all levels of nesting.
\<close>

theorem decode_encode_roundtrip:
  assumes "micropython_ok M" "defs_ok D S" "experimental_ok D S experimental" "off \<in> set S" "get_msg D off = Ok msg"
    and "msg_typed k D msg m" "encodable k D msg m" "canonical k D msg m" "k \<le> 16" "k \<le> stack"
  shows "\<exists>n. protobuf_len stack M D (ObjMsg (md_wire_id msg) off m) = Ok n
    \<and> (n \<le> length buf \<longrightarrow>
        (\<exists>buf'. protobuf_encode stack M D buf (ObjMsg (md_wire_id msg) off m) = (Ok n, buf')
          \<and> protobuf_decode checks D (take n buf') msg experimental = Ok (ObjMsg (md_wire_id msg) off m)))"
  using protobuf_decode_bytes [OF assms(2-9)] protobuf_len_bytes [OF assms(1,5,7,10)]
    protobuf_encode_bytes(1) [OF assms(1,5,7,10)] by simp

end
