(* ===== verification/Proto_Example.thy ===== *)
theory Proto_Example
  imports Proto_Roundtrip
begin

text \<open>
  A small set of tables, a message and a runtime, on which the codec runs: a path of numbers inside
  of a message with a string, a flag that is set by default, a signed number and an enumeration.
\<close>

section \<open>Tables\<close>

definition path_def :: bytes where
  "path_def = [1, 0, 44, 0,   1, 0x40, 0, 0, 10, 0]"

definition request_def :: bytes where
  "request_def = [5, 2, 55, 0,   1, 0x88, 0, 0, 11, 0,   2, 0x06, 0, 0, 12, 0,   3, 0x04, 0, 0, 13, 0,
     4, 0x03, 0, 0, 14, 0,   5, 0x07, 0, 0, 15, 0,   3, 1]"

definition example_defs :: proto_defs where
  "example_defs =
     \<lparr>enum_blob = [2, 0, 0, 0, 3, 0], msg_blob = path_def @ request_def,
      name_blob = [20, 0, 0, 0, 21, 0, 10, 0], wire_blob = [30, 0, 44, 0, 0, 0, 30, 0, 55, 0, 10, 0]\<rparr>"

definition path_msg :: msg_def where
  "path_msg =
     \<lparr>md_fields = [\<lparr>fd_tag = 1, flags_and_type = 0x40, enum_or_msg_offset = 0, fd_name = 10\<rparr>], md_defaults = [],
      md_is_experimental = False, md_wire_id = Some 44, md_offset = 0\<rparr>"

definition request_msg :: msg_def where
  "request_msg =
     \<lparr>md_fields =
        [\<lparr>fd_tag = 1, flags_and_type = 0x88, enum_or_msg_offset = 0, fd_name = 11\<rparr>,
         \<lparr>fd_tag = 2, flags_and_type = 0x06, enum_or_msg_offset = 0, fd_name = 12\<rparr>,
         \<lparr>fd_tag = 3, flags_and_type = 0x04, enum_or_msg_offset = 0, fd_name = 13\<rparr>,
         \<lparr>fd_tag = 4, flags_and_type = 0x03, enum_or_msg_offset = 0, fd_name = 14\<rparr>,
         \<lparr>fd_tag = 5, flags_and_type = 0x07, enum_or_msg_offset = 0, fd_name = 15\<rparr>],
      md_defaults = [3, 1], md_is_experimental = False, md_wire_id = Some 55, md_offset = 10\<rparr>"

lemma get_path [simp]: "get_msg example_defs 0 = Ok path_msg"
  by (simp add: get_msg_def example_defs_def path_def_def path_msg_def slice_from_def slice_to_def FIELD_DEF_SIZE_def Let_def)

lemma path_ids [simp]: "md_wire_id path_msg = Some 44" "md_offset path_msg = 0"
  by (simp_all add: path_msg_def)

lemma get_request [simp]: "get_msg example_defs 10 = Ok request_msg"
  by (simp add: get_msg_def example_defs_def path_def_def request_def_def request_msg_def slice_from_def
      slice_to_def FIELD_DEF_SIZE_def Let_def)

lemma request_ids: "md_wire_id request_msg = Some 55" "md_offset request_msg = 10"
  by (simp_all add: request_msg_def)

lemma get_example_enum [simp]: "get_enum example_defs 0 = Ok \<lparr>ed_values = [0, 3]\<rparr>"
  by (simp add: get_enum_def example_defs_def slice_to_def Let_def)

lemmas field_flags = is_required_def is_repeated_def is_experimental_field_def fd_flags_def fd_ftype_def

lemma example_defs_ok: "defs_ok example_defs [0, 10]"
proof -
  have "defaults_ok example_defs path_msg"
    by (auto simp: defaults_ok_def path_msg_def default_entries_def intro!: exI [of _ "[]"])
  moreover have "defaults_ok example_defs request_msg"
    unfolding defaults_ok_def
    by (rule exI [of _ "[(3, [1])]"])
      (auto simp: request_msg_def default_entries_def default_entry_ok_def msg_field_def field_flags get_type_def
        default_payload_def primitive_types intro!: exI [of _ 1])
  ultimately show ?thesis
    by (simp add: defs_ok_def msg_ok_def path_msg_def request_msg_def field_flags get_type_def)
qed

lemma example_experimental: "experimental_ok example_defs [0, 10] experimental"
  by (auto simp: experimental_ok_def fields_enabled_def path_msg_def request_msg_def field_flags)

section \<open>A message\<close>

definition example_path :: "(u16, obj) fmap" where
  "example_path = fmupd 10 (ObjList [ObjInt 5, ObjInt 300]) fmempty"

definition example_request :: "(u16, obj) fmap" where
  "example_request =
     fmupd 11 (ObjMsg (Some 44) 0 example_path) (fmupd 12 (ObjStr [0x68, 0x69]) (fmupd 13 (ObjBool False)
       (fmupd 14 (ObjInt (- 2)) (fmupd 15 (ObjInt 3) fmempty))))"

definition example_bytes :: bytes where
  "example_bytes = [0x0A, 5, 0x08, 5, 0x08, 0xAC, 2,   0x12, 2, 0x68, 0x69,   0x18, 0,   0x20, 3,   0x28, 3]"

lemma length_example_bytes: "length example_bytes = 17"
  by (simp add: example_bytes_def)

lemma bytes_300: "uvarint_bytes 300 = [0xAC, 2]"
  by (subst uvarint_bytes.simps) simp

lemmas format_defs = field_bytes_def get_type_def field_flags sent_values_def entry_bytes_def key_number_def
  value_bytes_def primitive_types length_delimited_def zigzag_code_def

lemma path_bytes: "msg_bytes (Suc k) example_defs path_msg example_path = [0x08, 5, 0x08, 0xAC, 2]"
  by (simp add: path_msg_def example_path_def format_defs bytes_300)

lemma request_bytes: "msg_bytes (Suc (Suc k)) example_defs request_msg example_request = example_bytes"
  unfolding msg_bytes.simps(2) [of "Suc k"]
  by (simp add: request_msg_def example_request_def format_defs path_bytes example_bytes_def del: msg_bytes.simps)

lemmas value_preds = value_encodable_def value_typed_def bytes_encodable_def int_between_def field_typed_def
  alloc_with_capacity_def is_list_def utf8_cont_def

lemma path_good: "encodable 1 example_defs path_msg example_path" "msg_typed 1 example_defs path_msg example_path"
    "canonical 1 example_defs path_msg example_path"
  unfolding One_nat_def encodable.simps(2) path_bytes msg_typed.simps(2) canonical.simps(2)
  by (auto simp: path_msg_def example_path_def USIZE_MAX_def get_type_def field_flags sent_values_def value_preds
      default_entries_def intro!: exI [of _ "[]"])

lemma request_encodable: "encodable 2 example_defs request_msg example_request"
  using path_good(1) unfolding numeral_2_eq_2 One_nat_def encodable.simps(2) [of "Suc 0"] request_bytes
  by (auto simp: request_msg_def example_request_def example_bytes_def USIZE_MAX_def get_type_def field_flags
      sent_values_def value_preds simp del: encodable.simps)

lemma request_typed: "msg_typed 2 example_defs request_msg example_request"
  using path_good(2) unfolding numeral_2_eq_2 One_nat_def msg_typed.simps(2) [of "Suc 0"]
  by (auto simp: request_msg_def example_request_def get_type_def field_flags value_preds simp del: msg_typed.simps)

lemma request_canonical: "canonical 2 example_defs request_msg example_request"
  using path_good(3) unfolding numeral_2_eq_2 One_nat_def canonical.simps(2) [of "Suc 0"]
  by (auto simp add: request_msg_def example_request_def default_entries_def default_entry_ok_def msg_field_def
      field_flags get_type_def default_payload_def primitive_types sent_values_def
      simp del: canonical.simps intro!: exI [of _ "[(3, [1])]"] exI [of _ 1])

section \<open>A runtime\<close>

definition python_runtime :: micropython where
  "python_runtime =
     \<lparr>mp_obj_is_true = (\<lambda>v. case v of ObjBool b \<Rightarrow> Ok b | ObjNone \<Rightarrow> Ok False | ObjInt i \<Rightarrow> Ok (i \<noteq> 0)
        | ObjBytes b \<Rightarrow> Ok (b \<noteq> []) | ObjStr b \<Rightarrow> Ok (b \<noteq> []) | ObjList vs \<Rightarrow> Ok (vs \<noteq> []) | _ \<Rightarrow> Ok True),
      mp_obj_get_int_maybe = (\<lambda>v. case v of ObjBool b \<Rightarrow> Ok (Some (of_bool b))
        | ObjInt i \<Rightarrow> Ok (if - (2 ^ 31) \<le> i \<and> i < 2 ^ 31 then Some i else None) | _ \<Rightarrow> Ok None),
      mp_iterate = (\<lambda>v. case v of ObjList vs \<Rightarrow> Ok vs | _ \<Rightarrow> Err TypeError),
      mp_get_buffer = (\<lambda>v. case v of ObjBytes b \<Rightarrow> Some b | ObjStr b \<Rightarrow> Some b | _ \<Rightarrow> None),
      MPZ_DIG_SIZE = 16\<rparr>"

lemma python_runtime_ok: "micropython_ok python_runtime"
  by (simp add: micropython_ok_def python_runtime_def)

section \<open>Runs\<close>

theorem find_by_wire_correct_witness:
  "find_msg_offset_by_wire example_defs 30 55 = Some 10 \<and> find_msg_offset_by_wire example_defs 30 44 = Some 0
    \<and> find_msg_offset_by_wire example_defs 30 45 \<noteq> Some 10"
  using find_by_wire_correct [of example_defs 30 55 10] find_by_wire_correct [of example_defs 30 44 0]
    find_by_wire_correct [of example_defs 30 45 10]
  by (simp add: wire_defs_def example_defs_def wire_key_def)

theorem encode_exact_witness:
  "protobuf_len 2 python_runtime example_defs (ObjMsg (Some 55) 10 example_request) = Ok 17
    \<and> protobuf_encode 2 python_runtime example_defs (replicate 20 0xFF) (ObjMsg (Some 55) 10 example_request)
        = (Ok 17, example_bytes @ [0xFF, 0xFF, 0xFF])
    \<and> fst (protobuf_encode 2 python_runtime example_defs (replicate 16 0xFF) (ObjMsg (Some 55) 10 example_request))
        = Err EOFError"
  using encode_exact [OF python_runtime_ok get_request request_encodable, of 2 "Some 55" "replicate 20 0xFF"]
    encode_exact [OF python_runtime_ok get_request request_encodable, of 2 "Some 55" "replicate 16 0xFF"]
  by (simp add: request_bytes [of 0, folded numeral_2_eq_2] Let_def length_example_bytes split: prod.splits)
    (simp add: eval_nat_numeral)

theorem decode_encode_roundtrip_witness:
  "protobuf_len 2 python_runtime example_defs (ObjMsg (Some 55) 10 example_request) = Ok 17
    \<and> (\<exists>buf'. protobuf_encode 2 python_runtime example_defs (replicate 20 0xFF) (ObjMsg (Some 55) 10 example_request) = (Ok 17, buf')
        \<and> protobuf_decode False example_defs (take 17 buf') request_msg False = Ok (ObjMsg (Some 55) 10 example_request))"
  using decode_encode_roundtrip [OF python_runtime_ok example_defs_ok example_experimental [of False] _ get_request request_typed request_encodable
      request_canonical, of 2 "replicate 20 0xFF" False]
    protobuf_len_bytes [OF python_runtime_ok get_request request_encodable, of 2 "Some 55"]
  by (simp add: request_ids request_bytes [of 0, folded numeral_2_eq_2] length_example_bytes)

theorem decode_never_panics_witness:
  "protobuf_decode False example_defs [0x0A, 0xFF, 0xFF, 0xFF, 0xFF, 0x0F] request_msg False \<noteq> Panic"
  using decode_never_panics [OF example_defs_ok _ get_request] by simp

text \<open>A request that has an empty path and nothing else: the other fields get defaults or \<open>None\<close>.\<close>

lemma read_small:
  assumes "is_pos s < length (is_buf s)" "is_buf s ! is_pos s AND 0x80 = 0"
  shows "read_uvarint s = (Ok (ucast (is_buf s ! is_pos s) AND 0x7F), s\<lparr>is_pos := is_pos s + 1\<rparr>)"
  using assms unfolding read_uvarint_def by (subst read_uvarint_loop.simps) (simp add: read_byte_def Let_def)

lemmas decode_eval = finish_message_def decode_defaults_into_def alloc_with_capacity_def input_stream_new_def
  remaining_def read_byte_def read_small get_type_def field_flags primitive_types

lemma decode_empty_path: "unat depth < 16 \<Longrightarrow>
    message_from_stream_ex (Suc n) example_defs d depth path_msg (input_stream_new []) =
      Ok (ObjMsg (Some 44) 0 (fmupd 10 (ObjList []) fmempty))"
  by (simp add: message_step_def MAX_NESTING_def word_le_nat_alt decode_fields_into.simps decode_defaults_loop.simps decode_eval
      del: path_ids) (simp add: path_msg_def field_flags decode_defaults_loop.simps decode_eval)

definition example_defaults :: "(u16, obj) fmap" where
  "example_defaults =
     fmupd 15 ObjNone (fmupd 14 ObjNone (fmupd 12 ObjNone (fmupd 13 (ObjBool True)
       (fmupd 11 (ObjMsg (Some 44) 0 (fmupd 10 (ObjList []) fmempty)) fmempty))))"

lemma example_decoded:
  "protobuf_decode False example_defs [0x0A, 0] request_msg False = Ok (ObjMsg (Some 55) 10 example_defaults)"
proof -
  let ?d = "\<lparr>enable_experimental = False, overflow_checks = False\<rparr>"
  let ?rec = "message_from_stream_ex (unat MAX_NESTING) example_defs ?d"
  let ?m = "fmupd 11 (ObjMsg (Some 44) 0 (fmupd 10 (ObjList []) fmempty)) fmempty"
  have "?rec 1 path_msg (input_stream_new []) = Ok (ObjMsg (Some 44) 0 (fmupd 10 (ObjList []) fmempty))"
    using decode_empty_path [of 1 15 ?d] by (simp add: MAX_NESTING_def)
  then have "decode_next example_defs ?d ?rec 0 request_msg fmempty \<lparr>is_buf = [0x0A, 0], is_pos = 0\<rparr> =
      (Ok ?m, \<lparr>is_buf = [0x0A, 0], is_pos = 2\<rparr>)"
    by (simp add: decode_next_def decode_field_def decode_value_def read_length_delimited_def to_usize_def USIZE_MAX_def
        stream_read_def store_field_def request_msg_def msg_field_def decode_eval)
  then have fields: "decode_fields_into example_defs ?d ?rec 0 request_msg fmempty (input_stream_new [0x0A, 0]) =
      (Ok ?m, \<lparr>is_buf = [0x0A, 0], is_pos = 2\<rparr>)"
    by (subst decode_fields_into.simps) (simp add: decode_eval decode_fields_into.simps)
  have "default_next example_defs ?d ?rec request_msg 3 ?m \<lparr>is_buf = [3, 1], is_pos = 1\<rparr> =
      (Ok (fmupd 13 (ObjBool True) ?m), \<lparr>is_buf = [3, 1], is_pos = 2\<rparr>)"
    by (simp add: default_next_def decode_field_def decode_value_def request_msg_def msg_field_def decode_eval)
  then have "decode_defaults_into example_defs ?d ?rec request_msg ?m = Ok (fmupd 13 (ObjBool True) ?m)"
    unfolding decode_defaults_into_def
    by (subst decode_defaults_loop.simps) (simp add: decode_eval request_msg_def decode_defaults_loop.simps)
  then have "finish_message example_defs ?d ?rec request_msg ?m = Ok (ObjMsg (Some 55) 10 example_defaults)"
    by (simp add: finish_message_def request_msg_def field_flags alloc_with_capacity_def example_defaults_def)
  moreover have "\<not> md_is_experimental request_msg" "\<not> MAX_NESTING \<le> 0" by (simp_all add: request_msg_def MAX_NESTING_def)
  ultimately show ?thesis
    using fields by (simp add: protobuf_decode_def message_from_stream_def DECODE_FUEL_def message_step_def)
qed

theorem decode_well_typed_witness: "msg_typed 16 example_defs request_msg example_defaults"
  using decode_well_typed [OF example_defs_ok _ get_request example_decoded] by simp

theorem length_overflow_panics_witness:
  "protobuf_decode True example_defs [0x7A, 0xFF, 0xFF, 0xFF, 0xFF, 0x0F] request_msg False = Panic
    \<and> protobuf_decode False example_defs [0x7A, 0xFF, 0xFF, 0xFF, 0xFF, 0x0F] request_msg False = Err EOFError"
  by (rule length_overflow_panics) (simp_all add: request_msg_def msg_field_def)

end
