(* ===== verification/Spec2Isabelle.thy ===== *)
theory Spec2Isabelle
  imports Thp_Delivery Thp_Handshake Thp_Firmware Proto_Example
begin

text \<open>
  \<^bold>\<open>The Trezor Host Protocol, from the packet formats to the firmware, and the message codec.\<close>

  The development models the crate \<open>rust/trezor-thp\<close>, which implements the Trezor Host Protocol
  (THP) for both ends of the wire, and the part of the firmware that drives it on the device,
  \<open>core/embed/rust/src/thp\<close> with the clock arithmetic of \<open>core/embed/sys/src/time\<close>. A host and
  a device exchange packets of a fixed size over USB or Bluetooth. On the broadcast channel the
  host pings the device and asks for a channel; the device allocates an id, both run a Noise
  handshake on the new channel, and afterwards messages of the application travel on it,
  encrypted, cut into packets, protected by a checksum and acknowledged one at a time. What these
  messages hold is decoded and encoded by the second part of the firmware that is modelled, the
  protobuf codec \<open>core/embed/rust/src/protobuf\<close> with its byte streams in \<open>io.rs\<close>.

  \<^bold>\<open>Parts and theories.\<close> The theories follow the layers of the code; each imports the ones it
  calls.

  \<^item> \<open>Thp_Prelude\<close>: machine integers, byte strings, Rust's \<open>Result\<close> with panics as a third
    outcome (\<open>result\<close>, \<open>and_then\<close>, \<open>and_then_st\<close> for \<open>?\<close>), the predicate \<open>safely\<close> (no panic and an
    invariant of the state), checked slices, big-endian encodings.
  \<^item> \<open>Thp_Error\<close> (\<open>error.rs\<close>), \<open>Thp_Crc32\<close> (\<open>crc32.rs\<close>), \<open>Thp_Control_Byte\<close> (\<open>control_byte.rs\<close>),
    \<open>Thp_Header\<close> (\<open>header.rs\<close>): error codes, checksum, packet classes, and headers with their
    parser and printer.
  \<^item> \<open>Thp_Alternating_Bit\<close> (\<open>alternating_bit.rs\<close>): the synchronization bits of both directions,
    and the protocol as a step relation over a link that loses and duplicates packets.
  \<^item> \<open>Thp_Fragment\<close> (\<open>fragment.rs\<close>): the fragmenter and the reassembler as state machines over
    the buffers of the caller, and the two whole-message routines.
  \<^item> \<open>Thp_Noise\<close> (\<open>channel/noise.rs\<close>, \<open>credential.rs\<close>, \<open>util.rs\<close>): the secure layer over a Noise
    library that is the argument \<open>B\<close> of type \<open>backend\<close>.
  \<^item> \<open>Thp_Channel\<close> (\<open>channel/mod.rs\<close>): an established channel, record \<open>channel\<close>, with
    \<open>packet_in\<close>, \<open>packet_out\<close>, \<open>message_in\<close>, \<open>message_out\<close>, \<open>message_retransmit\<close> and errors.
  \<^item> \<open>Thp_Channel_IO\<close>: the trait \<open>ChannelIO\<close> as a record of methods and its contract as the
    locale \<open>channel_io_contract\<close>, interpreted for the channel here and for the multiplexers and
    handshake objects of both ends in their theories.
  \<^item> \<open>Thp_Buffered\<close> (\<open>channel/buffered.rs\<close>): the wrapper that owns the buffers.
  \<^item> \<open>Thp_Device\<close> (\<open>channel/device.rs\<close>), \<open>Thp_Host\<close> (\<open>channel/host.rs\<close>): the multiplexer, the
    handshake object and, on the device, the allocator of ids.
  \<^item> \<open>Thp_Exchange\<close>, \<open>Thp_Allocation\<close>, \<open>Thp_Handshake\<close>, \<open>Thp_Delivery\<close>: runs of two ends
    against each other, composed from the methods of the crate.
  \<^item> \<open>Thp_Time\<close> (\<open>sys/src/time/duration.rs\<close>, \<open>instant.rs\<close>, \<open>timeout.rs\<close>, \<open>rust/src/time.rs\<close>,
    \<open>rust/src/thp/time.rs\<close>): milliseconds that wrap around, the stopwatch, and the timing data
    of a channel.
  \<^item> \<open>Thp_Linear_Map\<close>: the map type of the crate \<open>heapless\<close>, as far as the firmware uses it.
  \<^item> \<open>Thp_Context\<close> (\<open>rust/src/thp/mod.rs\<close>, \<open>error.rs\<close>): the firmware's \<open>ThpContext\<close> with every
    method, the auxiliary data of the credential check and the check; \<open>Thp_Context_Wf\<close> and
    \<open>Thp_Context_Ops\<close> hold its invariant, \<open>Thp_Firmware\<close> its properties.
  \<^item> \<open>Proto_Io\<close> (\<open>io.rs\<close>, the streams of \<open>protobuf/encode.rs\<close>, \<open>protobuf/zigzag.rs\<close>) and
    \<open>Proto_Streams\<close>: input and output of bytes and of variable-length integers. The trait
    \<open>OutputStream\<close> is a record of methods and its contract the locale \<open>byte_sink\<close>, interpreted for
    the counter and for the buffer.
  \<^item> \<open>Proto_Defs\<close> (\<open>protobuf/defs.rs\<close>): the message definitions, read from generated tables.
  \<^item> \<open>Proto_Decode\<close> (\<open>protobuf/decode.rs\<close>, \<open>obj.rs\<close>, \<open>error.rs\<close>) and \<open>Proto_Encode\<close>
    (\<open>protobuf/encode.rs\<close>, conversions of \<open>micropython/obj.rs\<close> and \<open>upymod/trezorobj.c\<close>): the
    decoder, the message objects and the encoder.
  \<^item> \<open>Proto_Format\<close>, \<open>Proto_Typed\<close>, \<open>Proto_Roundtrip\<close>: the wire format and the encoder against
    it, the types of decoded messages, and both directions together; \<open>Proto_Example\<close> runs them.

  \<^bold>\<open>Correspondence.\<close> A struct is a record with the fields of the source, an enum a datatype with
  its variants; a method with \<open>&mut self\<close> returns its result paired with the new state, also when
  it fails, and a buffer that the caller passes is an argument and part of the returned state. A
  panic (an index out of range, \<open>unwrap\<close> of an error, \<open>assert!\<close>) is the result \<open>Panic\<close>; theorems
  that nothing panics are about these branches. The integers \<open>u8\<close>, \<open>u16\<close>, \<open>u32\<close> are words of this
  width, so that additions wrap around as written; a \<open>usize\<close> is a natural number. Log messages
  are left out.

  \<^bold>\<open>What is shown.\<close>

  \<^item> Formats: the table-driven checksum is the polynomial division and detects every error
    within four bytes; the control byte is unambiguous; headers and whole messages survive the
    trip through printer and parser, and what is accepted was checksummed.
  \<^item> Alternating bit: over a lossy and duplicating link every message is accepted exactly once
    and in order, a run can always be finished, and every run is a run of a one-place buffer.
  \<^item> Channel: no input makes it panic or leave its invariant, failure is final, nothing is
    acknowledged before it is picked up, retransmissions repeat the packets, and messages handed
    to one end come out of the other one in order and unchanged, also through the wrapper.
  \<^item> Both ends: neither multiplexer nor handshake object can be made to panic; allocation and
    handshake run to their end and give channels that deliver in both directions; the device
    hands out a channel only with the verdict of the verifier on the key it is bound to.
  \<^item> Firmware: the context never panics, keeps its tables within their limits and its ids
    different, searches for an unused id in finite time, evicts the least recently used
    handshake, replaces the channel of a host that pairs again, keeps interfaces apart, and
    reports the earliest timeout; timeouts grow and have the documented limits.
  \<^item> Message codec: variable-length integers and zigzag codes are exact; messages are found by
    their number; the two passes of the encoder agree with the wire format; no input makes the
    decoder of a release build panic or recurse beyond its limit, what it returns is well-typed
    to any depth, and what is encoded is decoded as it was.
  \<^item> Deviations found on the way are theorems as well: a recoverable error that blocks a
    channel, a buffer that stays truncated, a reception that is cleared, an initiation packet
    that is sent twice, a buffer that is too long, a comparison of instants that calls
    different ones equal, and a length whose sum with the position overflows.

  \<^bold>\<open>Assumptions.\<close> The Noise library is an argument. \<open>backend_ok\<close> says that its functions keep the
  lengths of buffers and do not panic on well-formed input; \<open>aead_paired\<close> that what one cipher
  of a pair encrypts the other one decrypts; \<open>noise_xx_ok\<close> and \<open>library_ok\<close> that an honest
  handshake of both ends succeeds and gives paired ciphers; \<open>generator_ok\<close> and
  \<open>store_ok\<close> that random bytes, keys and stored credentials have the right lengths. They are shown to be satisfiable by \<open>plain_backend\<close> and by concrete
  handshakes in the witnesses. Of the map type of \<open>heapless\<close> only the locale \<open>linear_map\<close> is
  assumed: a removal keeps all other entries, in any order; \<open>swap_order\<close> is one that does. The
  callback of the credential check, the clock and the ephemeral keys are arbitrary arguments. The
  handshake object calls the check at most once per packet: \<open>verify_call\<close> names the arguments of
  this call, and \<open>device_open_packet_in_call\<close> shows that the object depends on no other.

  Of the codec, the generated tables and the MicroPython runtime are arguments. \<open>defs_ok\<close> says that
  the definitions reachable from a message can be read, have different tags and names and
  defaults of the right form, which is what the generator of the tables produces; \<open>micropython_ok\<close>
  what the runtime does with integers, truth values, lists and buffers. \<open>example_defs\<close> and
  \<open>python_runtime\<close> satisfy them.

  \<^bold>\<open>Bounds.\<close> Loops are structural recursions on the packets, buffers and tables they run over, or
  functions with a termination proof. The loops that move packets between two ends take as
  fuel the number of packets that can be in flight: a message of at most \<open>n\<close> bytes has at most
  \<open>Suc n\<close> packets, since every packet but the first carries at least one byte, so that the runs of
  the handshake use \<open>Suc HANDSHAKE_BUFFER_HTD_LEN\<close> and the like; the theorems show that the runs
  end within it. The search for a channel id in the firmware may run forever when all ids are
  taken, and is a partial function; under the invariant at most 14 are, and it is shown to
  return. The decoder gets one call more than the 16 levels of nesting it accepts, \<open>DECODE_FUEL\<close>,
  and more is shown to make no difference; the encoder has no limit of its own, and the number of
  nested calls that fit on the stack is an argument.

  \<^bold>\<open>Simplifications.\<close> The key that the host falls back to is drawn before it is known whether it
  will be needed. Conversions of the Noise library from slices to arrays, whose panics on wrong
  lengths are part of that library, are covered by assumptions on its keys. The runs of two ends
  against each other do not use acknowledgements that ride on messages, which the safety
  theorems of the single ends include. A lock that the firmware tries to take is a flag of the
  state. The codec has a \<open>usize\<close> of 32 bits, written out where a sum can exceed it: in \<open>read\<close>, where
  an argument says whether the build checks for overflow. Objects of Python are values, and
  memory that runs out is not modelled.

  \<^bold>\<open>Not modelled.\<close> The cryptographic primitives and the Noise library; the MicroPython bindings,
  which convert arguments and call the context; drivers and transports; the user interface,
  translations, the older host client and its generated protobuf classes, and the build tools.
  None of them takes part in the protocol beyond the calls that are arguments here. Of the objects
  of the codec, the attributes of message definitions are left out. Of the
  durations the two operations with floating-point results are left out.
\<close>

end
